(* ===== verification/Rqx_Prelude.thy ===== *)
theory Rqx_Prelude
  imports Main "HOL-Library.Word"
begin

text \<open>
  Vocabulary shared by the theories of the development.

  A Rust \<^verbatim>\<open>String\<close> that is only compared, concatenated or split at ASCII characters is an
  Isabelle \<open>string\<close>: its UTF-8 bytes, one \<open>char\<close> each.  A \<^verbatim>\<open>String\<close> whose characters
  are counted or classified (the text of a streamed body) is a \<open>ustr\<close>: the list of its
  Unicode scalar values, with the byte offsets that Rust's slicing uses given by
  \<open>len_utf8\<close>.  A Rust panic is \<open>None\<close> of an extra \<open>option\<close> layer; an error result is
  \<open>Inl\<close> of a sum.
\<close>

type_synonym u8 = "8 word"
type_synonym u16 = "16 word"
type_synonym u32 = "32 word"
type_synonym bytes = "u8 list"
type_synonym uchar = nat
type_synonym ustr = "uchar list"

named_theorems boundary_simps "byte offsets of a Rust string and its character boundaries"


section \<open>Strings with byte offsets\<close>

definition len_utf8 :: "uchar \<Rightarrow> nat" where
  "len_utf8 c = (if c < 128 then 1 else if c < 2048 then 2 else if c < 65536 then 3 else 4)"

lemma len_utf8_pos [simp]: "0 < len_utf8 c" "len_utf8 c \<noteq> 0"
  by (auto simp: len_utf8_def)

definition byte_len :: "ustr \<Rightarrow> nat" where
  "byte_len xs = sum_list (map len_utf8 xs)"

lemma byte_len_simps [simp, boundary_simps]:
  "byte_len [] = 0"
  "byte_len (x # xs) = len_utf8 x + byte_len xs"
  "byte_len (xs @ ys) = byte_len xs + byte_len ys"
  by (simp_all add: byte_len_def)

lemma byte_len_eq_0 [simp]: "byte_len xs = 0 \<longleftrightarrow> xs = []"
  by (cases xs) auto

text \<open>
  \<^verbatim>\<open>&s[b..]\<close> and \<^verbatim>\<open>&s[..b]\<close>: a slice at an offset that is not a character boundary,
  or past the end, panics.
\<close>

fun str_from :: "nat \<Rightarrow> ustr \<Rightarrow> ustr option" where
  "str_from b [] = (if b = 0 then Some [] else None)"
| "str_from b (c # cs) =
     (if b = 0 then Some (c # cs)
      else if len_utf8 c \<le> b then str_from (b - len_utf8 c) cs else None)"

fun str_upto :: "nat \<Rightarrow> ustr \<Rightarrow> ustr option" where
  "str_upto b [] = (if b = 0 then Some [] else None)"
| "str_upto b (c # cs) =
     (if b = 0 then Some []
      else if len_utf8 c \<le> b then map_option ((#) c) (str_upto (b - len_utf8 c) cs) else None)"

lemma str_from_0 [simp, boundary_simps]: "str_from 0 xs = Some xs"
  by (cases xs) auto

lemma str_upto_0 [simp, boundary_simps]: "str_upto 0 xs = Some []"
  by (cases xs) auto

lemma str_from_boundary [simp, boundary_simps]: "str_from (byte_len xs) (xs @ ys) = Some ys"
  by (induction xs) auto

lemma str_from_all [simp, boundary_simps]: "str_from (byte_len xs) xs = Some []"
  using str_from_boundary [of xs "[]"] by simp

lemma str_upto_boundary [simp, boundary_simps]: "str_upto (byte_len xs) (xs @ ys) = Some xs"
  by (induction xs) auto

lemma str_from_take [boundary_simps]: "str_from (byte_len (take k xs)) xs = Some (drop k xs)"
  by (metis append_take_drop_id str_from_boundary)

lemma str_upto_take [boundary_simps]: "str_upto (byte_len (take k xs)) xs = Some (take k xs)"
  by (metis append_take_drop_id str_upto_boundary)

text \<open>A slice that does not panic splits the string at a character boundary.\<close>

lemma str_from_Some: "str_from b xs = Some ys \<Longrightarrow> \<exists>zs. xs = zs @ ys \<and> byte_len zs = b"
proof (induction b xs rule: str_from.induct)
  case (1 b)
  then show ?case by (auto split: if_splits)
next
  case (2 b c cs)
  show ?case
  proof (cases "b = 0")
    case True
    with 2 show ?thesis by simp
  next
    case False
    with "2.prems" have le: "len_utf8 c \<le> b" and "str_from (b - len_utf8 c) cs = Some ys"
      by (auto split: if_splits)
    with False "2.IH" obtain zs where "cs = zs @ ys" "byte_len zs = b - len_utf8 c" by blast
    with le have "c # cs = (c # zs) @ ys \<and> byte_len (c # zs) = b" by simp
    then show ?thesis by blast
  qed
qed

text \<open>\<^verbatim>\<open>s.char_indices().nth(k)\<close>: the byte offset and the character.\<close>

definition char_index :: "nat \<Rightarrow> ustr \<Rightarrow> (nat \<times> uchar) option" where
  "char_index k xs = (if k < length xs then Some (byte_len (take k xs), xs ! k) else None)"

lemma char_index_end:
  "char_index k xs = Some (b, c) \<Longrightarrow> b + len_utf8 c = byte_len (take (Suc k) xs) \<and> k < length xs"
  by (auto simp: char_index_def take_Suc_conv_app_nth split: if_splits)


section \<open>Machine integers\<close>

text \<open>Subtraction of \<^verbatim>\<open>usize\<close> values: an underflow is a panic.\<close>

definition checked_minus :: "nat \<Rightarrow> nat \<Rightarrow> nat option" where
  "checked_minus a b = (if b \<le> a then Some (a - b) else None)"

lemma checked_minus_Some [simp]: "b \<le> a \<Longrightarrow> checked_minus a b = Some (a - b)"
  by (simp add: checked_minus_def)


section \<open>Decimal numerals, as \<open>format!\<close> prints them\<close>

definition digit :: "nat \<Rightarrow> char" where
  "digit d = char_of (48 + d)"

fun show_nat :: "nat \<Rightarrow> string" where
  "show_nat n = (if n < 10 then [digit n] else show_nat (n div 10) @ [digit (n mod 10)])"

declare show_nat.simps [simp del]

definition show_int :: "int \<Rightarrow> string" where
  "show_int i = (if i < 0 then ''-'' @ show_nat (nat (- i)) else show_nat (nat i))"

lemma show_nat_nonempty [simp]: "show_nat n \<noteq> []"
  by (subst show_nat.simps) simp


section \<open>Strings, as the standard library prints and joins them\<close>

fun join_str :: "string \<Rightarrow> string list \<Rightarrow> string" where
  "join_str sep [] = []"
| "join_str sep [x] = x"
| "join_str sep (x # y # ys) = x @ sep @ join_str sep (y # ys)"

definition NEWLINE :: string where "NEWLINE = [char_of (10::nat)]"
definition QUOTE :: string where "QUOTE = [char_of (39::nat)]"

definition hex_digit :: "nat \<Rightarrow> char" where
  "hex_digit d = (if d < 10 then char_of (48 + d) else char_of (87 + d))"

fun show_hex :: "nat \<Rightarrow> string" where
  "show_hex n = (if n < 16 then [hex_digit n] else show_hex (n div 16) @ [hex_digit (n mod 16)])"

declare show_hex.simps [simp del]

text \<open>
  \<^verbatim>\<open>{:?}\<close> of a string: quoted, with the escapes of \<^verbatim>\<open>char::escape_debug\<close>.  A byte
  above 127 belongs to a character beyond ASCII and is shown as it is.
\<close>

definition debug_char :: "char \<Rightarrow> string" where
  "debug_char c =
     (let n = of_char c :: nat in
      if n = 0 then [CHR 0x5C, CHR ''0'']
      else if n = 9 then [CHR 0x5C, CHR ''t'']
      else if n = 10 then [CHR 0x5C, CHR ''n'']
      else if n = 13 then [CHR 0x5C, CHR ''r'']
      else if n = 34 then [CHR 0x5C, CHR 0x22]
      else if n = 92 then [CHR 0x5C, CHR 0x5C]
      else if n < 32 \<or> n = 127 then [CHR 0x5C, CHR ''u'', CHR ''{''] @ show_hex n @ [CHR ''}'']
      else [c])"

definition debug_str :: "string \<Rightarrow> string" where
  "debug_str s = [CHR 0x22] @ concat (map debug_char s) @ [CHR 0x22]"


section \<open>Pieces of a fixed size\<close>

text \<open>The reference for both chunkers: cut a list into pieces of \<open>n\<close>, the remainder last.\<close>

function chop :: "nat \<Rightarrow> 'a list \<Rightarrow> 'a list list" where
  "chop n xs = (if xs = [] \<or> n = 0 then [] else take n xs # chop n (drop n xs))"
  by pat_completeness auto
termination
  by (relation "measure (\<lambda>(n, xs). length xs)") auto

declare chop.simps [simp del]

lemma chop_Nil [simp]: "chop n [] = []"
  by (subst chop.simps) simp

lemma chop_full: "0 < n \<Longrightarrow> length p = n \<Longrightarrow> chop n (p @ xs) = p # chop n xs"
  by (subst chop.simps) auto

lemma chop_rest: "xs \<noteq> [] \<Longrightarrow> length xs < n \<Longrightarrow> chop n xs = [xs]"
  by (subst chop.simps) auto

lemma concat_chop: "0 < n \<Longrightarrow> concat (chop n xs) = xs"
proof (induction n xs rule: chop.induct)
  case (1 n xs)
  then show ?case by (subst chop.simps) auto
qed

lemma chop_pieces:
  "p \<in> set (chop n xs) \<Longrightarrow> p \<noteq> [] \<and> length p \<le> n"
proof (induction n xs rule: chop.induct)
  case (1 n xs)
  then show ?case by (subst (asm) chop.simps) (auto split: if_splits)
qed

lemma chop_butlast: "p \<in> set (butlast (chop n xs)) \<Longrightarrow> length p = n"
proof (induction n xs rule: chop.induct)
  case (1 n xs)
  show ?case
  proof (cases "xs = [] \<or> n = 0")
    case True
    then have "chop n xs = []" by (subst chop.simps) auto
    with "1.prems" show ?thesis by simp
  next
    case False
    then have eq: "chop n xs = take n xs # chop n (drop n xs)" by (subst chop.simps) simp
    show ?thesis
    proof (cases "chop n (drop n xs) = []")
      case True
      with "1.prems" eq show ?thesis by simp
    next
      case more: False
      then have "drop n xs \<noteq> []" by auto
      then have "length (take n xs) = n" by simp
      with "1.prems" eq more "1.IH" False show ?thesis by auto
    qed
  qed
qed

text \<open>The whole pieces of a list, and the bytes short of a piece that follow them.\<close>

lemma chop_whole:
  assumes "0 < n"
  shows "\<exists>rest. concat (filter (\<lambda>p. length p = n) (chop n xs)) @ rest = xs \<and> length rest < n"
  using assms
proof (induction n xs rule: chop.induct)
  case (1 n xs)
  show ?case
  proof (cases "length xs < n")
    case True
    then have "filter (\<lambda>p. length p = n) (chop n xs) = []"
      by (cases "xs = []") (auto simp: chop_rest)
    with True show ?thesis by simp
  next
    case False
    with 1 obtain rest where
      "concat (filter (\<lambda>p. length p = n) (chop n (drop n xs))) @ rest = drop n xs" "length rest < n"
      by (metis list.size(3) not_less_zero)
    moreover have "chop n xs = take n xs # chop n (drop n xs)"
      using False "1.prems" by (subst chop.simps) auto
    ultimately show ?thesis using False by (intro exI [of _ rest]) simp
  qed
qed

lemma length_chop: "length (chop n xs) \<le> length xs"
proof (induction n xs rule: chop.induct)
  case (1 n xs)
  show ?case
  proof (cases "xs = [] \<or> n = 0")
    case True
    then show ?thesis by (subst chop.simps) auto
  next
    case False
    then have "length (chop n xs) \<le> Suc (length (drop n xs))"
      using "1.IH" by (subst chop.simps) simp
    also have "\<dots> \<le> length xs" using False by (cases xs) auto
    finally show ?thesis .
  qed
qed

end
