(* ===== verification/Rqx_Error.thy ===== *)
theory Rqx_Error
  imports Rqx_Prelude
begin

text \<open>
  \<^verbatim>\<open>rqx-core/src/error.rs\<close> and \<^verbatim>\<open>rqx/src/exceptions.rs\<close>: the core's error type, its
  classification of a \<^verbatim>\<open>reqwest::Error\<close>, and the Python exception each error becomes,
  with the class tree the module registers.

  A \<^verbatim>\<open>reqwest::Error\<close> is a value of another crate.  The model takes it as the record of
  what the code asks of it: the answers of its \<^verbatim>\<open>is_*\<close> methods, its display text and
  the chain that \<^verbatim>\<open>source()\<close> walks.
\<close>


section \<open>The core's errors\<close>

record json_decode_error =
  jde_message :: string
  jde_doc :: ustr
  jde_pos :: nat

datatype rqx_error =
    ConnectTimeout string
  | ReadTimeout string
  | ConnectError string
  | ReadError string
  | RemoteProtocolError string
  | ProxyError string
  | UnsupportedProtocol string
  | DecodingError string
  | TooManyRedirects string
  | RequestError string
  | HTTPStatusError string
  | MaxRetriesExceeded string
  | InvalidURL string
  | JSONDecodeError json_decode_error
  | StreamClosed string
  | StreamError string
  | TLSConfigError string
  | InvalidArgument string
  | UnknownKeyword string
  | MissingKey string

text \<open>\<^verbatim>\<open>impl Display for RqxCoreError\<close>.\<close>

fun error_display :: "rqx_error \<Rightarrow> string" where
  "error_display (JSONDecodeError e) = jde_message e"
| "error_display (ConnectTimeout m) = m"
| "error_display (ReadTimeout m) = m"
| "error_display (ConnectError m) = m"
| "error_display (ReadError m) = m"
| "error_display (RemoteProtocolError m) = m"
| "error_display (ProxyError m) = m"
| "error_display (UnsupportedProtocol m) = m"
| "error_display (DecodingError m) = m"
| "error_display (TooManyRedirects m) = m"
| "error_display (RequestError m) = m"
| "error_display (HTTPStatusError m) = m"
| "error_display (MaxRetriesExceeded m) = m"
| "error_display (InvalidURL m) = m"
| "error_display (StreamClosed m) = m"
| "error_display (StreamError m) = m"
| "error_display (TLSConfigError m) = m"
| "error_display (InvalidArgument m) = m"
| "error_display (UnknownKeyword m) = m"
| "error_display (MissingKey m) = m"


section \<open>Classifying a transport error\<close>

record hyper_error =
  is_parse :: bool
  is_incomplete_message :: bool

text \<open>
  One error of the source chain: its text, the \<^verbatim>\<open>hyper::Error\<close> it downcasts to, if any,
  and the \<^verbatim>\<open>raw_os_error\<close> of the \<^verbatim>\<open>io::Error\<close> it downcasts to, if any.
\<close>

record source_error =
  src_text :: string
  src_hyper :: "hyper_error option"
  src_os_error :: "int option"

record reqwest_error =
  is_timeout :: bool
  is_connect :: bool
  is_redirect_error :: bool
  is_body :: bool
  is_decode :: bool
  err_text :: string
  sources :: "source_error list"

definition TUNNEL_REFUSED :: "string list" where
  "TUNNEL_REFUSED =
     [''tunnel error: unsuccessful'', ''tunnel error: proxy authorization required'']"

text \<open>
  \<^verbatim>\<open>sources().find_map(downcast)\<close>: the first hyper error, with the rest of the chain,
  whose head is what the hyper error's own \<^verbatim>\<open>source()\<close> returns.
\<close>

fun find_hyper :: "source_error list \<Rightarrow> (hyper_error \<times> source_error list) option" where
  "find_hyper [] = None"
| "find_hyper (s # ss) =
     (case src_hyper s of Some h \<Rightarrow> Some (h, ss) | None \<Rightarrow> find_hyper ss)"

definition hyper_os_error :: "source_error list \<Rightarrow> int option" where
  "hyper_os_error ss = (case ss of [] \<Rightarrow> None | s # _ \<Rightarrow> src_os_error s)"

text \<open>\<^verbatim>\<open>impl From<reqwest::Error> for RqxCoreError\<close>.\<close>

definition from_reqwest :: "reqwest_error \<Rightarrow> rqx_error" where
  "from_reqwest e =
     (let msg = err_text e in
      if is_timeout e then (if is_connect e then ConnectTimeout msg else ReadTimeout msg)
      else if is_connect e then
        (if \<exists>s \<in> set (sources e). src_text s \<in> set TUNNEL_REFUSED
         then ProxyError msg else ConnectError msg)
      else if is_redirect_error e then TooManyRedirects msg
      else
        (case find_hyper (sources e) of
           Some (h, rest) \<Rightarrow>
             if is_parse h \<or> is_incomplete_message h then RemoteProtocolError msg
             else (case hyper_os_error rest of
                     Some _ \<Rightarrow> ReadError msg
                   | None \<Rightarrow> RemoteProtocolError msg)
         | None \<Rightarrow>
             if is_body e \<or> is_decode e then DecodingError msg
             else RequestError (''request failed: '' @ msg)))"

definition from_invalid_header_name :: "string \<Rightarrow> rqx_error" where
  "from_invalid_header_name shown = InvalidArgument (''invalid header name '' @ shown)"

definition from_invalid_header_value :: "string \<Rightarrow> rqx_error" where
  "from_invalid_header_value shown = InvalidArgument (''invalid header value '' @ shown)"

definition from_max_size_reached :: "string \<Rightarrow> rqx_error" where
  "from_max_size_reached shown = InvalidArgument (''too many headers: '' @ shown)"


section \<open>Python exception classes\<close>

text \<open>The classes of \<^verbatim>\<open>exceptions.rs\<close> and the built-in ones they derive from.\<close>

datatype py_class =
    PyException | PyValueError | PyTypeError | PyKeyError | PyRuntimeError | StdJSONDecodeError
  | PyArithmeticError | PyOverflowError | PyRecursionError
  | CRqxError | CHTTPError | CRequestError | CHTTPStatusError | CMaxRetriesExceeded
  | CTransportError | CDecodingError | CTooManyRedirects
  | CTimeoutException | CNetworkError | CProtocolError | CProxyError | CUnsupportedProtocol
  | CRemoteProtocolError | CConnectTimeout | CReadTimeout | CWriteTimeout | CPoolTimeout
  | CConnectError | CReadError | CWriteError
  | CInvalidURL | CJSONDecodeError | CStreamError | CStreamConsumed | CStreamClosed
  | CResponseNotRead

text \<open>
  The base tuple each class is created with: \<^verbatim>\<open>create_exception!\<close> gives one base,
  \<^verbatim>\<open>StdlibBackedExceptions::register\<close> gives the others theirs.
\<close>

fun py_bases :: "py_class \<Rightarrow> py_class list" where
  "py_bases CRqxError = [PyException]"
| "py_bases CHTTPError = [CRqxError]"
| "py_bases CRequestError = [CHTTPError]"
| "py_bases CHTTPStatusError = [CHTTPError]"
| "py_bases CMaxRetriesExceeded = [CHTTPError]"
| "py_bases CTransportError = [CRequestError]"
| "py_bases CDecodingError = [CRequestError]"
| "py_bases CTooManyRedirects = [CRequestError]"
| "py_bases CTimeoutException = [CTransportError]"
| "py_bases CNetworkError = [CTransportError]"
| "py_bases CProtocolError = [CTransportError]"
| "py_bases CProxyError = [CTransportError]"
| "py_bases CUnsupportedProtocol = [CTransportError]"
| "py_bases CRemoteProtocolError = [CProtocolError]"
| "py_bases CConnectTimeout = [CTimeoutException]"
| "py_bases CReadTimeout = [CTimeoutException]"
| "py_bases CWriteTimeout = [CTimeoutException]"
| "py_bases CPoolTimeout = [CTimeoutException]"
| "py_bases CConnectError = [CNetworkError]"
| "py_bases CReadError = [CNetworkError]"
| "py_bases CWriteError = [CNetworkError]"
| "py_bases CInvalidURL = [CRqxError, PyValueError]"
| "py_bases CJSONDecodeError = [CRqxError, StdJSONDecodeError]"
| "py_bases CStreamError = [CRqxError, PyRuntimeError]"
| "py_bases CStreamConsumed = [CStreamError]"
| "py_bases CStreamClosed = [CStreamError]"
| "py_bases CResponseNotRead = [CStreamError]"
| "py_bases StdJSONDecodeError = [PyValueError]"
| "py_bases PyValueError = [PyException]"
| "py_bases PyTypeError = [PyException]"
| "py_bases PyKeyError = [PyException]"
| "py_bases PyRuntimeError = [PyException]"
| "py_bases PyArithmeticError = [PyException]"
| "py_bases PyOverflowError = [PyArithmeticError]"
| "py_bases PyRecursionError = [PyRuntimeError]"
| "py_bases PyException = []"

text \<open>\<^verbatim>\<open>issubclass\<close>: reachable along the bases.\<close>

inductive issubclass :: "py_class \<Rightarrow> py_class \<Rightarrow> bool" where
  issubclass_refl [simp, intro]: "issubclass c c"
| issubclass_base [intro]: "b \<in> set (py_bases c) \<Longrightarrow> issubclass b d \<Longrightarrow> issubclass c d"

code_pred issubclass .

lemma issubclass_trans: "issubclass c d \<Longrightarrow> issubclass d e \<Longrightarrow> issubclass c e"
  by (induction rule: issubclass.induct) auto

datatype py_arg = AStr string | AText ustr | ANat nat

text \<open>A raised exception: its class and its constructor arguments.\<close>

record py_err =
  exc_class :: py_class
  exc_args :: "py_arg list"

definition new_err :: "py_class \<Rightarrow> string \<Rightarrow> py_err" where
  "new_err c m = \<lparr>exc_class = c, exc_args = [AStr m]\<rparr>"

lemma new_err_class [simp]: "exc_class (new_err c m) = c"
  by (simp add: new_err_def)

text \<open>\<^verbatim>\<open>PyRqxError::core\<close>.\<close>

fun py_core :: "rqx_error \<Rightarrow> py_err" where
  "py_core (ConnectTimeout m) = new_err CConnectTimeout m"
| "py_core (ReadTimeout m) = new_err CReadTimeout m"
| "py_core (ConnectError m) = new_err CConnectError m"
| "py_core (ReadError m) = new_err CReadError m"
| "py_core (RemoteProtocolError m) = new_err CRemoteProtocolError m"
| "py_core (ProxyError m) = new_err CProxyError m"
| "py_core (UnsupportedProtocol m) = new_err CUnsupportedProtocol m"
| "py_core (DecodingError m) = new_err CDecodingError m"
| "py_core (TooManyRedirects m) = new_err CTooManyRedirects m"
| "py_core (RequestError m) = new_err CRequestError m"
| "py_core (HTTPStatusError m) = new_err CHTTPStatusError m"
| "py_core (MaxRetriesExceeded m) = new_err CMaxRetriesExceeded m"
| "py_core (InvalidURL m) = new_err CInvalidURL m"
| "py_core (JSONDecodeError e) =
     \<lparr>exc_class = CJSONDecodeError,
      exc_args = [AStr (jde_message e), AText (jde_doc e), ANat (jde_pos e)]\<rparr>"
| "py_core (StreamClosed m) = new_err CStreamClosed m"
| "py_core (StreamError m) = new_err CStreamError m"
| "py_core (TLSConfigError m) = new_err CRqxError m"
| "py_core (InvalidArgument m) = new_err PyValueError m"
| "py_core (UnknownKeyword m) = new_err PyTypeError m"
| "py_core (MissingKey k) = new_err PyKeyError k"

text \<open>\<^verbatim>\<open>PyRqxError\<close>: what a pymethod returns, and the exception it is raised as.\<close>

datatype py_rqx_error = Core rqx_error | Py py_err

fun into_py_err :: "py_rqx_error \<Rightarrow> py_err" where
  "into_py_err (Py e) = e"
| "into_py_err (Core e) = py_core e"


section \<open>What the mapping guarantees\<close>

inductive_simps class_tree:
  "issubclass PyException d" "issubclass PyValueError d" "issubclass PyTypeError d"
  "issubclass PyKeyError d" "issubclass PyRuntimeError d" "issubclass StdJSONDecodeError d"
  "issubclass CRqxError d" "issubclass CHTTPError d" "issubclass CRequestError d"
  "issubclass CHTTPStatusError d" "issubclass CMaxRetriesExceeded d" "issubclass CTransportError d"
  "issubclass CDecodingError d" "issubclass CTooManyRedirects d" "issubclass CTimeoutException d"
  "issubclass CNetworkError d" "issubclass CProtocolError d" "issubclass CProxyError d"
  "issubclass CUnsupportedProtocol d" "issubclass CRemoteProtocolError d" "issubclass CConnectTimeout d"
  "issubclass CReadTimeout d" "issubclass CWriteTimeout d" "issubclass CPoolTimeout d"
  "issubclass CConnectError d" "issubclass CReadError d" "issubclass CWriteError d"
  "issubclass CInvalidURL d" "issubclass CJSONDecodeError d" "issubclass CStreamError d"
  "issubclass CStreamConsumed d" "issubclass CStreamClosed d" "issubclass CResponseNotRead d"

lemma request_error_classes:
  "c \<in> {CRequestError, CTransportError, CDecodingError, CTooManyRedirects, CTimeoutException,
        CNetworkError, CProtocolError, CProxyError, CUnsupportedProtocol, CRemoteProtocolError,
        CConnectTimeout, CReadTimeout, CWriteTimeout, CPoolTimeout, CConnectError, CReadError,
        CWriteError} \<Longrightarrow> issubclass c CRequestError"
  by (auto simp: class_tree)

lemma stdlib_not_rqx:
  "\<not> issubclass PyValueError CRqxError" "\<not> issubclass PyTypeError CRqxError"
  "\<not> issubclass PyKeyError CRqxError"
  by (auto simp: class_tree)

lemma request_error_is_rqx: "issubclass c CRequestError \<Longrightarrow> issubclass c CRqxError"
  by (erule issubclass_trans) (auto simp: class_tree)

lemma error_classes_rqx:
  "issubclass CRqxError CRqxError" "issubclass CHTTPStatusError CRqxError"
  "issubclass CMaxRetriesExceeded CRqxError" "issubclass CInvalidURL CRqxError"
  "issubclass CJSONDecodeError CRqxError" "issubclass CStreamClosed CRqxError"
  "issubclass CStreamError CRqxError"
  by (auto simp: class_tree)

text \<open>The core errors that are not under \<^verbatim>\<open>rqx.RqxError\<close>: raised as built-in exceptions.\<close>

fun builtin_error :: "rqx_error \<Rightarrow> bool" where
  "builtin_error (InvalidArgument _) = True"
| "builtin_error (UnknownKeyword _) = True"
| "builtin_error (MissingKey _) = True"
| "builtin_error _ = False"

text \<open>Every core error is raised as a class under \<^verbatim>\<open>rqx.RqxError\<close>, so \<^verbatim>\<open>except
  rqx.RqxError\<close> catches it, but for the three raised as the built-in \<^verbatim>\<open>ValueError\<close>,
  \<^verbatim>\<open>TypeError\<close> and \<^verbatim>\<open>KeyError\<close>.\<close>

theorem core_error_class:
  "issubclass (exc_class (py_core e)) CRqxError \<longleftrightarrow> \<not> builtin_error e"
  by (cases e) (auto simp: stdlib_not_rqx error_classes_rqx
      intro!: request_error_is_rqx request_error_classes)

lemma from_reqwest_class:
  "exc_class (py_core (from_reqwest e)) \<in>
     {CConnectTimeout, CReadTimeout, CProxyError, CConnectError, CTooManyRedirects,
      CRemoteProtocolError, CReadError, CDecodingError, CRequestError}"
  by (simp add: from_reqwest_def Let_def split: option.splits)

text \<open>Whatever \<^verbatim>\<open>reqwest\<close> reports, the exception raised for it is an
  \<^verbatim>\<open>rqx.RequestError\<close> and so an \<^verbatim>\<open>rqx.HTTPError\<close>: \<^verbatim>\<open>except HTTPError\<close>
  catches every failed request.\<close>

theorem transport_failure_is_request_error:
  "issubclass (exc_class (py_core (from_reqwest e))) CRequestError
   \<and> issubclass (exc_class (py_core (from_reqwest e))) CHTTPError"
proof -
  have req: "issubclass (exc_class (py_core (from_reqwest e))) CRequestError"
    using from_reqwest_class [of e] by (intro request_error_classes) auto
  moreover have "issubclass CRequestError CHTTPError" by (simp add: class_tree)
  ultimately show ?thesis by (blast intro: issubclass_trans)
qed

text \<open>The errors under \<^verbatim>\<open>rqx.HTTPError\<close>, the base of everything a request can fail with.\<close>

definition http_error :: "rqx_error \<Rightarrow> bool" where
  "http_error e \<longleftrightarrow> issubclass (exc_class (py_core e)) CHTTPError"

lemma http_errors [simp]:
  "http_error (RequestError m)" "http_error (UnsupportedProtocol m)" "http_error (MaxRetriesExceeded m)"
  "http_error (TooManyRedirects m)" "http_error (RemoteProtocolError m)" "\<not> http_error (InvalidURL m)"
  by (auto simp: http_error_def class_tree)

lemma reqwest_http_error [simp]: "http_error (from_reqwest e)"
  by (simp add: http_error_def transport_failure_is_request_error)

lemma reqwest_sum_error: "map_sum from_reqwest id x = Inl e \<Longrightarrow> http_error e"
  by (cases x) auto

text \<open>The classification itself: a timeout wins over every other predicate and is split by
  phase; a refused tunnel is the only connect failure that is a \<^verbatim>\<open>ProxyError\<close>; a hyper
  error that is neither a parse error nor an incomplete message is a read error exactly when an
  operating system error lies directly under it; a body the decompressor rejected is a
  \<^verbatim>\<open>DecodingError\<close> only with no hyper error in the chain.\<close>

theorem from_reqwest_cases:
  "from_reqwest e = ConnectTimeout (err_text e) \<longleftrightarrow> is_timeout e \<and> is_connect e"
  "from_reqwest e = ReadTimeout (err_text e) \<longleftrightarrow> is_timeout e \<and> \<not> is_connect e"
  "from_reqwest e = ProxyError (err_text e) \<longleftrightarrow>
     \<not> is_timeout e \<and> is_connect e \<and> (\<exists>s \<in> set (sources e). src_text s \<in> set TUNNEL_REFUSED)"
  "from_reqwest e = ReadError (err_text e) \<longleftrightarrow>
     \<not> is_timeout e \<and> \<not> is_connect e \<and> \<not> is_redirect_error e \<and>
     (\<exists>h rest. find_hyper (sources e) = Some (h, rest) \<and> \<not> is_parse h \<and>
        \<not> is_incomplete_message h \<and> hyper_os_error rest \<noteq> None)"
  "from_reqwest e = DecodingError (err_text e) \<longleftrightarrow>
     \<not> is_timeout e \<and> \<not> is_connect e \<and> \<not> is_redirect_error e \<and>
     find_hyper (sources e) = None \<and> (is_body e \<or> is_decode e)"
  by (auto simp: from_reqwest_def Let_def split: option.splits)

end
