(* ===== verification/Rqx_Chunking.thy ===== *)
theory Rqx_Chunking
  imports Rqx_Prelude
begin

text \<open>
  \<^verbatim>\<open>rqx-core/src/streaming/chunking.rs\<close>: the two chunkers that regroup a streamed body
  into pieces of a fixed size.  Both keep the protocol \<^verbatim>\<open>feed\<close>, then \<^verbatim>\<open>next_full\<close>
  until it returns nothing, then \<^verbatim>\<open>feed\<close> again, and \<^verbatim>\<open>flush\<close> at the end; the
  locale \<open>chunker\<close> states that contract over an abstract content, and both are
  interpretations of it.  An operation that panics returns \<open>None\<close>.
\<close>


section \<open>The contract of a chunker\<close>

text \<open>
  The pieces a chunker of size \<open>sz\<close> hands out when it holds \<open>xs\<close>, the chunks \<open>bs\<close>
  follow, and the stream then ends (\<open>e\<close>) or breaks off, when only whole pieces come out.
\<close>

definition pieces_of :: "nat option \<Rightarrow> 'a list \<Rightarrow> 'a list list \<Rightarrow> bool \<Rightarrow> 'a list list" where
  "pieces_of sz xs bs e =
     (case sz of
        None \<Rightarrow> filter (\<lambda>p. p \<noteq> []) (xs # bs)
      | Some n \<Rightarrow>
          (let ps = chop n (xs @ concat bs) in if e then ps else filter (\<lambda>p. length p = n) ps))"

text \<open>
  \<open>content c\<close> is what was fed and not yet handed out.  \<open>drained c\<close> holds after
  \<^verbatim>\<open>next_full\<close> has returned nothing, the only time the iterators feed.
\<close>

locale chunker =
  fixes size :: "'c \<Rightarrow> nat option"
    and ok :: "'c \<Rightarrow> bool"
    and drained :: "'c \<Rightarrow> bool"
    and content :: "'c \<Rightarrow> 'a list"
    and feed :: "'a list \<Rightarrow> 'c \<Rightarrow> 'c option"
    and next_full :: "'c \<Rightarrow> ('a list option \<times> 'c) option"
    and flush :: "'c \<Rightarrow> ('a list option \<times> 'c) option"
  assumes next_law: "ok c \<Longrightarrow> size c \<noteq> Some 0 \<Longrightarrow>
      \<exists>r c'. next_full c = Some (r, c') \<and> ok c' \<and> size c' = size c \<and>
        (case r of
           Some p \<Rightarrow> p \<noteq> [] \<and> content c = p @ content c' \<and>
             (case size c of Some n \<Rightarrow> length p = n | None \<Rightarrow> content c' = [])
         | None \<Rightarrow> drained c' \<and> content c' = content c \<and>
             (case size c of Some n \<Rightarrow> length (content c) < n | None \<Rightarrow> content c = []))"
    and feed_law: "ok c \<Longrightarrow> drained c \<Longrightarrow>
      \<exists>c'. feed xs c = Some c' \<and> ok c' \<and> size c' = size c \<and> content c' = content c @ xs"
    and flush_law: "ok c \<Longrightarrow>
      \<exists>c'. flush c = Some (if content c = [] then None else Some (content c), c') \<and>
        ok c' \<and> size c' = size c \<and> content c' = [] \<and> drained c'"
begin

lemma next_total: "ok c \<Longrightarrow> size c \<noteq> Some 0 \<Longrightarrow> next_full c \<noteq> None"
  using next_law by fastforce

lemma next_Some:
  assumes "next_full c = Some (Some p, c')" "ok c" "size c \<noteq> Some 0"
  shows "ok c'" "size c' = size c" "p \<noteq> []" "content c = p @ content c'"
    "size c = Some n \<Longrightarrow> length p = n" "size c = None \<Longrightarrow> content c' = []"
  using next_law [OF assms(2,3)] assms(1) by auto

lemma next_None:
  assumes "next_full c = Some (None, c')" "ok c" "size c \<noteq> Some 0"
  shows "ok c'" "size c' = size c" "drained c'" "content c' = content c"
    "size c = Some n \<Longrightarrow> length (content c) < n" "size c = None \<Longrightarrow> content c = []"
  using next_law [OF assms(2,3)] assms(1) by auto

lemma flush_None:
  assumes "flush c = Some (None, c')" "ok c"
  shows "content c = []"
  using flush_law [OF assms(2)] assms(1) by (auto split: if_splits)

lemma flush_Some:
  assumes "flush c = Some (Some p, c')" "ok c"
  shows "p = content c" "content c \<noteq> []" "content c' = []" "ok c'" "size c' = size c" "drained c'"
  using flush_law [OF assms(2)] assms(1) by (auto split: if_splits)

text \<open>Settled: drained, and holding less than a piece.\<close>

definition settled :: "'c \<Rightarrow> bool" where
  "settled c \<longleftrightarrow> drained c \<and>
     (case size c of Some n \<Rightarrow> length (content c) < n | None \<Rightarrow> content c = [])"

lemma next_pieces:
  assumes "next_full c = Some (Some p, c')" "ok c" "size c \<noteq> Some 0"
  shows "pieces_of (size c) (content c) bs e = p # pieces_of (size c') (content c') bs e"
  using next_Some [OF assms] assms(3)
  by (cases "size c") (auto simp: pieces_of_def chop_full Let_def)

lemma next_settled:
  assumes "next_full c = Some (None, c')" "ok c" "size c \<noteq> Some 0"
  shows "settled c'" "pieces_of (size c) (content c) [] False = []"
    "pieces_of (size c) (content c) bs e = pieces_of (size c') (content c') bs e"
proof -
  note n = next_None [OF assms]
  show "settled c'" using n by (cases "size c") (auto simp: settled_def)
  show "pieces_of (size c) (content c) bs e = pieces_of (size c') (content c') bs e"
    using n by simp
  show "pieces_of (size c) (content c) [] False = []"
    using n(5,6) by (cases "size c"; cases "content c = []") (auto simp: pieces_of_def chop_rest)
qed

lemma feed_pieces:
  assumes "ok c" "settled c"
  shows "\<exists>c'. feed b c = Some c' \<and> ok c' \<and> size c' = size c \<and>
    (\<forall>bs e. pieces_of (size c) (content c) (b # bs) e = pieces_of (size c') (content c') bs e)"
  using feed_law [OF assms(1), of b] assms(2)
  by (cases "size c") (auto simp: settled_def pieces_of_def)

lemma flush_pieces:
  assumes "ok c" "settled c"
  shows "\<exists>q c'. flush c = Some (q, c') \<and> ok c' \<and> size c' = size c \<and>
    pieces_of (size c) (content c) [] True =
      (case q of None \<Rightarrow> [] | Some p \<Rightarrow> p # pieces_of (size c') (content c') [] True) \<and>
    (q = None \<longrightarrow> pieces_of (size c') (content c') [] True = [])"
  using flush_law [OF assms(1)] assms(2)
  by (cases "size c") (auto simp: settled_def pieces_of_def chop_rest)

end


section \<open>Bytes\<close>

record byte_chunker =
  bc_size :: "nat option"
  carry :: bytes
  head :: bytes

definition bytes_new :: "nat option \<Rightarrow> byte_chunker" where
  "bytes_new n = \<lparr>bc_size = n, carry = [], head = []\<rparr>"

text \<open>
  \<^verbatim>\<open>size - self.carry.len()\<close> is a \<^verbatim>\<open>usize\<close> subtraction; \<^verbatim>\<open>split_to(take)\<close> leaves
  the rest in \<^verbatim>\<open>bytes\<close>, which replaces whatever \<^verbatim>\<open>head\<close> was.
\<close>

definition bytes_feed :: "bytes \<Rightarrow> byte_chunker \<Rightarrow> byte_chunker option" where
  "bytes_feed bs c =
     (case bc_size c of
        Some n \<Rightarrow>
          if carry c \<noteq> [] then
            (case checked_minus n (length (carry c)) of
               None \<Rightarrow> None
             | Some room \<Rightarrow>
                 let k = min room (length bs)
                 in Some (c\<lparr>carry := carry c @ take k bs, head := drop k bs\<rparr>))
          else Some (c\<lparr>head := bs\<rparr>)
      | None \<Rightarrow> Some (c\<lparr>head := bs\<rparr>))"

definition bytes_next_full :: "byte_chunker \<Rightarrow> bytes option \<times> byte_chunker" where
  "bytes_next_full c =
     (case bc_size c of
        None \<Rightarrow> if head c \<noteq> [] then (Some (head c), c\<lparr>head := []\<rparr>) else (None, c)
      | Some n \<Rightarrow>
          if n \<le> length (carry c) then
            (Some (take n (carry c)), c\<lparr>carry := drop n (carry c)\<rparr>)
          else if n \<le> length (head c) \<and> carry c = [] then
            (Some (take n (head c)), c\<lparr>head := drop n (head c)\<rparr>)
          else if head c \<noteq> [] then (None, c\<lparr>carry := carry c @ head c, head := []\<rparr>)
          else (None, c))"

definition bytes_flush :: "byte_chunker \<Rightarrow> bytes option \<times> byte_chunker" where
  "bytes_flush c =
     (let all = carry c @ head c
      in if all \<noteq> [] then (Some all, c\<lparr>carry := [], head := []\<rparr>)
         else (None, c\<lparr>carry := [], head := []\<rparr>))"

definition bytes_content :: "byte_chunker \<Rightarrow> bytes" where
  "bytes_content c = carry c @ head c"

text \<open>
  The invariant between calls: \<^verbatim>\<open>carry\<close> is never longer than a piece, and bytes wait in
  \<^verbatim>\<open>head\<close> behind a non-empty \<^verbatim>\<open>carry\<close> only when the carry is a whole piece.
\<close>

definition bytes_ok :: "byte_chunker \<Rightarrow> bool" where
  "bytes_ok c \<longleftrightarrow>
     (case bc_size c of
        None \<Rightarrow> carry c = []
      | Some n \<Rightarrow> length (carry c) \<le> n \<and>
          (carry c \<noteq> [] \<and> head c \<noteq> [] \<longrightarrow> length (carry c) = n))"

definition bytes_drained :: "byte_chunker \<Rightarrow> bool" where
  "bytes_drained c \<longleftrightarrow> head c = []"

lemmas bytes_chunker_defs =
  bytes_ok_def bytes_drained_def bytes_content_def bytes_feed_def bytes_next_full_def
  bytes_flush_def bytes_new_def

lemma bytes_new_ok [simp]: "bytes_ok (bytes_new n)" "bytes_content (bytes_new n) = []"
  "bc_size (bytes_new n) = n"
  by (auto simp: bytes_chunker_defs split: option.splits)

interpretation bytes_ch: chunker bc_size bytes_ok bytes_drained bytes_content bytes_feed
  "\<lambda>c. Some (bytes_next_full c)" "\<lambda>c. Some (bytes_flush c)"
proof unfold_locales
  fix c :: byte_chunker
  assume ok: "bytes_ok c" and n: "bc_size c \<noteq> Some 0"
  show "\<exists>r c'. Some (bytes_next_full c) = Some (r, c') \<and> bytes_ok c' \<and> bc_size c' = bc_size c \<and>
        (case r of
           Some p \<Rightarrow> p \<noteq> [] \<and> bytes_content c = p @ bytes_content c' \<and>
             (case bc_size c of Some n \<Rightarrow> length p = n | None \<Rightarrow> bytes_content c' = [])
         | None \<Rightarrow> bytes_drained c' \<and> bytes_content c' = bytes_content c \<and>
             (case bc_size c of Some n \<Rightarrow> length (bytes_content c) < n
              | None \<Rightarrow> bytes_content c = []))"
  proof (cases "bc_size c")
    case None
    with ok show ?thesis by (auto simp: bytes_chunker_defs)
  next
    case (Some m)
    with n have "0 < m" by simp
    with Some ok show ?thesis by (auto simp: bytes_chunker_defs)
  qed
next
  fix c :: byte_chunker and xs :: bytes
  assume "bytes_ok c" "bytes_drained c"
  then show "\<exists>c'. bytes_feed xs c = Some c' \<and> bytes_ok c' \<and> bc_size c' = bc_size c \<and>
      bytes_content c' = bytes_content c @ xs"
    by (cases "bc_size c") (auto simp: bytes_chunker_defs Let_def min_def)
next
  fix c :: byte_chunker
  assume "bytes_ok c"
  then show "\<exists>c'. Some (bytes_flush c) =
      Some (if bytes_content c = [] then None else Some (bytes_content c), c') \<and>
      bytes_ok c' \<and> bc_size c' = bc_size c \<and> bytes_content c' = [] \<and> bytes_drained c'"
    by (auto simp: bytes_chunker_defs Let_def split: option.splits)
qed


section \<open>Text\<close>

text \<open>
  \<^verbatim>\<open>consumed\<close> is a byte offset into \<^verbatim>\<open>pending\<close>, so every slice at it panics unless it is
  a character boundary.
\<close>

record text_chunker =
  tc_size :: "nat option"
  pending :: ustr
  consumed :: nat

definition text_new :: "nat option \<Rightarrow> text_chunker" where
  "text_new n = \<lparr>tc_size = n, pending = [], consumed = 0\<rparr>"

definition text_feed :: "ustr \<Rightarrow> text_chunker \<Rightarrow> text_chunker option" where
  "text_feed t c =
     (if consumed c > 0 then
        (case str_from (consumed c) (pending c) of
           None \<Rightarrow> None
         | Some rest \<Rightarrow> Some (c\<lparr>pending := rest @ t, consumed := 0\<rparr>))
      else Some (c\<lparr>pending := pending c @ t\<rparr>))"

definition text_next_full :: "text_chunker \<Rightarrow> (ustr option \<times> text_chunker) option" where
  "text_next_full c =
     (case str_from (consumed c) (pending c) of
        None \<Rightarrow> None
      | Some unread \<Rightarrow>
          (case tc_size c of
             None \<Rightarrow>
               Some (if unread \<noteq> [] then Some unread else None,
                     c\<lparr>consumed := byte_len (pending c)\<rparr>)
           | Some n \<Rightarrow>
               (case checked_minus n 1 of
                  None \<Rightarrow> None
                | Some k \<Rightarrow>
                    (case char_index k unread of
                       None \<Rightarrow> Some (None, c)
                     | Some (last_start, last_char) \<Rightarrow>
                         let e = last_start + len_utf8 last_char
                         in (case str_upto e unread of
                               None \<Rightarrow> None
                             | Some piece \<Rightarrow>
                                 Some (Some piece, c\<lparr>consumed := consumed c + e\<rparr>))))))"

definition text_flush :: "text_chunker \<Rightarrow> (ustr option \<times> text_chunker) option" where
  "text_flush c =
     (case str_from (consumed c) (pending c) of
        None \<Rightarrow> None
      | Some rest \<Rightarrow>
          Some (if rest \<noteq> [] then Some rest else None, c\<lparr>pending := [], consumed := 0\<rparr>))"

text \<open>The invariant: \<^verbatim>\<open>consumed\<close> is a character boundary of \<^verbatim>\<open>pending\<close>.\<close>

definition text_ok :: "text_chunker \<Rightarrow> bool" where
  "text_ok c \<longleftrightarrow> str_from (consumed c) (pending c) \<noteq> None"

definition text_content :: "text_chunker \<Rightarrow> ustr" where
  "text_content c = (case str_from (consumed c) (pending c) of Some r \<Rightarrow> r | None \<Rightarrow> [])"

lemmas text_chunker_defs =
  text_ok_def text_content_def text_feed_def text_next_full_def text_flush_def text_new_def

lemma text_new_ok [simp]: "text_ok (text_new n)" "text_content (text_new n) = []"
  "tc_size (text_new n) = n"
  by (auto simp: text_chunker_defs)

lemma text_okE:
  assumes "text_ok c"
  obtains zs ys where "pending c = zs @ ys" "consumed c = byte_len zs" "text_content c = ys"
  using assms str_from_Some [of "consumed c" "pending c"]
  by (fastforce simp: text_ok_def text_content_def)

lemma str_from_append3 [boundary_simps]:
  "str_from (byte_len xs + byte_len ys) (xs @ ys @ zs) = Some zs"
  by (metis append.assoc byte_len_simps(3) str_from_boundary)

lemma text_next_sized:
  assumes "pending c = zs @ ys" "consumed c = byte_len zs" "tc_size c = Some n" "0 < n"
  shows "text_next_full c =
    (if n \<le> length ys then Some (Some (take n ys), c\<lparr>consumed := consumed c + byte_len (take n ys)\<rparr>)
     else Some (None, c))"
proof (cases "n \<le> length ys")
  case True
  then have "char_index (n - 1) ys = Some (byte_len (take (n - 1) ys), ys ! (n - 1))"
    using assms(4) by (simp add: char_index_def)
  moreover from this have "byte_len (take (n - 1) ys) + len_utf8 (ys ! (n - 1)) = byte_len (take n ys)"
    using char_index_end assms(4) by fastforce
  ultimately show ?thesis
    using assms True by (simp add: text_next_full_def str_upto_take Let_def)
next
  case False
  then have "\<not> n - Suc 0 < length ys" using assms(4) by simp
  with assms False show ?thesis by (simp add: text_next_full_def char_index_def)
qed

interpretation text_ch: chunker tc_size text_ok "\<lambda>c. True" text_content text_feed
  text_next_full text_flush
proof unfold_locales
  fix c :: text_chunker
  assume ok: "text_ok c" and n: "tc_size c \<noteq> Some 0"
  from ok obtain zs ys where
    c: "pending c = zs @ ys" "consumed c = byte_len zs" "text_content c = ys"
    by (rule text_okE)
  show "\<exists>r c'. text_next_full c = Some (r, c') \<and> text_ok c' \<and> tc_size c' = tc_size c \<and>
        (case r of
           Some p \<Rightarrow> p \<noteq> [] \<and> text_content c = p @ text_content c' \<and>
             (case tc_size c of Some n \<Rightarrow> length p = n | None \<Rightarrow> text_content c' = [])
         | None \<Rightarrow> True \<and> text_content c' = text_content c \<and>
             (case tc_size c of Some n \<Rightarrow> length (text_content c) < n
              | None \<Rightarrow> text_content c = []))"
  proof (cases "tc_size c")
    case None
    moreover have "str_from (byte_len zs + byte_len ys) (zs @ ys) = Some []"
      using str_from_all [of "zs @ ys"] by simp
    ultimately show ?thesis using c by (simp add: text_chunker_defs)
  next
    case (Some m)
    with n have m: "0 < m" by simp
    have "str_from (byte_len zs + byte_len (take m ys)) (zs @ ys) = Some (drop m ys)"
      using str_from_append3 [of zs "take m ys" "drop m ys"] by simp
    with text_next_sized [OF c(1,2) Some m] Some m c ok show ?thesis
      by (auto simp: text_ok_def text_content_def)
  qed
next
  fix c :: text_chunker and xs :: ustr
  assume "text_ok c"
  then obtain zs ys where "pending c = zs @ ys" "consumed c = byte_len zs" "text_content c = ys"
    by (rule text_okE)
  then show "\<exists>c'. text_feed xs c = Some c' \<and> text_ok c' \<and> tc_size c' = tc_size c \<and>
      text_content c' = text_content c @ xs"
    by (auto simp: text_feed_def text_ok_def text_content_def)
next
  fix c :: text_chunker
  assume "text_ok c"
  then show "\<exists>c'. text_flush c =
      Some (if text_content c = [] then None else Some (text_content c), c') \<and>
      text_ok c' \<and> tc_size c' = tc_size c \<and> text_content c' = [] \<and> True"
    by (auto simp: text_chunker_defs split: option.splits)
qed

end
