(* ===== verification/Rqx_Lines.thy ===== *)
theory Rqx_Lines
  imports Rqx_Prelude
begin

text \<open>
  \<^verbatim>\<open>LineDecoder\<close> of \<^verbatim>\<open>rqx-core/src/streaming/decoding.rs\<close>: splitting streamed text
  into lines, with a partial line and a trailing carriage return carried from one chunk to the
  next.  The indexing \<^verbatim>\<open>lines[0]\<close> and \<^verbatim>\<open>lines.pop().unwrap()\<close> panic on an empty
  vector, which is \<open>None\<close> here.  The \<^verbatim>\<open>encoding_rs\<close> decoder is a parameter of the
  iterators that use it.
\<close>

abbreviation LF :: uchar where "LF \<equiv> 10"
abbreviation CR :: uchar where "CR \<equiv> 13"

record line_decoder =
  buffer :: ustr
  trailing_cr :: bool

definition line_new :: line_decoder where
  "line_new = \<lparr>buffer = [], trailing_cr = False\<rparr>"

definition is_line_break :: "uchar \<Rightarrow> bool" where
  "is_line_break c \<longleftrightarrow>
     c \<in> {LF, CR, 0x0b, 0x0c, 0x1c, 0x1d, 0x1e, 0x85, 0x2028, 0x2029}"

text \<open>
  The loop of \<^verbatim>\<open>split_lines\<close>: \<open>cur\<close> is \<^verbatim>\<open>current\<close>; a carriage return peeks at
  the next character and consumes a line feed.
\<close>

fun split_loop :: "ustr \<Rightarrow> ustr \<Rightarrow> ustr list" where
  "split_loop cur [] = (if cur \<noteq> [] then [cur] else [])"
| "split_loop cur (c # cs) =
     (if c = CR then
        cur # split_loop [] (if cs \<noteq> [] \<and> hd cs = LF then tl cs else cs)
      else if is_line_break c then cur # split_loop [] cs
      else split_loop (cur @ [c]) cs)"

definition split_lines :: "ustr \<Rightarrow> ustr list" where
  "split_lines t = split_loop [] t"

definition line_feed :: "ustr \<Rightarrow> line_decoder \<Rightarrow> (ustr list \<times> line_decoder) option" where
  "line_feed input d =
     (let t0 = (if trailing_cr d then CR # input else input);
          cr = (t0 \<noteq> [] \<and> last t0 = CR);
          t = (if cr then butlast t0 else t0);
          d1 = d\<lparr>trailing_cr := cr\<rparr>
      in if t = [] then Some ([], d1)
         else
           let trailing_newline = is_line_break (last t);
               ls = split_lines t
           in if length ls = 1 \<and> \<not> trailing_newline then
                (case ls of [] \<Rightarrow> None
                 | l # _ \<Rightarrow> Some ([], d1\<lparr>buffer := buffer d @ l\<rparr>))
              else
                (case (if buffer d = [] then Some (ls, [])
                       else (case ls of [] \<Rightarrow> None
                             | l # rest \<Rightarrow> Some ((buffer d @ l) # rest, []))) of
                   None \<Rightarrow> None
                 | Some (ls1, buf) \<Rightarrow>
                     if trailing_newline then Some (ls1, d1\<lparr>buffer := buf\<rparr>)
                     else if ls1 = [] then None
                     else Some (butlast ls1, d1\<lparr>buffer := last ls1\<rparr>)))"

definition line_flush :: "line_decoder \<Rightarrow> ustr option \<times> line_decoder" where
  "line_flush d =
     (if buffer d = [] \<and> \<not> trailing_cr d then (None, d)
      else (Some (buffer d), \<lparr>buffer = [], trailing_cr = False\<rparr>))"


section \<open>Splitting\<close>

abbreviation no_break :: "ustr \<Rightarrow> bool" where
  "no_break t \<equiv> (\<forall>c \<in> set t. \<not> is_line_break c)"

lemma breaks [simp]: "is_line_break CR" "is_line_break LF"
  by (simp_all add: is_line_break_def)

lemma split_loop_no_break: "no_break b \<Longrightarrow> split_loop cur (b @ xs) = split_loop (cur @ b) xs"
proof (induction b arbitrary: cur)
  case Nil
  then show ?case by simp
next
  case (Cons c b)
  then have "c \<noteq> CR" using breaks(1) by fastforce
  with Cons show ?case by simp
qed

lemma split_loop_nonempty: "xs \<noteq> [] \<or> cur \<noteq> [] \<Longrightarrow> split_loop cur xs \<noteq> []"
  by (induction cur xs rule: split_loop.induct) auto

lemma split_loop_hd:
  "split_loop [] xs \<noteq> [] \<Longrightarrow>
     split_loop b xs = (b @ hd (split_loop [] xs)) # tl (split_loop [] xs)"
proof -
  have "xs \<noteq> [] \<or> cur \<noteq> [] \<Longrightarrow> split_loop (b @ cur) xs =
      (b @ hd (split_loop cur xs)) # tl (split_loop cur xs)" for cur
  proof (induction xs arbitrary: cur)
    case Nil
    then show ?case by simp
  next
    case (Cons c cs)
    then show ?case using Cons.IH [of "cur @ [c]"] by simp
  qed
  moreover assume "split_loop [] xs \<noteq> []"
  ultimately show ?thesis by (metis append_Nil2 split_loop.simps(1))
qed

lemma split_loop_lines: "no_break cur \<Longrightarrow> l \<in> set (split_loop cur xs) \<Longrightarrow> no_break l"
proof (induction cur xs rule: split_loop.induct)
  case (1 cur)
  then show ?case by (cases "cur = []") simp_all
next
  case (2 cur c cs)
  consider "c = CR" | "c \<noteq> CR" "is_line_break c" | "c \<noteq> CR" "\<not> is_line_break c" by blast
  then show ?case
  proof cases
    case 1
    with "2.prems" "2.IH"(1) show ?thesis by (cases "l = cur") simp_all
  next
    case 2
    with "2.prems" "2.IH"(2) show ?thesis by (cases "l = cur") simp_all
  next
    case 3
    then have "no_break (cur @ [c])" "l \<in> set (split_loop (cur @ [c]) cs)"
      using "2.prems" by auto
    with 3 "2.IH"(3) show ?thesis by blast
  qed
qed

text \<open>A cut that does not separate a CR from its LF splits the lines at the cut.\<close>

lemma split_loop_append:
  assumes "xs \<noteq> []" and "last xs = CR \<Longrightarrow> v = [] \<or> hd v \<noteq> LF"
  shows "split_loop cur (xs @ v) =
    (if is_line_break (last xs) then split_loop cur xs @ split_loop [] v
     else butlast (split_loop cur xs) @ split_loop (last (split_loop cur xs)) v)"
  using assms
proof (induction cur xs rule: split_loop.induct)
  case (1 cur)
  then show ?case by simp
next
  case (2 cur c cs)
  show ?case
  proof (cases "cs = []")
    case True
    with "2.prems" show ?thesis by (cases v) auto
  next
    case False
    show ?thesis
    proof (cases "c = CR \<and> cs = [LF]")
      case True
      then show ?thesis by simp
    next
      case notcrlf: False
      define rest where "rest = (if c = CR \<and> hd cs = LF then tl cs else cs)"
      have rest: "rest \<noteq> []" "last rest = last (c # cs)" "last (c # cs) = last cs"
        "(if cs @ v \<noteq> [] \<and> hd (cs @ v) = LF then tl (cs @ v) else cs @ v) = rest @ v \<or> c \<noteq> CR"
        using False notcrlf by (cases cs; auto simp: rest_def split: if_splits)+
      consider "c = CR" | "c \<noteq> CR" "is_line_break c" | "c \<noteq> CR" "\<not> is_line_break c" by blast
      then show ?thesis
      proof cases
        case 1
        then have "split_loop cur ((c # cs) @ v) = cur # split_loop [] (rest @ v)"
          "split_loop cur (c # cs) = cur # split_loop [] rest"
          using rest(4) False by (auto simp: rest_def)
        moreover have "split_loop [] (rest @ v) =
            (if is_line_break (last rest) then split_loop [] rest @ split_loop [] v
             else butlast (split_loop [] rest) @ split_loop (last (split_loop [] rest)) v)"
          using "2.IH"(1) 1 False rest(1-3) "2.prems"(2) by (auto simp: rest_def split: if_splits)
        ultimately show ?thesis using rest(1,2) by (simp add: split_loop_nonempty)
      next
        case 2
        then show ?thesis
          using "2.IH"(2) False "2.prems"(2) rest(3) by (simp add: split_loop_nonempty)
      next
        case 3
        then show ?thesis
          using "2.IH"(3) False "2.prems"(2) rest(3) by simp
      qed
    qed
  qed
qed


section \<open>Feeding in chunks\<close>

text \<open>The text the decoder still holds: its partial line and the deferred carriage return.\<close>

definition held :: "line_decoder \<Rightarrow> ustr" where
  "held d = buffer d @ (if trailing_cr d then [CR] else [])"

definition line_ok :: "line_decoder \<Rightarrow> bool" where
  "line_ok d \<longleftrightarrow> no_break (buffer d)"

lemma line_new_ok [simp]: "line_ok line_new" "held line_new = []"
  by (simp_all add: line_ok_def line_new_def held_def)

lemma split_held:
  "line_ok d \<Longrightarrow> split_lines (held d @ u) =
     split_loop (buffer d) ((if trailing_cr d then [CR] else []) @ u)"
  by (simp add: split_lines_def held_def line_ok_def split_loop_no_break)

text \<open>
  What is fed is the deferred carriage return and the text, but for a last carriage return, which is deferred
  again; the lines of that continue the partial line.
\<close>

definition fed :: "line_decoder \<Rightarrow> ustr \<Rightarrow> ustr" where
  "fed d t = (if trailing_cr d then CR # t else t)"

definition defers :: "line_decoder \<Rightarrow> ustr \<Rightarrow> bool" where
  "defers d t \<longleftrightarrow> fed d t \<noteq> [] \<and> last (fed d t) = CR"

definition fed_now :: "line_decoder \<Rightarrow> ustr \<Rightarrow> ustr" where
  "fed_now d t = (if defers d t then butlast (fed d t) else fed d t)"

lemma line_feed_cut:
  defines "continued \<equiv> \<lambda>d t. (buffer d @ hd (split_lines (fed_now d t))) # tl (split_lines (fed_now d t))"
  shows "line_feed t d =
     (if fed_now d t = [] then Some ([], d\<lparr>trailing_cr := defers d t\<rparr>)
      else if is_line_break (last (fed_now d t)) then Some (continued d t, d\<lparr>trailing_cr := defers d t, buffer := []\<rparr>)
      else Some (butlast (continued d t), d\<lparr>trailing_cr := defers d t, buffer := last (continued d t)\<rparr>))"
proof (cases "fed_now d t = []")
  case True
  then show ?thesis
    unfolding line_feed_def Let_def fed_def [symmetric] defers_def [symmetric] fed_now_def [symmetric] by simp
next
  case False
  then have "split_lines (fed_now d t) \<noteq> []" by (simp add: split_lines_def split_loop_nonempty)
  moreover have "line_feed t d =
      (let ls = split_lines (fed_now d t) in
       if length ls = 1 \<and> \<not> is_line_break (last (fed_now d t)) then
        (case ls of [] \<Rightarrow> None
         | l # _ \<Rightarrow> Some ([], d\<lparr>trailing_cr := defers d t, buffer := buffer d @ l\<rparr>))
       else
        (case (if buffer d = [] then Some (ls, [])
               else (case ls of [] \<Rightarrow> None
                     | l # rest \<Rightarrow> Some ((buffer d @ l) # rest, []))) of
           None \<Rightarrow> None
         | Some (ls1, buf) \<Rightarrow>
             if is_line_break (last (fed_now d t)) then Some (ls1, d\<lparr>trailing_cr := defers d t, buffer := buf\<rparr>)
             else if ls1 = [] then None
             else Some (butlast ls1, d\<lparr>trailing_cr := defers d t, buffer := last ls1\<rparr>)))"
    using False unfolding line_feed_def Let_def fed_def [symmetric] defers_def [symmetric] fed_now_def [symmetric] by simp
  ultimately show ?thesis
    using False by (cases "split_lines (fed_now d t)") (auto simp: continued_def Let_def)
qed

text \<open>
  One step: it never panics, and the lines it emits followed by the split of what it then holds
  are the split of everything it was given, whatever text comes next.
\<close>

lemma line_feed_step:
  assumes ok: "line_ok d"
  shows "\<exists>ls d'. line_feed t d = Some (ls, d') \<and> line_ok d' \<and>
    (\<forall>u. split_lines (held d @ t @ u) = ls @ split_lines (held d' @ u))"
proof -
  define v where "v u = (if defers d t then [CR] else []) @ u" for u
  define all where "all = (buffer d @ hd (split_lines (fed_now d t))) # tl (split_lines (fed_now d t))"
  have fed: "fed d t = fed_now d t @ (if defers d t then [CR] else [])"
    by (simp add: fed_now_def defers_def) (metis append_butlast_last_id)
  have given: "split_lines (held d @ t @ u) = split_loop (buffer d) (fed_now d t @ v u)" for u
  proof -
    have "(if trailing_cr d then [CR] else []) @ t @ u = fed d t @ u" by (simp add: fed_def)
    also have "\<dots> = fed_now d t @ v u" by (subst fed) (simp add: v_def)
    finally show ?thesis using split_held [OF ok, of "t @ u"] by (simp only:)
  qed
  show ?thesis
  proof (cases "fed_now d t = []")
    case True
    with ok given show ?thesis by (simp add: line_feed_cut line_ok_def split_held v_def)
  next
    case False
    then have split: "split_loop (buffer d) (fed_now d t) = all"
      using split_loop_hd [of "fed_now d t" "buffer d"] by (simp add: all_def split_lines_def split_loop_nonempty)
    have "no_break (last all)"
      using split_loop_lines [of "buffer d" "last all" "fed_now d t"] ok split by (simp add: line_ok_def all_def)
    moreover have "last (fed_now d t) = CR \<Longrightarrow> v u = [] \<or> hd (v u) \<noteq> LF" for u
      using False by (auto simp: v_def fed_now_def defers_def split: if_splits)
    then have "split_lines (held d @ t @ u) =
        (if is_line_break (last (fed_now d t)) then all @ split_loop [] (v u)
         else butlast all @ split_loop (last all) (v u))" for u
      using split_loop_append [OF False, where v = "v u" and cur = "buffer d"] by (simp add: given split)
    ultimately show ?thesis
      using False line_feed_cut [of t d, folded all_def]
      by (cases "is_line_break (last (fed_now d t))") (simp_all add: split_held v_def line_ok_def)
  qed
qed

lemma line_flush_split:
  "line_ok d \<Longrightarrow> split_lines (held d) = (case fst (line_flush d) of None \<Rightarrow> [] | Some l \<Rightarrow> [l])"
  using split_held [of d "[]"] by (auto simp: line_flush_def)

text \<open>A whole stream: feed the chunks in order, then flush.\<close>

fun feed_all :: "ustr list \<Rightarrow> line_decoder \<Rightarrow> (ustr list \<times> line_decoder) option" where
  "feed_all [] d = Some ([], d)"
| "feed_all (t # ts) d =
     (case line_feed t d of None \<Rightarrow> None
      | Some (ls, d1) \<Rightarrow>
          (case feed_all ts d1 of None \<Rightarrow> None
           | Some (ls', d2) \<Rightarrow> Some (ls @ ls', d2)))"

lemma feed_all_split:
  "line_ok d \<Longrightarrow> \<exists>ls d'. feed_all ts d = Some (ls, d') \<and> line_ok d' \<and>
     split_lines (held d @ concat ts) = ls @ split_lines (held d')"
proof (induction ts arbitrary: d)
  case Nil
  then show ?case by simp
next
  case (Cons t ts)
  obtain ls1 d1 where step: "line_feed t d = Some (ls1, d1)" "line_ok d1"
    "split_lines (held d @ t @ concat ts) = ls1 @ split_lines (held d1 @ concat ts)"
    using line_feed_step [OF Cons.prems, of t] by blast
  from Cons.IH [OF step(2)] obtain ls2 d2 where
    "feed_all ts d1 = Some (ls2, d2)" "line_ok d2"
    "split_lines (held d1 @ concat ts) = ls2 @ split_lines (held d2)" by blast
  with step show ?case by simp
qed

lemma feed_all_total: "line_ok d \<Longrightarrow> feed_all ts d \<noteq> None"
  using feed_all_split by fastforce

text \<open>C17. The line decoder is independent of how the text was chunked, and never panics: the
  lines emitted while feeding the chunks, followed by the flushed last line, are exactly the
  \<^verbatim>\<open>splitlines\<close> of the whole text.\<close>

theorem line_decoder_chunking:
  "\<exists>ls d. feed_all ts line_new = Some (ls, d) \<and>
     ls @ (case fst (line_flush d) of None \<Rightarrow> [] | Some l \<Rightarrow> [l]) = split_lines (concat ts)"
proof -
  obtain ls d where "feed_all ts line_new = Some (ls, d)" "line_ok d"
    "split_lines (concat ts) = ls @ split_lines (held d)"
    using feed_all_split [of line_new ts] by auto
  then show ?thesis by (auto simp: line_flush_split)
qed


section \<open>What splitting means\<close>

text \<open>Text rendered from lines with their terminators and an unterminated tail.\<close>

fun render :: "(ustr \<times> ustr) list \<Rightarrow> ustr \<Rightarrow> ustr" where
  "render [] tail = tail"
| "render ((l, e) # ps) tail = l @ e @ render ps tail"

text \<open>Each line ends in one terminator, where a lone CR is not followed by an LF.\<close>

fun well_terminated :: "(ustr \<times> ustr) list \<Rightarrow> ustr \<Rightarrow> bool" where
  "well_terminated [] tail \<longleftrightarrow> no_break tail"
| "well_terminated ((l, e) # ps) tail \<longleftrightarrow>
     no_break l \<and>
     (e = [CR, LF] \<or>
      (length e = 1 \<and> is_line_break (hd e) \<and>
       (hd e = CR \<longrightarrow> render ps tail = [] \<or> hd (render ps tail) \<noteq> LF))) \<and>
     well_terminated ps tail"

text \<open>\<^verbatim>\<open>split_lines\<close> inverts rendering: it returns the lines without their
  terminators, takes CR LF as one break, and adds no empty line after a final terminator.\<close>

theorem split_lines_render:
  assumes "well_terminated ps tail"
  shows "split_lines (render ps tail) = map fst ps @ (if tail = [] then [] else [tail])"
  using assms
proof (induction ps)
  case Nil
  then show ?case using split_loop_no_break [of tail "[]" "[]"] by (simp add: split_lines_def)
next
  case (Cons p ps)
  obtain l e where p: "p = (l, e)" by (cases p)
  from Cons.prems p have "split_loop [] (l @ e @ render ps tail) = split_loop l (e @ render ps tail)"
    by (simp add: split_loop_no_break)
  also have "\<dots> = l # split_loop [] (render ps tail)"
    using Cons.prems p by (auto simp: length_Suc_conv)
  finally show ?case using Cons p by (simp add: split_lines_def)
qed

theorem split_lines_render_witness:
  "split_lines (render [([97], [CR, LF]), ([], [CR]), ([98], [0x2028])] [99]) =
     [[97], [], [98], [99]]"
  using split_lines_render [of "[([97], [CR, LF]), ([], [CR]), ([98], [0x2028])]" "[99]"]
  by (simp add: is_line_break_def)

end
