(* ===== verification/Rqx_Live.thy ===== *)
theory Rqx_Live
  imports Rqx_Error
begin

text \<open>
  \<^verbatim>\<open>rqx-core/src/streaming/live_stream.rs\<close>: the body while an iterator reads it.  The
  state is the mutex-guarded stream, the \<^verbatim>\<open>closed\<close> flag and the stored permit of the
  \<^verbatim>\<open>Notify\<close>.  The network is the list of what the stream will deliver; its end is the end
  of the body.

  The first part gives each method as one atomic run, which is what a caller sees when nothing
  else touches the stream.  The second part splits \<^verbatim>\<open>next_chunk\<close> and \<^verbatim>\<open>close\<close> into
  their atomic steps and runs any number of tasks against one stream in any order.
\<close>

datatype net_item = Data bytes | Fail reqwest_error

type_synonym net = "net_item list"

record live =
  slot :: "net option"
  closed :: bool
  permit :: bool

definition closed_error :: rqx_error where
  "closed_error = StreamClosed ''response closed''"

definition live_new :: "net \<Rightarrow> live" where
  "live_new n = \<lparr>slot = Some n, closed = False, permit = False\<rparr>"

definition check_open :: "live \<Rightarrow> rqx_error + unit" where
  "check_open l = (if closed l then Inl closed_error else Inr ())"

text \<open>What one poll of the stream does to the slot, and what the read returns for it.\<close>

fun poll_net :: "net \<Rightarrow> net option \<times> (rqx_error + bytes option)" where
  "poll_net [] = (None, Inr None)"
| "poll_net (Data b # rest) = (Some rest, Inr (Some b))"
| "poll_net (Fail e # rest) = (None, Inl (from_reqwest e))"

text \<open>\<^verbatim>\<open>next_chunk\<close>, with \<^verbatim>\<open>select!\<close> biased towards the close signal.\<close>

definition live_next :: "live \<Rightarrow> live \<times> (rqx_error + bytes option)" where
  "live_next l =
     (case check_open l of
        Inl e \<Rightarrow> (l, Inl e)
      | Inr _ \<Rightarrow>
          (case slot l of
             None \<Rightarrow> (l, Inl closed_error)
           | Some n \<Rightarrow>
               if permit l then (l\<lparr>permit := False, slot := None\<rparr>, Inl closed_error)
               else (case poll_net n of (s, r) \<Rightarrow> (l\<lparr>slot := s\<rparr>, r))))"

definition mark_closed :: "live \<Rightarrow> live" where
  "mark_closed l = l\<lparr>closed := True, permit := True\<rparr>"

text \<open>\<^verbatim>\<open>close\<close> and \<^verbatim>\<open>close_blocking\<close>.\<close>

definition live_close :: "live \<Rightarrow> live" where
  "live_close l = (mark_closed l)\<lparr>slot := None\<rparr>"

text \<open>\<^verbatim>\<open>is_closed\<close>: a lock that is held counts as open.\<close>

definition live_is_closed :: "bool \<Rightarrow> live \<Rightarrow> bool" where
  "live_is_closed locked l \<longleftrightarrow> closed l \<or> (\<not> locked \<and> slot l = None)"

lemmas live_defs =
  live_new_def check_open_def live_next_def mark_closed_def live_close_def live_is_closed_def

text \<open>How much a stream can still deliver: what bounds the loops that read it.\<close>

definition live_size :: "live \<Rightarrow> nat" where
  "live_size l = (case slot l of None \<Rightarrow> 0 | Some n \<Rightarrow> Suc (length n))"

lemma poll_net_size: "poll_net n = (s, Inr r) \<Longrightarrow> (case s of None \<Rightarrow> 0 | Some m \<Rightarrow> Suc (length m)) < Suc (length n)"
  by (induction n rule: poll_net.induct) auto

lemma live_next_size [termination_simp]:
  "live_next l = (l', Inr r) \<Longrightarrow> live_size l' < live_size l"
  by (auto simp: live_next_def live_size_def check_open_def dest: poll_net_size
      split: option.splits sum.splits if_splits prod.splits)

lemma live_next_open:
  "\<not> closed l \<Longrightarrow> \<not> permit l \<Longrightarrow> slot l = Some n \<Longrightarrow>
     live_next l = (l\<lparr>slot := fst (poll_net n)\<rparr>, snd (poll_net n))"
  by (simp add: live_next_def check_open_def split: prod.splits)


section \<open>Tasks interleaved\<close>

text \<open>
  A task is one call of \<^verbatim>\<open>next_chunk\<close> or of \<^verbatim>\<open>close\<close>.  A reader waits for the lock,
  checks the flag, looks at the slot and then waits in \<^verbatim>\<open>select!\<close>; a closer stores the
  flag, notifies, and then waits for the lock.
\<close>

datatype read_result = Chunk bytes | End | Failed rqx_error

datatype task =
    RLock | ROpen | RSlot | RSelect | RDone read_result
  | CMark | CNotify | CLock | CDone

record live_sys =
  shared :: live
  owner :: "nat option"
  task_of :: "nat \<Rightarrow> task"

definition goto :: "nat \<Rightarrow> task \<Rightarrow> live_sys \<Rightarrow> live_sys" where
  "goto i t s = s\<lparr>task_of := (task_of s)(i := t)\<rparr>"

text \<open>Ending a read drops the lock guard.\<close>

definition read_done :: "nat \<Rightarrow> read_result \<Rightarrow> live_sys \<Rightarrow> live_sys" where
  "read_done i r s = goto i (RDone r) (s\<lparr>owner := None\<rparr>)"

fun read_result_of :: "rqx_error + bytes option \<Rightarrow> read_result" where
  "read_result_of (Inl e) = Failed e"
| "read_result_of (Inr None) = End"
| "read_result_of (Inr (Some b)) = Chunk b"

text \<open>
  \<open>live_step net s t\<close>: one atomic step; \<open>net\<close> is true for the one step that needs the
  network to deliver something.  \<^verbatim>\<open>biased\<close> polls the signal first, so the network branch
  is taken only with no permit stored.
\<close>

inductive live_step :: "bool \<Rightarrow> live_sys \<Rightarrow> live_sys \<Rightarrow> bool" where
  r_lock: "task_of s i = RLock \<Longrightarrow> owner s = None \<Longrightarrow>
     live_step False s (goto i ROpen (s\<lparr>owner := Some i\<rparr>))"
| r_closed: "task_of s i = ROpen \<Longrightarrow> check_open (shared s) = Inl e \<Longrightarrow>
     live_step False s (read_done i (Failed e) s)"
| r_open: "task_of s i = ROpen \<Longrightarrow> check_open (shared s) = Inr () \<Longrightarrow>
     live_step False s (goto i RSlot s)"
| r_gone: "task_of s i = RSlot \<Longrightarrow> slot (shared s) = None \<Longrightarrow>
     live_step False s (read_done i (Failed closed_error) s)"
| r_slot: "task_of s i = RSlot \<Longrightarrow> slot (shared s) = Some n \<Longrightarrow>
     live_step False s (goto i RSelect s)"
| r_signal: "task_of s i = RSelect \<Longrightarrow> permit (shared s) \<Longrightarrow>
     live_step False s
       (read_done i (Failed closed_error) (s\<lparr>shared := (shared s)\<lparr>permit := False, slot := None\<rparr>\<rparr>))"
| r_net: "task_of s i = RSelect \<Longrightarrow> \<not> permit (shared s) \<Longrightarrow> slot (shared s) = Some n \<Longrightarrow>
     poll_net n = (n', r) \<Longrightarrow>
     live_step True s
       (read_done i (read_result_of r) (s\<lparr>shared := (shared s)\<lparr>slot := n'\<rparr>\<rparr>))"
| c_mark: "task_of s i = CMark \<Longrightarrow>
     live_step False s (goto i CNotify (s\<lparr>shared := (shared s)\<lparr>closed := True\<rparr>\<rparr>))"
| c_notify: "task_of s i = CNotify \<Longrightarrow>
     live_step False s (goto i CLock (s\<lparr>shared := (shared s)\<lparr>permit := True\<rparr>\<rparr>))"
| c_lock: "task_of s i = CLock \<Longrightarrow> owner s = None \<Longrightarrow>
     live_step False s (goto i CDone (s\<lparr>shared := (shared s)\<lparr>slot := None\<rparr>\<rparr>))"

text \<open>A fresh stream with every task at its first step: a reader or a closer.\<close>

definition live_init :: "net \<Rightarrow> (nat \<Rightarrow> bool) \<Rightarrow> live_sys" where
  "live_init n reader =
     \<lparr>shared = live_new n, owner = None,
      task_of = (\<lambda>i. if reader i then RLock else CMark)\<rparr>"

inductive live_reach :: "net \<Rightarrow> (nat \<Rightarrow> bool) \<Rightarrow> live_sys \<Rightarrow> bool" for n reader where
  reach_init: "live_reach n reader (live_init n reader)"
| reach_step: "live_reach n reader s \<Longrightarrow> live_step net s t \<Longrightarrow> live_reach n reader t"

fun holds_lock :: "task \<Rightarrow> bool" where
  "holds_lock ROpen = True"
| "holds_lock RSlot = True"
| "holds_lock RSelect = True"
| "holds_lock _ = False"

fun past_check :: "task \<Rightarrow> bool" where
  "past_check RSlot = True"
| "past_check RSelect = True"
| "past_check _ = False"

text \<open>
  The invariant: the lock's owner is the one task inside the critical section; a finished closer
  leaves an empty slot and the flag set; and once the flag is set, a reader past its check has a
  permit waiting or a closer about to store one, so no wake-up is lost.
\<close>

definition inv_lock :: "live_sys \<Rightarrow> bool" where
  "inv_lock s \<longleftrightarrow> (\<forall>i. holds_lock (task_of s i) \<longleftrightarrow> owner s = Some i)"

definition inv_flag :: "live_sys \<Rightarrow> bool" where
  "inv_flag s \<longleftrightarrow> (\<forall>i. task_of s i \<in> {CNotify, CLock, CDone} \<longrightarrow> closed (shared s))"

definition inv_slot :: "live_sys \<Rightarrow> bool" where
  "inv_slot s \<longleftrightarrow> (\<forall>i. (task_of s i = CDone \<longrightarrow> slot (shared s) = None) \<and>
     (task_of s i = RSelect \<longrightarrow> slot (shared s) \<noteq> None))"

definition inv_wake :: "live_sys \<Rightarrow> bool" where
  "inv_wake s \<longleftrightarrow> (\<forall>i. past_check (task_of s i) \<longrightarrow> closed (shared s) \<longrightarrow>
     permit (shared s) \<or> (\<exists>j. task_of s j = CNotify))"

lemmas live_sys_defs = goto_def read_done_def inv_lock_def inv_flag_def inv_slot_def inv_wake_def

definition live_inv :: "live_sys \<Rightarrow> bool" where
  "live_inv s \<longleftrightarrow> inv_lock s \<and> inv_flag s \<and> inv_slot s \<and> inv_wake s"

lemma live_inv_init: "live_inv (live_init n reader)"
  by (auto simp: live_inv_def live_sys_defs live_init_def live_new_def)

text \<open>One task in the critical section: any other task's step leaves the holder's lock alone.\<close>

lemma inv_lock_unique:
  "inv_lock s \<Longrightarrow> holds_lock (task_of s i) \<Longrightarrow> holds_lock (task_of s j) \<Longrightarrow> i = j"
  by (auto simp: inv_lock_def)

lemma inv_lock_free: "inv_lock s \<Longrightarrow> owner s = None \<Longrightarrow> \<not> holds_lock (task_of s i)"
  by (auto simp: inv_lock_def)

lemma past_check_holds: "past_check t \<Longrightarrow> holds_lock t"
  by (cases t) auto

lemma inv_lock_step: "live_step net s t \<Longrightarrow> inv_lock s \<Longrightarrow> inv_lock t"
  by (erule live_step.cases; simp add: inv_lock_def goto_def read_done_def; metis holds_lock.simps option.sel)

lemma inv_flag_step: "live_step net s t \<Longrightarrow> inv_flag s \<Longrightarrow> inv_flag t"
  by (erule live_step.cases; simp add: inv_flag_def goto_def read_done_def; metis)

text \<open>A step that leaves the slot alone keeps what the other tasks rely on.\<close>

lemma inv_slot_frame:
  assumes "inv_slot s" "task_of s' = (task_of s)(i := t')" "slot (shared s') = slot (shared s)"
    "t' \<noteq> CDone" "t' = RSelect \<Longrightarrow> slot (shared s) \<noteq> None"
  shows "inv_slot s'"
  using assms by (simp add: inv_slot_def)

lemma inv_slot_step: "live_step net s t \<Longrightarrow> inv_lock s \<Longrightarrow> inv_slot s \<Longrightarrow> inv_slot t"
proof (induction rule: live_step.induct)
  case (r_signal s i)
  then have "\<forall>j. task_of s j = RSelect \<longrightarrow> j = i" by (metis holds_lock.simps(3) inv_lock_unique)
  then show ?case by (auto simp: inv_slot_def goto_def read_done_def)
next
  case (r_net s i n n' r)
  then have "\<forall>j. task_of s j = RSelect \<longrightarrow> j = i" by (metis holds_lock.simps(3) inv_lock_unique)
  moreover from r_net have "\<And>j. task_of s j \<noteq> CDone" by (auto simp: inv_slot_def)
  ultimately show ?case by (auto simp: inv_slot_def goto_def read_done_def)
next
  case (c_lock s i)
  then have "\<And>j. task_of s j \<noteq> RSelect" by (metis holds_lock.simps(3) inv_lock_free)
  then show ?case by (simp add: inv_slot_def goto_def)
next
  case (r_lock s i)
  show ?case
    by (rule inv_slot_frame [where s = s and i = i and t' = ROpen])
      (use r_lock in \<open>simp_all add: goto_def read_done_def\<close>)
next
  case (r_closed s i e)
  show ?case
    by (rule inv_slot_frame [where s = s and i = i and t' = "RDone (Failed e)"])
      (use r_closed in \<open>simp_all add: goto_def read_done_def\<close>)
next
  case (r_open s i)
  show ?case
    by (rule inv_slot_frame [where s = s and i = i and t' = RSlot])
      (use r_open in \<open>simp_all add: goto_def read_done_def\<close>)
next
  case (r_gone s i)
  show ?case
    by (rule inv_slot_frame [where s = s and i = i and t' = "RDone (Failed closed_error)"])
      (use r_gone in \<open>simp_all add: goto_def read_done_def\<close>)
next
  case (r_slot s i n)
  show ?case
    by (rule inv_slot_frame [where s = s and i = i and t' = RSelect])
      (use r_slot in \<open>simp_all add: goto_def read_done_def\<close>)
next
  case (c_mark s i)
  show ?case
    by (rule inv_slot_frame [where s = s and i = i and t' = CNotify])
      (use c_mark in \<open>simp_all add: goto_def read_done_def\<close>)
next
  case (c_notify s i)
  show ?case
    by (rule inv_slot_frame [where s = s and i = i and t' = CLock])
      (use c_notify in \<open>simp_all add: goto_def read_done_def\<close>)
qed

lemma inv_wakeI:
  assumes "\<And>i. past_check (task_of s i) \<Longrightarrow> closed (shared s) \<Longrightarrow> \<not> permit (shared s) \<Longrightarrow>
    \<exists>j. task_of s j = CNotify"
  shows "inv_wake s"
  using assms unfolding inv_wake_def by blast

lemma inv_wake_none: "(\<And>j. \<not> past_check (task_of s j)) \<Longrightarrow> inv_wake s"
  by (auto simp: inv_wake_def)

text \<open>A task other than a notifier moves and \<open>closed\<close>, \<open>permit\<close> stay as they were.\<close>

lemma inv_wake_frame:
  assumes "inv_wake s" "task_of s i \<noteq> CNotify" "past_check t' \<Longrightarrow> past_check (task_of s i)"
    "task_of s' = (task_of s)(i := t')"
    "closed (shared s') = closed (shared s)" "permit (shared s') = permit (shared s)"
  shows "inv_wake s'"
proof (rule inv_wakeI)
  fix k
  assume "past_check (task_of s' k)" "closed (shared s')" "\<not> permit (shared s')"
  with assms have "\<exists>j. task_of s j = CNotify"
    by (auto simp: inv_wake_def split: if_splits)
  with assms(2,4) show "\<exists>j. task_of s' j = CNotify" by (metis fun_upd_other)
qed

lemma inv_wake_step: "live_step net s t \<Longrightarrow> inv_lock s \<Longrightarrow> inv_wake s \<Longrightarrow> inv_wake t"
proof (induction rule: live_step.induct)
  case (r_lock s i)
  show ?case
    by (rule inv_wake_frame [where s = s and i = i and t' = "ROpen"])
      (use r_lock in \<open>simp_all add: goto_def read_done_def\<close>)
next
  case (r_closed s i e)
  show ?case
    by (rule inv_wake_frame [where s = s and i = i and t' = "RDone (Failed e)"])
      (use r_closed in \<open>simp_all add: goto_def read_done_def\<close>)
next
  case (r_open s i)
  then have "\<not> closed (shared s)" by (simp add: check_open_def split: if_splits)
  then show ?case by (auto simp: goto_def intro: inv_wakeI)
next
  case (r_gone s i)
  show ?case
    by (rule inv_wake_frame [where s = s and i = i and t' = "RDone (Failed closed_error)"])
      (use r_gone in \<open>simp_all add: goto_def read_done_def\<close>)
next
  case (r_slot s i n)
  show ?case
    by (rule inv_wake_frame [where s = s and i = i and t' = "RSelect"])
      (use r_slot in \<open>simp_all add: goto_def read_done_def\<close>)
next
  case (r_signal s i)
  then have "past_check (task_of s j) \<Longrightarrow> j = i" for j
    by (metis holds_lock.simps(3) inv_lock_unique past_check_holds)
  then show ?case by (intro inv_wake_none) (auto simp: goto_def read_done_def)
next
  case (r_net s i n n' r)
  show ?case
    by (rule inv_wake_frame [where s = s and i = i and t' = "RDone (read_result_of r)"])
      (use r_net in \<open>simp_all add: goto_def read_done_def\<close>)
next
  case (c_mark s i)
  then show ?case by (intro inv_wakeI) (auto simp: goto_def)
next
  case (c_notify s i)
  then show ?case by (intro inv_wakeI) (auto simp: goto_def)
next
  case (c_lock s i)
  then have "\<not> past_check (task_of s j)" for j
    by (metis inv_lock_free past_check_holds)
  then show ?case by (intro inv_wake_none) (auto simp: goto_def)
qed

lemma live_inv_step: "live_step net s t \<Longrightarrow> live_inv s \<Longrightarrow> live_inv t"
  unfolding live_inv_def
  by (blast intro: inv_lock_step inv_flag_step inv_slot_step inv_wake_step)

lemma live_reach_inv: "live_reach n reader s \<Longrightarrow> live_inv s"
  by (induction rule: live_reach.induct) (auto intro: live_inv_init live_inv_step)

inductive_simps net_step: "live_step True s t"

text \<open>C4. Once a close has returned, no read delivers anything: in every state any
  interleaving of readers and closers can reach, a finished close means that no step can take a
  chunk, an end or an error off the network.\<close>

theorem closed_stream_is_silent:
  assumes "live_reach n reader s" and "task_of s i = CDone"
  shows "\<not> live_step True s t"
proof -
  from assms(1) have "live_inv s" by (rule live_reach_inv)
  with assms(2) have "slot (shared s) = None" by (auto simp: live_inv_def inv_slot_def)
  then show ?thesis by (auto simp: net_step)
qed

text \<open>
  Every step is one task's, and brings that task nearer to its end: a read takes at most four steps, a
  close three.
\<close>

fun steps_to_end :: "task \<Rightarrow> nat" where
  "steps_to_end RLock = 4"
| "steps_to_end ROpen = 3"
| "steps_to_end RSlot = 2"
| "steps_to_end RSelect = 1"
| "steps_to_end (RDone r) = 0"
| "steps_to_end CMark = 3"
| "steps_to_end CNotify = 2"
| "steps_to_end CLock = 1"
| "steps_to_end CDone = 0"

lemma steps_to_end_le: "steps_to_end t \<le> 4"
  by (cases t) auto

fun is_close :: "task \<Rightarrow> bool" where
  "is_close CMark = True" | "is_close CNotify = True" | "is_close CLock = True" | "is_close CDone = True"
| "is_close _ = False"

lemma goto_task: "task_of s' = task_of s \<Longrightarrow> task_of (goto i a s') = (task_of s)(i := a)"
  by (simp add: goto_def)

lemma live_step_task:
  "live_step net s t \<Longrightarrow> \<exists>i a. task_of t = (task_of s)(i := a) \<and> steps_to_end a < steps_to_end (task_of s i) \<and>
     is_close a = is_close (task_of s i)"
proof (induction rule: live_step.induct)
qed (unfold read_done_def, (intro exI conjI, rule goto_task, simp, simp, simp)+)

text \<open>A step of one of the calls \<open>A\<close>; the others stand still.\<close>

definition step_of :: "nat set \<Rightarrow> bool \<Rightarrow> live_sys \<Rightarrow> live_sys \<Rightarrow> bool" where
  "step_of A net s t \<longleftrightarrow> live_step net s t \<and> (\<forall>j. j \<notin> A \<longrightarrow> task_of t j = task_of s j)"

definition any_step_of :: "nat set \<Rightarrow> live_sys \<Rightarrow> live_sys \<Rightarrow> bool" where
  "any_step_of A s t \<longleftrightarrow> (\<exists>net. step_of A net s t)"

definition steps_left :: "nat set \<Rightarrow> live_sys \<Rightarrow> nat" where
  "steps_left A s = (\<Sum>i \<in> A. steps_to_end (task_of s i))"

lemma any_step_of_left:
  assumes "finite A" "any_step_of A s t"
  shows "steps_left A t < steps_left A s" "is_close (task_of t j) = is_close (task_of s j)"
proof -
  obtain net where st: "live_step net s t" "\<forall>j. j \<notin> A \<longrightarrow> task_of t j = task_of s j"
    using assms(2) by (auto simp: any_step_of_def step_of_def)
  obtain i a where a: "task_of t = (task_of s)(i := a)" "steps_to_end a < steps_to_end (task_of s i)"
    "is_close a = is_close (task_of s i)" using live_step_task [OF st(1)] by blast
  from a(1,2) st(2) have "i \<in> A" by (metis fun_upd_same less_irrefl)
  then show "steps_left A t < steps_left A s"
    unfolding steps_left_def a(1) using assms(1) a(2) by (intro sum_strict_mono_ex1) auto
  show "is_close (task_of t j) = is_close (task_of s j)" using a(1,3) by simp
qed

lemma run_of_left:
  assumes "finite A"
  shows "(any_step_of A ^^ n) s t \<Longrightarrow> n + steps_left A t \<le> steps_left A s \<and>
    (live_reach m reader s \<longrightarrow> live_reach m reader t) \<and> (\<forall>j. is_close (task_of t j) = is_close (task_of s j)) \<and>
    (\<forall>j. j \<notin> A \<longrightarrow> task_of t j = task_of s j)"
proof (induction n arbitrary: t)
  case (Suc n)
  then obtain u where u: "(any_step_of A ^^ n) s u" "any_step_of A u t" by auto
  moreover have "live_reach m reader u \<longrightarrow> live_reach m reader t" "\<forall>j. j \<notin> A \<longrightarrow> task_of t j = task_of u j"
    using u(2) reach_step by (auto simp: any_step_of_def step_of_def)
  ultimately show ?case using Suc.IH [OF u(1)] any_step_of_left [OF assms u(2)] by auto
qed simp

text \<open>As long as a close is not over, some call that has begun can go on without the network.\<close>

lemma quiet_step:
  assumes "live_inv s" "is_close (task_of s i)" "task_of s i \<noteq> CDone"
  shows "\<exists>j a t. live_step False s t \<and> task_of t = (task_of s)(j := a) \<and> (j = i \<or> task_of s j \<notin> {RLock, CMark})"
proof -
  have moved: ?thesis if "live_step False s (goto j a s')" "task_of s' = task_of s" "j = i \<or> task_of s j \<notin> {RLock, CMark}"
    for j a s' using that by (intro exI [of _ j] exI [of _ a]) (auto simp: goto_def)
  from assms(2,3) consider "task_of s i = CMark" | "task_of s i = CNotify" | "task_of s i = CLock"
    by (cases "task_of s i") auto
  then show ?thesis
  proof cases
    case 1
    from moved [OF c_mark [OF 1]] show ?thesis by simp
  next
    case 2
    from moved [OF c_notify [OF 2]] show ?thesis by simp
  next
    case 3
    show ?thesis
    proof (cases "owner s")
      case None
      from moved [OF c_lock [OF 3 None]] show ?thesis by simp
    next
      case (Some j)
      then have "holds_lock (task_of s j)" using assms(1) by (simp add: live_inv_def inv_lock_def)
      then consider "task_of s j = ROpen" | "task_of s j = RSlot" | "task_of s j = RSelect"
        by (cases "task_of s j") auto
      then show ?thesis
      proof cases
        case 1
        then show ?thesis
          using moved [OF r_open [OF 1]] moved [OF r_closed [OF 1, unfolded read_done_def]]
          by (cases "closed (shared s)") (simp_all add: check_open_def)
      next
        case 2
        then show ?thesis
          using moved [OF r_slot [OF 2]] moved [OF r_gone [OF 2, unfolded read_done_def]]
          by (cases "slot (shared s)") simp_all
      next
        case select: 3
        have "closed (shared s)" using assms(1) 3 by (auto simp: live_inv_def inv_flag_def)
        moreover have "past_check (task_of s j)" by (simp add: select)
        ultimately consider "permit (shared s)" | k where "task_of s k = CNotify"
          using assms(1) unfolding live_inv_def inv_wake_def by blast
        then show ?thesis
        proof cases
          case 1
          from moved [OF r_signal [OF select 1, unfolded read_done_def]] select show ?thesis by simp
        next
          case 2
          from moved [OF c_notify [OF 2]] 2 show ?thesis by simp
        qed
      qed
    qed
  qed
qed

text \<open>C5. A close always completes, and never waits for the network.  Let \<open>A\<close> be the calls that have begun, or
  ever will, and one of them a close.  However the scheduler orders their steps, with the network delivering or
  not, they come to rest within four steps per call; and when none can go on without the network, the close is
  over, even while a reader was parked on the network holding the lock.\<close>

theorem close_completes:
  assumes "live_reach n reader s" and "finite A" and "\<forall>j. j \<notin> A \<longrightarrow> task_of s j \<in> {RLock, CMark}"
    and "i \<in> A" and "is_close (task_of s i)" and "(any_step_of A ^^ m) s t"
  shows "m \<le> 4 * card A \<and> ((\<forall>u. \<not> step_of A False t u) \<longrightarrow> task_of t i = CDone)"
proof
  note run = run_of_left [OF assms(2,6), of n reader]
  have "steps_left A s \<le> (\<Sum>i \<in> A. 4)" unfolding steps_left_def by (intro sum_mono steps_to_end_le)
  with run show "m \<le> 4 * card A" by simp
  show "(\<forall>u. \<not> step_of A False t u) \<longrightarrow> task_of t i = CDone"
  proof (rule impI, rule ccontr)
    assume stuck: "\<forall>u. \<not> step_of A False t u" and "task_of t i \<noteq> CDone"
    moreover have "live_inv t" "is_close (task_of t i)" using run assms(1,5) live_reach_inv by auto
    ultimately obtain j a u where u: "live_step False t u" "task_of u = (task_of t)(j := a)"
      "j = i \<or> task_of t j \<notin> {RLock, CMark}" using quiet_step by blast
    with run assms(3,4) have "j \<in> A" by fastforce
    with u(2) have "\<forall>k. k \<notin> A \<longrightarrow> task_of u k = task_of t k" by (metis fun_upd_other)
    with u(1) stuck show False unfolding step_of_def by blast
  qed
qed

text \<open>Both hypotheses hold with a reader parked on the network while a close waits.\<close>

definition parked :: "net \<Rightarrow> live_sys" where
  "parked n = \<lparr>shared = \<lparr>slot = Some n, closed = True, permit = True\<rparr>, owner = Some 1,
     task_of = (\<lambda>i. if i = 1 then RSelect else if i = 0 then CLock else CMark)\<rparr>"

lemma parked_reachable: "live_reach n (\<lambda>i. i = 1) (parked n)"
proof -
  define s0 where "s0 = live_init n (\<lambda>i. i = 1)"
  define s1 where "s1 = goto 1 ROpen (s0\<lparr>owner := Some 1\<rparr>)"
  define s2 where "s2 = goto 1 RSlot s1"
  define s3 where "s3 = goto 1 RSelect s2"
  define s4 where "s4 = goto 0 CNotify (s3\<lparr>shared := (shared s3)\<lparr>closed := True\<rparr>\<rparr>)"
  define s5 where "s5 = goto 0 CLock (s4\<lparr>shared := (shared s4)\<lparr>permit := True\<rparr>\<rparr>)"
  note defs = s0_def s1_def s2_def s3_def s4_def s5_def live_init_def live_new_def goto_def
    check_open_def
  have "live_step False s0 s1" unfolding s1_def by (rule live_step.r_lock) (simp_all add: defs)
  moreover have "live_step False s1 s2" unfolding s2_def
    by (rule live_step.r_open) (simp_all add: defs)
  moreover have "live_step False s2 s3" unfolding s3_def
    by (rule live_step.r_slot [where n = n]) (simp_all add: defs)
  moreover have "live_step False s3 s4" unfolding s4_def
    by (rule live_step.c_mark) (simp_all add: defs)
  moreover have "live_step False s4 s5" unfolding s5_def
    by (rule live_step.c_notify) (simp_all add: defs)
  ultimately have "live_reach n (\<lambda>i. i = 1) s5"
    unfolding s0_def by (meson live_reach.intros)
  moreover have "s5 = parked n" by (auto simp: defs parked_def fun_eq_iff)
  ultimately show ?thesis by simp
qed

text \<open>
  There the close is over after the reader has given up and the closer has taken the lock, and then nothing is left.
\<close>

definition unparked :: "net \<Rightarrow> live_sys" where
  "unparked n = goto 0 CDone
     (read_done 1 (Failed closed_error)
       ((parked n)\<lparr>shared := \<lparr>slot = None, closed = True, permit = False\<rparr>\<rparr>))"

lemma parked_run: "(any_step_of {0, 1} ^^ 2) (parked n) (unparked n)"
proof -
  define s1 where "s1 = read_done 1 (Failed closed_error)
    ((parked n)\<lparr>shared := (shared (parked n))\<lparr>permit := False, slot := None\<rparr>\<rparr>)"
  have "live_step False (parked n) s1" unfolding s1_def
    by (rule live_step.r_signal) (simp_all add: parked_def)
  then have "any_step_of {0, 1} (parked n) s1"
    by (auto simp: any_step_of_def step_of_def s1_def read_done_def goto_def)
  moreover have "live_step False s1 (goto 0 CDone (s1\<lparr>shared := (shared s1)\<lparr>slot := None\<rparr>\<rparr>))"
    by (rule live_step.c_lock) (simp_all add: s1_def parked_def goto_def read_done_def)
  then have "any_step_of {0, 1} s1 (unparked n)"
    by (auto simp: any_step_of_def step_of_def unparked_def s1_def read_done_def goto_def parked_def)
  ultimately show ?thesis by (auto simp: numeral_2_eq_2)
qed

theorem close_completes_witness:
  "(any_step_of {0, 1} ^^ 2) (parked [Data [7]]) (unparked [Data [7]]) \<and> 2 \<le> 4 * card {0, 1 :: nat} \<and>
   task_of (unparked [Data [7]]) 0 = CDone"
proof -
  have "\<not> step_of {0, 1} False (unparked [Data [7]]) u" for u
  proof
    assume step: "step_of {0, 1} False (unparked [Data [7]]) u"
    then obtain i a where i: "task_of u = (task_of (unparked [Data [7]]))(i := a)"
      "steps_to_end a < steps_to_end (task_of (unparked [Data [7]]) i)"
      using live_step_task unfolding step_of_def by blast
    with step have "i \<in> {0, 1}" unfolding step_of_def by (metis fun_upd_same less_irrefl)
    with i(2) show False by (auto simp: unparked_def parked_def goto_def read_done_def)
  qed
  moreover note close_completes [OF parked_reachable, of "{0, 1}" "[Data [7]]" 0, OF _ _ _ _ parked_run]
  ultimately show ?thesis using parked_run by (simp add: parked_def)
qed

theorem closed_stream_is_silent_witness:
  "\<exists>s. live_reach [] (\<lambda>i. i = 1) s \<and> task_of s 0 = CDone \<and> (\<forall>t. \<not> live_step True s t)"
proof -
  define s1 where "s1 = read_done 1 (Failed closed_error)
    ((parked [])\<lparr>shared := (shared (parked []))\<lparr>permit := False, slot := None\<rparr>\<rparr>)"
  define s2 where "s2 = goto 0 CDone (s1\<lparr>shared := (shared s1)\<lparr>slot := None\<rparr>\<rparr>)"
  have "live_step False (parked []) s1" unfolding s1_def
    by (rule live_step.r_signal) (simp_all add: parked_def)
  moreover have "live_step False s1 s2" unfolding s2_def
    by (rule live_step.c_lock) (simp_all add: s1_def parked_def goto_def read_done_def)
  ultimately have "live_reach [] (\<lambda>i. i = 1) s2"
    using parked_reachable by (meson live_reach.intros)
  moreover have cdone: "task_of s2 0 = CDone" by (simp add: s2_def goto_def)
  ultimately show ?thesis using closed_stream_is_silent by blast
qed

section \<open>Who gets what\<close>

text \<open>The results a stream has to give, and a run with the log of those it gave, in order, each with its read.\<close>

fun net_results :: "net \<Rightarrow> read_result list" where
  "net_results [] = [End]"
| "net_results (Data b # n) = Chunk b # net_results n"
| "net_results (Fail e # n) = [Failed (from_reqwest e)]"

lemma poll_net_results:
  "poll_net n = (n', r) \<Longrightarrow> net_results n = read_result_of r # (case n' of None \<Rightarrow> [] | Some m \<Rightarrow> net_results m)"
  by (induction n rule: poll_net.induct) auto

inductive live_log :: "net \<Rightarrow> (nat \<Rightarrow> bool) \<Rightarrow> (nat \<times> read_result) list \<Rightarrow> live_sys \<Rightarrow> bool" for n reader where
  log_init: "live_log n reader [] (live_init n reader)"
| log_quiet: "live_log n reader log s \<Longrightarrow> live_step False s t \<Longrightarrow> live_log n reader log t"
| log_net: "live_log n reader log s \<Longrightarrow> live_step True s t \<Longrightarrow> task_of s i = RSelect \<Longrightarrow> task_of t i = RDone r \<Longrightarrow>
     live_log n reader (log @ [(i, r)]) t"

lemma live_log_reach: "live_log n reader log s \<Longrightarrow> live_reach n reader s"
  by (induction rule: live_log.induct) (auto intro: live_reach.intros)

definition given_so_far :: "net \<Rightarrow> (nat \<times> read_result) list \<Rightarrow> live_sys \<Rightarrow> bool" where
  "given_so_far n log s \<longleftrightarrow>
     (\<exists>rest. map snd log @ rest = net_results n \<and>
        (case slot (shared s) of Some m \<Rightarrow> rest = net_results m | None \<Rightarrow> rest = [] \<or> closed (shared s)))"

definition logged_reads :: "(nat \<times> read_result) list \<Rightarrow> live_sys \<Rightarrow> bool" where
  "logged_reads log s \<longleftrightarrow> distinct (map fst log) \<and>
     (\<forall>i r. (i, r) \<in> set log \<longrightarrow> task_of s i = RDone r) \<and>
     (\<forall>i r. task_of s i = RDone r \<longrightarrow> (i, r) \<in> set log \<or>
        r = Failed closed_error \<and> (closed (shared s) \<or> slot (shared s) = None))"

definition log_inv :: "net \<Rightarrow> (nat \<times> read_result) list \<Rightarrow> live_sys \<Rightarrow> bool" where
  "log_inv n log s \<longleftrightarrow> given_so_far n log s \<and> logged_reads log s \<and> (permit (shared s) \<longrightarrow> closed (shared s))"

lemma logged_reads_move:
  assumes "logged_reads log s" "task_of t = (task_of s)(i := a)" "\<forall>r. task_of s i \<noteq> RDone r"
    and "\<forall>r. a = RDone r \<longrightarrow> r = Failed closed_error \<and> (closed (shared t) \<or> slot (shared t) = None)"
    and "closed (shared s) \<or> slot (shared s) = None \<longrightarrow> closed (shared t) \<or> slot (shared t) = None"
  shows "logged_reads log t"
  using assms unfolding logged_reads_def by (metis fun_upd_apply)

lemma log_inv_quiet:
  assumes "live_step False s t" "log_inv n log s" "live_inv s"
  shows "log_inv n log t"
proof -
  have flag: "closed (shared s)" if "permit (shared s) \<or> task_of s i \<in> {CNotify, CLock, CDone}" for i
    using assms(2,3) that by (auto simp: log_inv_def live_inv_def inv_flag_def)
  have given: "given_so_far n log t"
    using assms(1,2) by cases (auto simp: log_inv_def given_so_far_def goto_def read_done_def
      intro: flag split: option.splits)
  have reads: "logged_reads log s" using assms(2) by (simp add: log_inv_def)
  have "logged_reads log t"
    using assms(1)
    by cases (rule logged_reads_move [OF reads], simp add: goto_def read_done_def,
      auto simp: goto_def read_done_def check_open_def intro: flag split: if_splits)+
  moreover have "permit (shared t) \<longrightarrow> closed (shared t)"
    using assms(1) by cases (use flag in \<open>auto simp: goto_def read_done_def\<close>)
  ultimately show ?thesis using given by (simp add: log_inv_def)
qed

lemma log_inv_net:
  assumes "live_step True s t" "task_of s i = RSelect" "task_of t i = RDone r" "log_inv n log s" "live_inv s"
  shows "log_inv n (log @ [(i, r)]) t"
proof -
  from assms(1) obtain j m m' x where j: "task_of s j = RSelect" "\<not> permit (shared s)" "slot (shared s) = Some m"
    "poll_net m = (m', x)" and t: "t = read_done j (read_result_of x) (s\<lparr>shared := (shared s)\<lparr>slot := m'\<rparr>\<rparr>)"
    by (auto simp: net_step)
  from assms(2,5) j(1) have "j = i" by (metis holds_lock.simps(3) inv_lock_unique live_inv_def)
  with t assms(3) have r: "r = read_result_of x" by (simp add: read_done_def goto_def)
  have task: "task_of t = (task_of s)(i := RDone r)" "shared t = (shared s)\<lparr>slot := m'\<rparr>"
    by (simp_all add: t \<open>j = i\<close> r read_done_def goto_def)
  have "given_so_far n (log @ [(i, r)]) t"
    using assms(4) j(3) poll_net_results [OF j(4)]
    by (auto simp: log_inv_def given_so_far_def task(2) r split: option.splits)
  moreover have "i \<notin> fst ` set log" using assms(2,4) by (force simp: log_inv_def logged_reads_def)
  then have "logged_reads (log @ [(i, r)]) t"
    using assms(4) j(3) unfolding log_inv_def logged_reads_def task by (auto simp: image_iff)
  ultimately show ?thesis using assms(4) by (simp add: log_inv_def task(2))
qed

lemma live_log_inv: "live_log n reader log s \<Longrightarrow> log_inv n log s"
proof (induction rule: live_log.induct)
  case log_init
  show ?case by (auto simp: log_inv_def given_so_far_def logged_reads_def live_init_def live_new_def split: if_splits)
next
  case (log_quiet log s t)
  then show ?case by (metis log_inv_quiet live_log_reach live_reach_inv)
next
  case (log_net log s t i r)
  then show ?case by (metis log_inv_net live_log_reach live_reach_inv)
qed

text \<open>C6. Concurrent reads share the body out.  Whatever the order in which reads and closes run, what the
  reads were given, in the order they were given it, is the body from its start: no chunk is lost, repeated or
  out of order, the end or an error comes last, and every read that returned got one item, its own.  The only
  other thing a read returns is that the response is closed: and if no close was called, only after all of the body
  has been given out.\<close>

theorem reads_share_the_body:
  assumes "live_log n reader log s"
  shows "(\<exists>rest. map snd log @ rest = net_results n \<and>
      (rest \<noteq> [] \<and> \<not> closed (shared s) \<longrightarrow> (\<forall>i r. task_of s i = RDone r \<longrightarrow> (i, r) \<in> set log))) \<and>
    distinct (map fst log) \<and> (\<forall>i r. (i, r) \<in> set log \<longrightarrow> task_of s i = RDone r) \<and>
    (\<forall>i r. task_of s i = RDone r \<longrightarrow> (i, r) \<in> set log \<or> r = Failed closed_error)"
proof -
  have inv: "given_so_far n log s" "logged_reads log s" using live_log_inv [OF assms] by (simp_all add: log_inv_def)
  from inv(1) obtain rest where rest: "map snd log @ rest = net_results n"
    "rest \<noteq> [] \<and> \<not> closed (shared s) \<longrightarrow> slot (shared s) \<noteq> None"
    by (auto simp: given_so_far_def split: option.splits)
  note reads = inv(2) [unfolded logged_reads_def]
  have got: "(i, r) \<in> set log" if "slot (shared s) \<noteq> None" "\<not> closed (shared s)" "task_of s i = RDone r" for i r
    using reads [THEN conjunct2, THEN conjunct2, rule_format, OF that(3)] that(1,2) by simp
  have "\<exists>rest. map snd log @ rest = net_results n \<and>
      (rest \<noteq> [] \<and> \<not> closed (shared s) \<longrightarrow> (\<forall>i r. task_of s i = RDone r \<longrightarrow> (i, r) \<in> set log))"
    using rest(1) rest(2) [THEN mp] got by (intro exI [of _ rest] conjI impI allI) blast+
  moreover have "\<forall>i r. task_of s i = RDone r \<longrightarrow> (i, r) \<in> set log \<or> r = Failed closed_error"
    using reads [THEN conjunct2, THEN conjunct2] by blast
  ultimately show ?thesis
    by (intro conjI reads [THEN conjunct1] reads [THEN conjunct2, THEN conjunct1])
qed

text \<open>Two reads of a body of two chunks, the second overtaking the first on the lock.\<close>

definition read_by :: "nat \<Rightarrow> net \<Rightarrow> live_sys \<Rightarrow> live_sys" where
  "read_by i n s =
     read_done i (read_result_of (snd (poll_net n))) (s\<lparr>shared := (shared s)\<lparr>slot := fst (poll_net n)\<rparr>\<rparr>)"

lemma live_log_read:
  assumes "live_log m reader log s" "task_of s i = RLock" "owner s = None" "\<not> closed (shared s)"
    "\<not> permit (shared s)" "slot (shared s) = Some n"
  shows "live_log m reader (log @ [(i, read_result_of (snd (poll_net n)))]) (read_by i n s)"
proof -
  define s1 where "s1 = goto i ROpen (s\<lparr>owner := Some i\<rparr>)"
  define s2 where "s2 = goto i RSlot s1"
  define s3 where "s3 = goto i RSelect s2"
  note defs = s1_def s2_def s3_def goto_def
  have "live_step False s s1" unfolding s1_def by (rule r_lock) (use assms in \<open>simp_all add: defs\<close>)
  moreover have "live_step False s1 s2" unfolding s2_def
    by (rule r_open) (use assms in \<open>simp_all add: defs check_open_def\<close>)
  moreover have "live_step False s2 s3" unfolding s3_def
    by (rule r_slot [where n = n]) (use assms in \<open>simp_all add: defs\<close>)
  ultimately have "live_log m reader log s3" using assms(1) by (blast intro: log_quiet)
  moreover have "live_step True s3 (read_done i (read_result_of (snd (poll_net n)))
      (s3\<lparr>shared := (shared s3)\<lparr>slot := fst (poll_net n)\<rparr>\<rparr>))"
    by (rule r_net [where n = n]) (use assms in \<open>simp_all add: defs\<close>)
  moreover have "read_done i (read_result_of (snd (poll_net n)))
      (s3\<lparr>shared := (shared s3)\<lparr>slot := fst (poll_net n)\<rparr>\<rparr>) = read_by i n s"
    by (simp add: read_by_def read_done_def defs)
  ultimately show ?thesis
    by (auto intro!: log_net simp: read_by_def read_done_def defs)
qed

theorem reads_share_the_body_witness:
  "\<exists>s. live_log [Data [1], Data [2]] (\<lambda>_. True) [(1, Chunk [1]), (0, Chunk [2])] s \<and>
     task_of s 1 = RDone (Chunk [1]) \<and> task_of s 0 = RDone (Chunk [2])"
proof -
  define s0 where "s0 = live_init [Data [1], Data [2]] (\<lambda>_. True)"
  define s1 where "s1 = read_by 1 [Data [1], Data [2]] s0"
  define s2 where "s2 = read_by 0 [Data [2]] s1"
  note defs = s0_def s1_def s2_def live_init_def live_new_def read_by_def read_done_def goto_def
  have init: "live_log [Data [1], Data [2]] (\<lambda>_. True) [] s0" unfolding s0_def by (rule log_init)
  have first: "live_log [Data [1], Data [2]] (\<lambda>_. True) [(1, Chunk [1])] s1"
    using live_log_read [OF init, where i = 1 and n = "[Data [1], Data [2]]"] unfolding s1_def
    by (simp add: s0_def live_init_def live_new_def)
  have at: "task_of s1 0 = RLock" "owner s1 = None" "\<not> closed (shared s1)" "\<not> permit (shared s1)"
    "slot (shared s1) = Some [Data [2]]" by (simp_all add: defs)
  from live_log_read [OF first at] have
    run: "live_log [Data [1], Data [2]] (\<lambda>_. True) [(1, Chunk [1]), (0, Chunk [2])] s2" by (simp add: s2_def)
  with reads_share_the_body [OF run] show ?thesis by auto
qed

definition any_step :: "live_sys \<Rightarrow> live_sys \<Rightarrow> bool" where
  "any_step s t \<longleftrightarrow> (\<exists>net. live_step net s t)"

lemma any_stepI: "live_step net s t \<Longrightarrow> any_step s t"
  by (auto simp: any_step_def)

text \<open>What the rest of a read does once it holds the lock and has found the stream open.\<close>

lemma read_from_slot:
  assumes "task_of s i = RSlot" "\<not> closed (shared s)"
  shows "any_step\<^sup>*\<^sup>* s
    (read_done i (read_result_of (snd (live_next (shared s))))
       (s\<lparr>shared := fst (live_next (shared s))\<rparr>))"
proof (cases "slot (shared s)")
  case None
  with assms(1) have "any_step s (read_done i (Failed closed_error) s)"
    by (intro any_stepI [OF live_step.r_gone])
  with None assms(2) show ?thesis by (auto simp: live_next_def check_open_def)
next
  case (Some n)
  define s' where "s' = goto i RSelect s"
  have first: "any_step s s'"
    unfolding s'_def using assms(1) Some by (intro any_stepI [OF live_step.r_slot])
  have at: "task_of s' i = RSelect" "shared s' = shared s" by (simp_all add: s'_def goto_def)
  have same: "read_done i r (s'\<lparr>shared := l\<rparr>) = read_done i r (s\<lparr>shared := l\<rparr>)" for r l
    by (simp add: s'_def goto_def read_done_def)
  have "any_step s' (read_done i (read_result_of (snd (live_next (shared s))))
       (s'\<lparr>shared := fst (live_next (shared s))\<rparr>))"
  proof (cases "permit (shared s)")
    case True
    with at have "any_step s' (read_done i (Failed closed_error)
        (s'\<lparr>shared := (shared s')\<lparr>permit := False, slot := None\<rparr>\<rparr>))"
      by (intro any_stepI [OF live_step.r_signal]) simp_all
    with True Some assms(2) at show ?thesis by (simp add: live_next_def check_open_def)
  next
    case False
    with at Some have "any_step s' (read_done i (read_result_of (snd (poll_net n)))
        (s'\<lparr>shared := (shared s')\<lparr>slot := fst (poll_net n)\<rparr>\<rparr>))"
      by (intro any_stepI [OF live_step.r_net [where n = n]]) simp_all
    with False Some assms(2) at show ?thesis by (simp add: live_next_open)
  qed
  with first same show ?thesis by (simp add: converse_rtranclp_into_rtranclp)
qed

text \<open>The atomic \<open>live_next\<close> is a run of the interleaved steps: a reader that finds
  the lock free and is not interrupted leaves the state and the result \<open>live_next\<close> gives.\<close>

theorem live_next_refines_steps:
  assumes "task_of s i = RLock" and "owner s = None"
  shows "any_step\<^sup>*\<^sup>* s
    (read_done i (read_result_of (snd (live_next (shared s))))
       (s\<lparr>shared := fst (live_next (shared s))\<rparr>))"
proof -
  define s1 where "s1 = goto i ROpen (s\<lparr>owner := Some i\<rparr>)"
  have lock: "any_step s s1"
    unfolding s1_def using assms by (intro any_stepI [OF live_step.r_lock])
  have at: "task_of s1 i = ROpen" "shared s1 = shared s" by (simp_all add: s1_def goto_def)
  have "any_step\<^sup>*\<^sup>* s1
    (read_done i (read_result_of (snd (live_next (shared s))))
       (s\<lparr>shared := fst (live_next (shared s))\<rparr>))"
  proof (cases "closed (shared s)")
    case True
    with at have "any_step s1 (read_done i (Failed closed_error) s1)"
      by (intro any_stepI [OF live_step.r_closed]) (simp_all add: check_open_def)
    with True show ?thesis
      by (auto simp: live_next_def check_open_def s1_def goto_def read_done_def)
  next
    case False
    define s2 where "s2 = goto i RSlot s1"
    have "any_step s1 s2"
      unfolding s2_def using at False by (intro any_stepI [OF live_step.r_open]) (simp_all add: check_open_def)
    moreover have "any_step\<^sup>*\<^sup>* s2
      (read_done i (read_result_of (snd (live_next (shared s2))))
         (s2\<lparr>shared := fst (live_next (shared s2))\<rparr>))"
      using False at by (intro read_from_slot) (simp_all add: s2_def goto_def)
    ultimately show ?thesis
      by (simp add: s2_def s1_def goto_def read_done_def converse_rtranclp_into_rtranclp)
  qed
  with lock show ?thesis by (rule converse_rtranclp_into_rtranclp)
qed

theorem live_next_refines_steps_witness:
  "any_step\<^sup>*\<^sup>* (live_init [Data [1]] (\<lambda>i. True))
     (read_done 0 (Chunk [1]) ((live_init [Data [1]] (\<lambda>i. True))
        \<lparr>shared := \<lparr>slot = Some [], closed = False, permit = False\<rparr>\<rparr>))"
  using live_next_refines_steps [of "live_init [Data [1]] (\<lambda>i. True)" 0]
  by (simp add: live_init_def live_new_def live_next_def check_open_def)

end
