(* ===== verification/Rqx_Iter.thy ===== *)
theory Rqx_Iter
  imports Rqx_Live Rqx_Chunking Rqx_Lines
begin

text \<open>
  The body iterators of \<^verbatim>\<open>rqx/src/stream.rs\<close>: bytes, text and lines, each in a sync
  class (\<^verbatim>\<open>__next__\<close>) and an async one (\<^verbatim>\<open>__anext__\<close>).  The six loops have one
  shape, \<open>iter_next\<close>, over what the iterator pops, feeds and flushes; the sync classes end
  with \<^verbatim>\<open>None\<close> and the async ones with \<^verbatim>\<open>StopAsyncIteration\<close>, which is \<open>None\<close>
  here for both.

  The \<^verbatim>\<open>encoding_rs\<close> decoder is not part of the repository: it is the argument \<open>dec\<close>,
  a state and the function that \<^verbatim>\<open>TextDecoder::decode\<close> wraps.
\<close>

record 'd decoder =
  dec_new :: 'd
  dec_step :: "'d \<Rightarrow> bytes \<Rightarrow> bool \<Rightarrow> ustr \<times> 'd"

record ('it, 'p) iter_ops =
  it_finished :: "'it \<Rightarrow> bool"
  it_pop :: "'it \<Rightarrow> ('p option \<times> 'it) option"
  it_flush :: "'it \<Rightarrow> ('p option \<times> 'it) option"
  it_data :: "bytes \<Rightarrow> 'it \<Rightarrow> 'it option"
  it_end :: "'it \<Rightarrow> 'it option"

text \<open>
  The loop.  The outer \<open>option\<close> is a panic; the result is an error, the end
  (\<open>Inr None\<close>) or a piece.  Each round that does not return reads the stream, so what the
  stream can still deliver bounds the loop.
\<close>

function iter_next ::
  "('it, 'p) iter_ops \<Rightarrow> live \<Rightarrow> 'it \<Rightarrow> (live \<times> 'it \<times> (rqx_error + 'p option)) option" where
  "iter_next ops l it =
     (case (if it_finished ops it then Inr () else check_open l) of
        Inl e \<Rightarrow> Some (l, it, Inl e)
      | Inr _ \<Rightarrow>
          (case it_pop ops it of
             None \<Rightarrow> None
           | Some (Some p, it1) \<Rightarrow> Some (l, it1, Inr (Some p))
           | Some (None, it1) \<Rightarrow>
               if it_finished ops it1 then
                 (case it_flush ops it1 of
                    None \<Rightarrow> None
                  | Some (q, it2) \<Rightarrow> Some (l, it2, Inr q))
               else
                 (case live_next l of
                    (l1, Inl e) \<Rightarrow> Some (l1, it1, Inl e)
                  | (l1, Inr (Some b)) \<Rightarrow>
                      (case it_data ops b it1 of
                         None \<Rightarrow> None
                       | Some it2 \<Rightarrow> iter_next ops l1 it2)
                  | (l1, Inr None) \<Rightarrow>
                      (case it_end ops it1 of
                         None \<Rightarrow> None
                       | Some it2 \<Rightarrow> iter_next ops l1 it2))))"
  by pat_completeness auto
termination
  by (relation "measure (\<lambda>(ops, l, it). live_size l)") (auto dest: live_next_size [OF sym])

declare iter_next.simps [simp del]


section \<open>The three iterators\<close>

record byte_iter =
  bi_chunker :: byte_chunker
  bi_finished :: bool

definition byte_ops :: "(byte_iter, bytes) iter_ops" where
  "byte_ops =
     \<lparr>it_finished = bi_finished,
      it_pop = (\<lambda>it. case bytes_next_full (bi_chunker it) of (r, c) \<Rightarrow>
        Some (r, it\<lparr>bi_chunker := c\<rparr>)),
      it_flush = (\<lambda>it. case bytes_flush (bi_chunker it) of (r, c) \<Rightarrow>
        Some (r, it\<lparr>bi_chunker := c\<rparr>)),
      it_data = (\<lambda>b it. map_option (\<lambda>c. it\<lparr>bi_chunker := c\<rparr>) (bytes_feed b (bi_chunker it))),
      it_end = (\<lambda>it. Some (it\<lparr>bi_finished := True\<rparr>))\<rparr>"

definition byte_iter_next ::
  "live \<Rightarrow> byte_iter \<Rightarrow> (live \<times> byte_iter \<times> (rqx_error + bytes option)) option" where
  "byte_iter_next = iter_next byte_ops"

record 'd text_iter =
  ti_decoder :: 'd
  ti_chunker :: text_chunker
  ti_finished :: bool

definition text_ops :: "'d decoder \<Rightarrow> ('d text_iter, ustr) iter_ops" where
  "text_ops dec =
     \<lparr>it_finished = ti_finished,
      it_pop = (\<lambda>it. map_option (\<lambda>(r, c). (r, it\<lparr>ti_chunker := c\<rparr>))
        (text_next_full (ti_chunker it))),
      it_flush = (\<lambda>it. map_option (\<lambda>(r, c). (r, it\<lparr>ti_chunker := c\<rparr>))
        (text_flush (ti_chunker it))),
      it_data = (\<lambda>b it. case dec_step dec (ti_decoder it) b False of (t, d) \<Rightarrow>
        map_option (\<lambda>c. it\<lparr>ti_decoder := d, ti_chunker := c\<rparr>) (text_feed t (ti_chunker it))),
      it_end = (\<lambda>it. case dec_step dec (ti_decoder it) [] True of (t, d) \<Rightarrow>
        map_option (\<lambda>c. it\<lparr>ti_finished := True, ti_decoder := d, ti_chunker := c\<rparr>)
          (text_feed t (ti_chunker it)))\<rparr>"

definition text_iter_next ::
  "'d decoder \<Rightarrow> live \<Rightarrow> 'd text_iter \<Rightarrow> (live \<times> 'd text_iter \<times> (rqx_error + ustr option)) option"
  where
  "text_iter_next dec = iter_next (text_ops dec)"

record 'd line_iter =
  li_decoder :: 'd
  li_lines :: line_decoder
  li_pending :: "ustr list"
  li_finished :: bool

text \<open>
  At the end of the stream the byte decoder is flushed first, its last text goes through the
  line splitter, and only then is the splitter flushed.
\<close>

definition line_ops :: "'d decoder \<Rightarrow> ('d line_iter, ustr) iter_ops" where
  "line_ops dec =
     \<lparr>it_finished = li_finished,
      it_pop = (\<lambda>it. case li_pending it of
          [] \<Rightarrow> Some (None, it)
        | l # ls \<Rightarrow> Some (Some l, it\<lparr>li_pending := ls\<rparr>)),
      it_flush = (\<lambda>it. Some (None, it)),
      it_data = (\<lambda>b it. case dec_step dec (li_decoder it) b False of (t, d) \<Rightarrow>
        (case line_feed t (li_lines it) of
           None \<Rightarrow> None
         | Some (ls, ld) \<Rightarrow>
             Some (it\<lparr>li_decoder := d, li_lines := ld, li_pending := li_pending it @ ls\<rparr>))),
      it_end = (\<lambda>it. case dec_step dec (li_decoder it) [] True of (t, d) \<Rightarrow>
        (case line_feed t (li_lines it) of
           None \<Rightarrow> None
         | Some (ls, ld) \<Rightarrow>
             (case line_flush ld of (q, ld') \<Rightarrow>
                Some (it\<lparr>li_decoder := d, li_lines := ld',
                  li_pending := li_pending it @ ls @ (case q of None \<Rightarrow> [] | Some l \<Rightarrow> [l]),
                  li_finished := True\<rparr>))))\<rparr>"

definition line_iter_next ::
  "'d decoder \<Rightarrow> live \<Rightarrow> 'd line_iter \<Rightarrow> (live \<times> 'd line_iter \<times> (rqx_error + ustr option)) option"
  where
  "line_iter_next dec = iter_next (line_ops dec)"


section \<open>Driving an iterator to its end\<close>

text \<open>
  A \<^verbatim>\<open>for\<close> loop over an iterator: the pieces it yields, and the error that ended it, if
  any.  \<open>fuel\<close> bounds the number of pieces; the theorems say how much is enough.
\<close>

fun iter_collect ::
  "nat \<Rightarrow> ('it, 'p) iter_ops \<Rightarrow> live \<Rightarrow> 'it \<Rightarrow> ('p list \<times> rqx_error option) option" where
  "iter_collect 0 ops l it = None"
| "iter_collect (Suc fuel) ops l it =
     (case iter_next ops l it of
        None \<Rightarrow> None
      | Some (_, _, Inl e) \<Rightarrow> Some ([], Some e)
      | Some (_, _, Inr None) \<Rightarrow> Some ([], None)
      | Some (l', it', Inr (Some p)) \<Rightarrow>
          map_option (\<lambda>(ps, r). (p # ps, r)) (iter_collect fuel ops l' it'))"

text \<open>
  The contract of an iterator: \<open>out it bs e\<close> is what it will yield when the stream delivers
  the chunks \<open>bs\<close> and then ends (\<open>e\<close>) or fails.
\<close>

locale piece_iterator =
  fixes ops :: "('it, 'p) iter_ops"
    and ok :: "'it \<Rightarrow> bool"
    and idle :: "'it \<Rightarrow> bool"
    and out :: "'it \<Rightarrow> bytes list \<Rightarrow> bool \<Rightarrow> 'p list"
  assumes pop_law: "ok it \<Longrightarrow> \<exists>q it'. it_pop ops it = Some (q, it') \<and> ok it' \<and>
      it_finished ops it' = it_finished ops it \<and>
      (case q of
         Some p \<Rightarrow> (\<forall>bs e. (it_finished ops it \<longrightarrow> bs = [] \<and> e) \<longrightarrow> out it bs e = p # out it' bs e)
       | None \<Rightarrow> idle it' \<and> out it [] False = [] \<and>
           (\<forall>bs e. (it_finished ops it \<longrightarrow> bs = [] \<and> e) \<longrightarrow> out it bs e = out it' bs e))"
    and data_law: "ok it \<Longrightarrow> idle it \<Longrightarrow> \<not> it_finished ops it \<Longrightarrow>
      \<exists>it'. it_data ops b it = Some it' \<and> ok it' \<and> \<not> it_finished ops it' \<and>
        (\<forall>bs e. out it (b # bs) e = out it' bs e)"
    and end_law: "ok it \<Longrightarrow> idle it \<Longrightarrow> \<not> it_finished ops it \<Longrightarrow>
      \<exists>it'. it_end ops it = Some it' \<and> ok it' \<and> it_finished ops it' \<and>
        out it [] True = out it' [] True"
    and flush_law: "ok it \<Longrightarrow> idle it \<Longrightarrow> it_finished ops it \<Longrightarrow>
      \<exists>q it'. it_flush ops it = Some (q, it') \<and> ok it' \<and> it_finished ops it' \<and>
        out it [] True = (case q of None \<Rightarrow> [] | Some p \<Rightarrow> p # out it' [] True) \<and>
        (q = None \<longrightarrow> out it' [] True = [])"
begin

lemma some_bool: "\<exists>x::bool. x"
  by blast

text \<open>The next piece once the stream has ended: the network is not consulted.\<close>

lemma next_finished:
  assumes "ok it" "it_finished ops it"
  shows "\<exists>q it'. iter_next ops l it = Some (l, it', Inr q) \<and> ok it' \<and> it_finished ops it' \<and>
    out it [] True = (case q of None \<Rightarrow> [] | Some p \<Rightarrow> p # out it' [] True)"
proof -
  obtain q it' where pop: "it_pop ops it = Some (q, it')" "ok it'" "it_finished ops it'"
    and q: "case q of Some p \<Rightarrow> (\<forall>bs e. (it_finished ops it \<longrightarrow> bs = [] \<and> e) \<longrightarrow> out it bs e = p # out it' bs e)
       | None \<Rightarrow> idle it' \<and> out it [] False = [] \<and>
           (\<forall>bs e. (it_finished ops it \<longrightarrow> bs = [] \<and> e) \<longrightarrow> out it bs e = out it' bs e)"
    using pop_law [OF assms(1)] assms(2) by fastforce
  show ?thesis
  proof (cases q)
    case (Some p)
    with pop q assms some_bool show ?thesis by (subst iter_next.simps) simp
  next
    case None
    with q assms(2) have "idle it'" and same: "out it [] True = out it' [] True" by auto
    with flush_law pop(2,3) obtain q' it'' where "it_flush ops it' = Some (q', it'')" "ok it''"
      "it_finished ops it''" "out it' [] True = (case q' of None \<Rightarrow> [] | Some p \<Rightarrow> p # out it'' [] True)"
      by blast
    with None pop same assms show ?thesis by (subst iter_next.simps) simp
  qed
qed

lemma collect_finished:
  assumes "ok it" "it_finished ops it" "length (out it [] True) < fuel"
  shows "iter_collect fuel ops l it = Some (out it [] True, None)"
  using assms
proof (induction fuel arbitrary: it)
  case 0
  then show ?case by simp
next
  case (Suc fuel)
  obtain q it' where n: "iter_next ops l it = Some (l, it', Inr q)" "ok it'" "it_finished ops it'"
    "out it [] True = (case q of None \<Rightarrow> [] | Some p \<Rightarrow> p # out it' [] True)"
    using next_finished [OF Suc.prems(1,2)] by blast
  then show ?case using Suc.IH [of it'] Suc.prems(3) by (cases q) auto
qed

text \<open>
  What one call may do while the stream is open.  The stream delivers \<open>bs\<close> and then \<open>tail\<close>, which is
  its end or an error.
\<close>

definition after_next :: "'it \<Rightarrow> bytes list \<Rightarrow> net \<Rightarrow>
    (live \<times> 'it \<times> (rqx_error + 'p option)) option \<Rightarrow> bool" where
  "after_next it bs tail res \<longleftrightarrow>
     (\<exists>l' it' q. res = Some (l', it', q) \<and>
       (case q of
          Inl e \<Rightarrow> out it bs False = [] \<and> (\<exists>x. tail = [Fail x] \<and> e = from_reqwest x)
        | Inr None \<Rightarrow> out it bs True = [] \<and> tail = []
        | Inr (Some p) \<Rightarrow> ok it' \<and>
            (if it_finished ops it' then tail = [] \<and> out it bs True = p # out it' [] True
             else \<exists>bs'. \<not> closed l' \<and> \<not> permit l' \<and> slot l' = Some (map Data bs' @ tail) \<and>
               (\<forall>e. out it bs e = p # out it' bs' e))))"

lemma next_at_end:
  assumes "it_pop ops it = Some (None, it1)" "ok it1" "idle it1" "\<not> it_finished ops it" "\<not> it_finished ops it1"
    and "\<not> closed l" "\<not> permit l" "slot l = Some []" "out it [] True = out it1 [] True"
  shows "after_next it [] [] (iter_next ops l it)"
proof -
  define l1 where "l1 = l\<lparr>slot := None\<rparr>"
  obtain it2 where e: "it_end ops it1 = Some it2" "ok it2" "it_finished ops it2" "out it1 [] True = out it2 [] True"
    using end_law [OF assms(2,3,5)] by blast
  have "live_next l = (l1, Inr None)" using assms(6-8) by (simp add: live_next_open l1_def)
  then have step: "iter_next ops l it = iter_next ops l1 it2"
    using assms(1,4-6) e by (subst iter_next.simps) (simp add: check_open_def)
  obtain q it3 where "iter_next ops l1 it2 = Some (l1, it3, Inr q)" "ok it3"
    "it_finished ops it3" "out it2 [] True = (case q of None \<Rightarrow> [] | Some p \<Rightarrow> p # out it3 [] True)"
    using next_finished [OF e(2,3)] by blast
  with step e(4) assms(9) show ?thesis by (cases q) (auto simp: after_next_def)
qed

lemma next_open:
  assumes "ok it" "\<not> it_finished ops it" "\<not> closed l" "\<not> permit l"
    "slot l = Some (map Data bs @ tail)" "tail = [] \<or> (\<exists>x. tail = [Fail x])"
  shows "after_next it bs tail (iter_next ops l it)"
  using assms
proof (induction "length bs" arbitrary: it l bs rule: less_induct)
  case less
  have open_l: "check_open l = Inr ()" using less.prems(3) by (simp add: check_open_def)
  obtain q it1 where pop: "it_pop ops it = Some (q, it1)" "ok it1" "\<not> it_finished ops it1"
    and q: "case q of Some p \<Rightarrow> (\<forall>bs e. out it bs e = p # out it1 bs e)
       | None \<Rightarrow> idle it1 \<and> out it [] False = [] \<and> (\<forall>bs e. out it bs e = out it1 bs e)"
    using pop_law [OF less.prems(1)] less.prems(2) by (fastforce split: option.splits)
  show ?case
  proof (cases q)
    case (Some p)
    with pop q less.prems open_l show ?thesis by (subst iter_next.simps) (auto simp: after_next_def)
  next
    case None
    with q have idle: "idle it1" and same: "out it bs e = out it1 bs e" "out it [] False = []"
      for bs e by auto
    consider "bs = []" "tail = []" | r where "bs = []" "tail = [Fail r]" | b bs' where "bs = b # bs'"
      using less.prems(6) by (cases bs) auto
    then show ?thesis
    proof cases
      case 1
      then show ?thesis using next_at_end [of it it1 l] None pop idle less.prems same by simp
    next
      case 2
      with less.prems have "live_next l = (l\<lparr>slot := None\<rparr>, Inl (from_reqwest r))"
        by (simp add: live_next_open)
      then show ?thesis
        using None pop open_l less.prems(2) same 2 by (subst iter_next.simps) (auto simp: after_next_def)
    next
      case 3
      define l1 where "l1 = l\<lparr>slot := Some (map Data bs' @ tail)\<rparr>"
      have next_l: "live_next l = (l1, Inr (Some b))"
        using less.prems 3 by (simp add: live_next_open l1_def)
      obtain it2 where d: "it_data ops b it1 = Some it2" "ok it2" "\<not> it_finished ops it2"
        "\<And>bs e. out it1 (b # bs) e = out it2 bs e"
        using data_law [OF pop(2) idle pop(3)] by blast
      have step: "iter_next ops l it = iter_next ops l1 it2"
        using None pop d next_l open_l less.prems(2) by (subst iter_next.simps) simp
      have "after_next it2 bs' tail (iter_next ops l1 it2)"
        using d(2,3) less.prems 3 by (intro less.hyps) (simp_all add: l1_def)
      moreover have "out it bs e = out it2 bs' e" for e by (simp add: same d(4) 3)
      ultimately show ?thesis by (simp only: step after_next_def)
    qed
  qed
qed

theorem collect_open:
  assumes "ok it" "\<not> it_finished ops it" "\<not> closed l" "\<not> permit l"
    "slot l = Some (map Data bs @ tail)" "tail = [] \<or> (\<exists>x. tail = [Fail x])"
    "length (out it bs (tail = [])) < fuel"
  shows "iter_collect fuel ops l it =
    Some (out it bs (tail = []),
          case tail of Fail x # _ \<Rightarrow> Some (from_reqwest x) | _ \<Rightarrow> None)"
  using assms
proof (induction fuel arbitrary: it l bs)
  case 0
  then show ?case by simp
next
  case (Suc fuel)
  obtain l' it' q where n: "iter_next ops l it = Some (l', it', q)"
    and q: "case q of
       Inl e \<Rightarrow> out it bs False = [] \<and> (\<exists>x. tail = [Fail x] \<and> e = from_reqwest x)
     | Inr None \<Rightarrow> out it bs True = [] \<and> tail = []
     | Inr (Some p) \<Rightarrow> ok it' \<and>
         (if it_finished ops it' then tail = [] \<and> out it bs True = p # out it' [] True
          else \<exists>bs'. \<not> closed l' \<and> \<not> permit l' \<and> slot l' = Some (map Data bs' @ tail) \<and>
            (\<forall>e. out it bs e = p # out it' bs' e))"
    using next_open [OF Suc.prems(1-6)] unfolding after_next_def by blast
  show ?case
  proof (cases q)
    case (Inl e)
    with n q show ?thesis by auto
  next
    case (Inr r)
    show ?thesis
    proof (cases r)
      case None
      with n q Inr show ?thesis by auto
    next
      case (Some p)
      with Inr n have here: "iter_collect (Suc fuel) ops l it =
          map_option (\<lambda>(ps, r). (p # ps, r)) (iter_collect fuel ops l' it')" by simp
      show ?thesis
      proof (cases "it_finished ops it'")
        case True
        with q Inr Some have t: "ok it'" "tail = []" "out it bs True = p # out it' [] True" by auto
        then have "iter_collect fuel ops l' it' = Some (out it' [] True, None)"
          using Suc.prems(7) True by (intro collect_finished) auto
        with here t show ?thesis by simp
      next
        case False
        with q Inr Some obtain bs' where t: "ok it'" "\<not> closed l'" "\<not> permit l'"
          "slot l' = Some (map Data bs' @ tail)" "\<And>e. out it bs e = p # out it' bs' e" by auto
        then have "iter_collect fuel ops l' it' =
            Some (out it' bs' (tail = []), case tail of Fail x # _ \<Rightarrow> Some (from_reqwest x) | _ \<Rightarrow> None)"
          using Suc.prems(6,7) False by (intro Suc.IH) auto
        with here t(5) show ?thesis by simp
      qed
    qed
  qed
qed

end


section \<open>The iterators keep the contract\<close>

definition byte_ok :: "byte_iter \<Rightarrow> bool" where
  "byte_ok it \<longleftrightarrow> bytes_ok (bi_chunker it) \<and> bc_size (bi_chunker it) \<noteq> Some 0"

definition byte_out :: "byte_iter \<Rightarrow> bytes list \<Rightarrow> bool \<Rightarrow> bytes list" where
  "byte_out it bs e = pieces_of (bc_size (bi_chunker it)) (bytes_content (bi_chunker it)) bs e"

lemmas byte_iter_defs = byte_ops_def byte_ok_def byte_out_def

interpretation byte_it: piece_iterator byte_ops byte_ok
  "\<lambda>it. bytes_ch.settled (bi_chunker it)" byte_out
proof unfold_locales
  fix it
  assume "byte_ok it"
  then have ok: "bytes_ok (bi_chunker it)" "bc_size (bi_chunker it) \<noteq> Some 0"
    by (simp_all add: byte_ok_def)
  obtain q c where r: "bytes_next_full (bi_chunker it) = (q, c)" by force
  then have n: "Some (bytes_next_full (bi_chunker it)) = Some (q, c)" by simp
  show "\<exists>q it'. it_pop byte_ops it = Some (q, it') \<and> byte_ok it' \<and>
      it_finished byte_ops it' = it_finished byte_ops it \<and>
      (case q of
         Some p \<Rightarrow> (\<forall>bs e. (it_finished byte_ops it \<longrightarrow> bs = [] \<and> e) \<longrightarrow>
           byte_out it bs e = p # byte_out it' bs e)
       | None \<Rightarrow> bytes_ch.settled (bi_chunker it') \<and> byte_out it [] False = [] \<and>
           (\<forall>bs e. (it_finished byte_ops it \<longrightarrow> bs = [] \<and> e) \<longrightarrow> byte_out it bs e = byte_out it' bs e))"
  proof (cases q)
    case (Some p)
    with n have "Some (bytes_next_full (bi_chunker it)) = Some (Some p, c)" by simp
    note s = bytes_ch.next_Some [OF this ok] bytes_ch.next_pieces [OF this ok]
    show ?thesis using s(1,2,7) ok(2) Some by (simp add: byte_iter_defs r)
  next
    case None
    with n have "Some (bytes_next_full (bi_chunker it)) = Some (None, c)" by simp
    note s = bytes_ch.next_None [OF this ok] bytes_ch.next_settled [OF this ok]
    show ?thesis using s(1,2,7-9) ok(2) None by (simp add: byte_iter_defs r)
  qed
next
  fix it b
  assume "byte_ok it" "bytes_ch.settled (bi_chunker it)" "\<not> it_finished byte_ops it"
  then show "\<exists>it'. it_data byte_ops b it = Some it' \<and> byte_ok it' \<and> \<not> it_finished byte_ops it' \<and>
      (\<forall>bs e. byte_out it (b # bs) e = byte_out it' bs e)"
    using bytes_ch.feed_pieces [of "bi_chunker it" b] by (auto simp: byte_iter_defs)
next
  fix it
  assume "byte_ok it" "bytes_ch.settled (bi_chunker it)" "\<not> it_finished byte_ops it"
  then show "\<exists>it'. it_end byte_ops it = Some it' \<and> byte_ok it' \<and> it_finished byte_ops it' \<and>
      byte_out it [] True = byte_out it' [] True"
    by (simp add: byte_iter_defs)
next
  fix it
  assume a: "byte_ok it" "bytes_ch.settled (bi_chunker it)" "it_finished byte_ops it"
  then obtain q c where "Some (bytes_flush (bi_chunker it)) = Some (q, c)" "bytes_ok c"
    "bc_size c = bc_size (bi_chunker it)" "byte_out it [] True =
      (case q of None \<Rightarrow> [] | Some p \<Rightarrow> p # pieces_of (bc_size c) (bytes_content c) [] True)"
    "q = None \<Longrightarrow> pieces_of (bc_size c) (bytes_content c) [] True = []"
    using bytes_ch.flush_pieces [of "bi_chunker it"] by (auto simp: byte_iter_defs)
  with a show "\<exists>q it'. it_flush byte_ops it = Some (q, it') \<and> byte_ok it' \<and>
      it_finished byte_ops it' \<and>
      byte_out it [] True = (case q of None \<Rightarrow> [] | Some p \<Rightarrow> p # byte_out it' [] True) \<and>
      (q = None \<longrightarrow> byte_out it' [] True = [])"
    by (cases q) (simp_all add: byte_iter_defs)
qed

text \<open>The texts a decoder gives for a sequence of chunks, and for the end of the stream.\<close>

fun decoded :: "'d decoder \<Rightarrow> 'd \<Rightarrow> bytes list \<Rightarrow> bool \<Rightarrow> ustr list" where
  "decoded dec d [] e = (if e then [fst (dec_step dec d [] True)] else [])"
| "decoded dec d (b # bs) e =
     fst (dec_step dec d b False) # decoded dec (snd (dec_step dec d b False)) bs e"

definition text_it_ok :: "'d text_iter \<Rightarrow> bool" where
  "text_it_ok it \<longleftrightarrow> text_ok (ti_chunker it) \<and> tc_size (ti_chunker it) \<noteq> Some 0"

definition text_out :: "'d decoder \<Rightarrow> 'd text_iter \<Rightarrow> bytes list \<Rightarrow> bool \<Rightarrow> ustr list" where
  "text_out dec it bs e =
     pieces_of (tc_size (ti_chunker it)) (text_content (ti_chunker it))
       (if ti_finished it then [] else decoded dec (ti_decoder it) bs e) e"

lemmas text_iter_defs = text_ops_def text_it_ok_def text_out_def

interpretation text_it: piece_iterator "text_ops dec" text_it_ok
  "\<lambda>it. text_ch.settled (ti_chunker it)" "text_out dec" for dec :: "'d decoder"
proof unfold_locales
  fix it :: "'d text_iter"
  assume "text_it_ok it"
  then have ok: "text_ok (ti_chunker it)" "tc_size (ti_chunker it) \<noteq> Some 0"
    by (simp_all add: text_it_ok_def)
  obtain q c where r: "text_next_full (ti_chunker it) = Some (q, c)"
    using text_ch.next_total [OF ok] by force
  show "\<exists>q it'. it_pop (text_ops dec) it = Some (q, it') \<and> text_it_ok it' \<and>
      it_finished (text_ops dec) it' = it_finished (text_ops dec) it \<and>
      (case q of
         Some p \<Rightarrow> (\<forall>bs e. (it_finished (text_ops dec) it \<longrightarrow> bs = [] \<and> e) \<longrightarrow>
           text_out dec it bs e = p # text_out dec it' bs e)
       | None \<Rightarrow> text_ch.settled (ti_chunker it') \<and> text_out dec it [] False = [] \<and>
           (\<forall>bs e. (it_finished (text_ops dec) it \<longrightarrow> bs = [] \<and> e) \<longrightarrow>
             text_out dec it bs e = text_out dec it' bs e))"
  proof (cases q)
    case (Some p)
    with r have "text_next_full (ti_chunker it) = Some (Some p, c)" by simp
    note s = text_ch.next_Some [OF this ok] text_ch.next_pieces [OF this ok]
    show ?thesis using s(1,2,7) ok(2) Some by (simp add: text_iter_defs r)
  next
    case None
    with r have "text_next_full (ti_chunker it) = Some (None, c)" by simp
    note s = text_ch.next_None [OF this ok] text_ch.next_settled [OF this ok]
    show ?thesis using s(1,2,7-9) ok(2) None by (simp add: text_iter_defs r)
  qed
next
  fix it :: "'d text_iter" and b
  assume a: "text_it_ok it" "text_ch.settled (ti_chunker it)" "\<not> it_finished (text_ops dec) it"
  obtain t d where t: "dec_step dec (ti_decoder it) b False = (t, d)" by force
  from a show "\<exists>it'. it_data (text_ops dec) b it = Some it' \<and> text_it_ok it' \<and>
      \<not> it_finished (text_ops dec) it' \<and>
      (\<forall>bs e. text_out dec it (b # bs) e = text_out dec it' bs e)"
    using text_ch.feed_pieces [of "ti_chunker it" t] t by (auto simp: text_iter_defs)
next
  fix it :: "'d text_iter"
  assume a: "text_it_ok it" "text_ch.settled (ti_chunker it)" "\<not> it_finished (text_ops dec) it"
  obtain t d where t: "dec_step dec (ti_decoder it) [] True = (t, d)" by force
  from a show "\<exists>it'. it_end (text_ops dec) it = Some it' \<and> text_it_ok it' \<and>
      it_finished (text_ops dec) it' \<and> text_out dec it [] True = text_out dec it' [] True"
    using text_ch.feed_pieces [of "ti_chunker it" t] t by (auto simp: text_iter_defs)
next
  fix it :: "'d text_iter"
  assume a: "text_it_ok it" "text_ch.settled (ti_chunker it)" "it_finished (text_ops dec) it"
  then obtain q c where "text_flush (ti_chunker it) = Some (q, c)" "text_ok c"
    "tc_size c = tc_size (ti_chunker it)" "text_out dec it [] True =
      (case q of None \<Rightarrow> [] | Some p \<Rightarrow> p # pieces_of (tc_size c) (text_content c) [] True)"
    "q = None \<Longrightarrow> pieces_of (tc_size c) (text_content c) [] True = []"
    using text_ch.flush_pieces [of "ti_chunker it"] by (auto simp: text_iter_defs)
  with a show "\<exists>q it'. it_flush (text_ops dec) it = Some (q, it') \<and> text_it_ok it' \<and>
      it_finished (text_ops dec) it' \<and>
      text_out dec it [] True = (case q of None \<Rightarrow> [] | Some p \<Rightarrow> p # text_out dec it' [] True) \<and>
      (q = None \<longrightarrow> text_out dec it' [] True = [])"
    by (cases q) (simp_all add: text_iter_defs)
qed

definition flushed :: "line_decoder \<Rightarrow> ustr list" where
  "flushed ld = (case fst (line_flush ld) of None \<Rightarrow> [] | Some l \<Rightarrow> [l])"

definition line_it_ok :: "'d line_iter \<Rightarrow> bool" where
  "line_it_ok it \<longleftrightarrow> line_ok (li_lines it)"

definition line_out :: "'d decoder \<Rightarrow> 'd line_iter \<Rightarrow> bytes list \<Rightarrow> bool \<Rightarrow> ustr list" where
  "line_out dec it bs e =
     li_pending it @
       (if li_finished it then []
        else case feed_all (decoded dec (li_decoder it) bs e) (li_lines it) of
               None \<Rightarrow> []
             | Some (ls, ld) \<Rightarrow> ls @ (if e then flushed ld else []))"

lemmas line_iter_defs = line_ops_def line_it_ok_def line_out_def flushed_def

lemma line_flush_ok: "line_ok ld \<Longrightarrow> line_ok (snd (line_flush ld))"
  by (simp add: line_flush_def line_ok_def)

interpretation line_it: piece_iterator "line_ops dec" line_it_ok
  "\<lambda>it. li_pending it = []" "line_out dec" for dec :: "'d decoder"
proof unfold_locales
  fix it :: "'d line_iter"
  assume "line_it_ok it"
  then show "\<exists>q it'. it_pop (line_ops dec) it = Some (q, it') \<and> line_it_ok it' \<and>
      it_finished (line_ops dec) it' = it_finished (line_ops dec) it \<and>
      (case q of
         Some p \<Rightarrow> (\<forall>bs e. (it_finished (line_ops dec) it \<longrightarrow> bs = [] \<and> e) \<longrightarrow>
           line_out dec it bs e = p # line_out dec it' bs e)
       | None \<Rightarrow> li_pending it' = [] \<and> line_out dec it [] False = [] \<and>
           (\<forall>bs e. (it_finished (line_ops dec) it \<longrightarrow> bs = [] \<and> e) \<longrightarrow>
             line_out dec it bs e = line_out dec it' bs e))"
    by (cases "li_pending it") (simp_all add: line_iter_defs)
next
  fix it :: "'d line_iter" and b
  assume a: "line_it_ok it" "li_pending it = []" "\<not> it_finished (line_ops dec) it"
  obtain t d where t: "dec_step dec (li_decoder it) b False = (t, d)" by force
  obtain ls ld where "line_feed t (li_lines it) = Some (ls, ld)" "line_ok ld"
    using line_feed_step [of "li_lines it" t] a(1) by (auto simp: line_it_ok_def)
  moreover from this have total: "(feed_all ts ld = None) = False" for ts
    by (simp add: feed_all_total)
  ultimately show "\<exists>it'. it_data (line_ops dec) b it = Some it' \<and> line_it_ok it' \<and>
      \<not> it_finished (line_ops dec) it' \<and>
      (\<forall>bs e. line_out dec it (b # bs) e = line_out dec it' bs e)"
    using a t by (auto simp: line_iter_defs total split: option.splits)
next
  fix it :: "'d line_iter"
  assume a: "line_it_ok it" "li_pending it = []" "\<not> it_finished (line_ops dec) it"
  obtain t d where t: "dec_step dec (li_decoder it) [] True = (t, d)" by force
  obtain ls ld where "line_feed t (li_lines it) = Some (ls, ld)" "line_ok ld"
    using line_feed_step [of "li_lines it" t] a(1) by (auto simp: line_it_ok_def)
  with a t line_flush_ok [of ld] show "\<exists>it'. it_end (line_ops dec) it = Some it' \<and>
      line_it_ok it' \<and> it_finished (line_ops dec) it' \<and>
      line_out dec it [] True = line_out dec it' [] True"
    by (cases "line_flush ld") (simp add: line_iter_defs)
next
  fix it :: "'d line_iter"
  assume "line_it_ok it" "li_pending it = []" "it_finished (line_ops dec) it"
  then show "\<exists>q it'. it_flush (line_ops dec) it = Some (q, it') \<and> line_it_ok it' \<and>
      it_finished (line_ops dec) it' \<and>
      line_out dec it [] True = (case q of None \<Rightarrow> [] | Some p \<Rightarrow> p # line_out dec it' [] True) \<and>
      (q = None \<longrightarrow> line_out dec it' [] True = [])"
    by (simp add: line_iter_defs)
qed


section \<open>What a whole iteration yields\<close>

text \<open>Fresh iterators, as \<^verbatim>\<open>iter_bytes\<close>, \<^verbatim>\<open>iter_text\<close> and \<^verbatim>\<open>iter_lines\<close>
  build them.\<close>

definition byte_start :: "nat option \<Rightarrow> byte_iter" where
  "byte_start n = \<lparr>bi_chunker = bytes_new n, bi_finished = False\<rparr>"

definition text_start :: "'d decoder \<Rightarrow> nat option \<Rightarrow> 'd text_iter" where
  "text_start dec n = \<lparr>ti_decoder = dec_new dec, ti_chunker = text_new n, ti_finished = False\<rparr>"

definition line_start :: "'d decoder \<Rightarrow> 'd line_iter" where
  "line_start dec =
     \<lparr>li_decoder = dec_new dec, li_lines = line_new, li_pending = [], li_finished = False\<rparr>"

lemma live_new_simps [simp]:
  "slot (live_new n) = Some n" "closed (live_new n) = False" "permit (live_new n) = False"
  by (simp_all add: live_new_def)

lemma byte_start_simps [simp]:
  "n \<noteq> Some 0 \<Longrightarrow> byte_ok (byte_start n)" "it_finished byte_ops (byte_start n) = False"
  "byte_out (byte_start n) bs e = pieces_of n [] bs e"
  by (simp_all add: byte_start_def byte_iter_defs)

lemma text_start_simps [simp]:
  "n \<noteq> Some 0 \<Longrightarrow> text_it_ok (text_start dec n)"
  "it_finished (text_ops dec) (text_start dec n) = False"
  "text_out dec (text_start dec n) bs e = pieces_of n [] (decoded dec (dec_new dec) bs e) e"
  by (simp_all add: text_start_def text_iter_defs)

lemma line_start_simps [simp]:
  "line_it_ok (line_start dec)" "it_finished (line_ops dec) (line_start dec) = False"
  by (simp_all add: line_start_def line_iter_defs)

lemma line_start_out:
  "line_out dec (line_start dec) bs True = split_lines (concat (decoded dec (dec_new dec) bs True))"
proof -
  obtain ls d where "feed_all (decoded dec (dec_new dec) bs True) line_new = Some (ls, d)"
    "line_ok d" "split_lines (concat (decoded dec (dec_new dec) bs True)) = ls @ split_lines (held d)"
    using feed_all_split [of line_new "decoded dec (dec_new dec) bs True"] by auto
  then show ?thesis by (simp add: line_start_def line_out_def flushed_def line_flush_split)
qed

text \<open>C16. Iterating the bytes of a body with a chunk size \<open>n\<close> reassembles the body
  exactly, however the network cut it: the loop ends without error, the pieces concatenate to
  the body, every piece but the last has exactly \<open>n\<close> bytes and the last has between one and
  \<open>n\<close>.  More pieces than the body has bytes are never needed.\<close>

theorem byte_iteration_reassembles:
  assumes "0 < n" and "length (concat bs) < fuel"
  shows "\<exists>ps. iter_collect fuel byte_ops (live_new (map Data bs)) (byte_start (Some n)) = Some (ps, None) \<and>
    concat ps = concat bs \<and> (\<forall>p \<in> set (butlast ps). length p = n) \<and>
    (\<forall>p \<in> set ps. 0 < length p \<and> length p \<le> n)"
proof -
  have "length (chop n (concat bs)) < fuel"
    using length_chop [of n "concat bs"] assms(2) by simp
  then have "iter_collect fuel byte_ops (live_new (map Data bs)) (byte_start (Some n)) =
      Some (chop n (concat bs), None)"
    using byte_it.collect_open [of "byte_start (Some n)" "live_new (map Data bs)" bs "[]" fuel] assms(1)
    by (simp add: pieces_of_def)
  then show ?thesis
    using chop_pieces [of _ n "concat bs"] chop_butlast [of _ n "concat bs"] concat_chop [OF assms(1)]
    by auto
qed

theorem byte_iteration_reassembles_witness:
  "\<exists>ps. iter_collect 6 byte_ops (live_new (map Data [[1], [2, 3, 4], [], [5]])) (byte_start (Some 2)) =
      Some (ps, None) \<and> concat ps = [1, 2, 3, 4, 5] \<and> (\<forall>p \<in> set (butlast ps). length p = 2) \<and>
    (\<forall>p \<in> set ps. 0 < length p \<and> length p \<le> 2)"
  using byte_iteration_reassembles [of 2 "[[1], [2, 3, 4], [], [5]]" 6] by simp

text \<open>A body that breaks off yields every whole piece received before the failure and
  then raises the classified error: no piece is shorter than \<open>n\<close>, the bytes short of a
  piece are dropped, and nothing received is reordered.\<close>

theorem byte_iteration_failure:
  assumes "0 < n" and "length (concat bs) < fuel"
  shows "\<exists>ps rest. iter_collect fuel byte_ops (live_new (map Data bs @ [Fail x])) (byte_start (Some n)) =
      Some (ps, Some (from_reqwest x)) \<and>
    concat ps @ rest = concat bs \<and> length rest < n \<and> (\<forall>p \<in> set ps. length p = n)"
proof -
  define ps where "ps = filter (\<lambda>p. length p = n) (chop n (concat bs))"
  have "length ps < fuel"
    using length_chop [of n "concat bs"] assms(2)
      length_filter_le [of "\<lambda>p. length p = n" "chop n (concat bs)"]
    unfolding ps_def by linarith
  then have "iter_collect fuel byte_ops (live_new (map Data bs @ [Fail x])) (byte_start (Some n)) =
      Some (ps, Some (from_reqwest x))"
    using byte_it.collect_open [of "byte_start (Some n)" "live_new (map Data bs @ [Fail x])" bs "[Fail x]" fuel]
      assms(1) by (simp add: pieces_of_def ps_def)
  moreover obtain rest where "concat ps @ rest = concat bs" "length rest < n"
    using chop_whole [OF assms(1)] unfolding ps_def by blast
  ultimately show ?thesis by (auto simp: ps_def)
qed

theorem byte_iteration_failure_witness:
  "\<exists>ps rest. iter_collect 4 byte_ops (live_new (map Data [[1, 2], [3]] @
      [Fail \<lparr>is_timeout = True, is_connect = False, is_redirect_error = False, is_body = False,
        is_decode = False, err_text = ''t'', sources = []\<rparr>])) (byte_start (Some 2)) =
      Some (ps, Some (ReadTimeout ''t'')) \<and>
    concat ps @ rest = [1, 2, 3] \<and> length rest < 2 \<and> (\<forall>p \<in> set ps. length p = 2)"
  using byte_iteration_failure [of 2 "[[1, 2], [3]]" 4
      "\<lparr>is_timeout = True, is_connect = False, is_redirect_error = False, is_body = False,
        is_decode = False, err_text = ''t'', sources = []\<rparr>"]
  by (simp add: from_reqwest_def)

text \<open>Without a chunk size the bytes pass through as the network delivered them: the
  non-empty chunks, in order.\<close>

theorem byte_iteration_passthrough:
  assumes "length bs < fuel"
  shows "iter_collect fuel byte_ops (live_new (map Data bs)) (byte_start None) =
    Some (filter (\<lambda>b. b \<noteq> []) bs, None)"
proof -
  have "length (filter (\<lambda>b. b \<noteq> []) bs) < fuel"
    using assms by (meson le_less_trans length_filter_le)
  then show ?thesis
    using byte_it.collect_open [of "byte_start None" "live_new (map Data bs)" bs "[]" fuel]
    by (simp add: pieces_of_def)
qed

theorem byte_iteration_passthrough_witness:
  "iter_collect 4 byte_ops (live_new (map Data [[1], [], [2, 3]])) (byte_start None) =
    Some ([[1], [2, 3]], None)"
  using byte_iteration_passthrough [of "[[1], [], [2, 3]]" 4] by simp

text \<open>Iterating the text of a body with a chunk size counts characters, not bytes: the
  pieces concatenate to the decoded text, each but the last has exactly \<open>n\<close> characters,
  and no slice ever falls inside a character (the iteration does not panic), for any decoder and
  any chunking.\<close>

theorem text_iteration_reassembles:
  assumes "0 < n" and "length (concat (decoded dec (dec_new dec) bs True)) < fuel"
  shows "\<exists>ps. iter_collect fuel (text_ops dec) (live_new (map Data bs)) (text_start dec (Some n)) =
      Some (ps, None) \<and>
    concat ps = concat (decoded dec (dec_new dec) bs True) \<and>
    (\<forall>p \<in> set (butlast ps). length p = n) \<and> (\<forall>p \<in> set ps. 0 < length p \<and> length p \<le> n)"
proof -
  let ?t = "concat (decoded dec (dec_new dec) bs True)"
  have "length (chop n ?t) < fuel"
    using length_chop [of n ?t] assms(2) by simp
  then have "iter_collect fuel (text_ops dec) (live_new (map Data bs)) (text_start dec (Some n)) =
      Some (chop n ?t, None)"
    using text_it.collect_open [of "text_start dec (Some n)" dec "live_new (map Data bs)" bs "[]" fuel]
      assms(1) by (simp add: pieces_of_def)
  then show ?thesis
    using chop_pieces [of _ n ?t] chop_butlast [of _ n ?t] concat_chop [OF assms(1)]
    by auto
qed

text \<open>A decoder to run the theorems on: one byte, one character (ISO-8859-1).\<close>

definition latin1 :: "unit decoder" where
  "latin1 = \<lparr>dec_new = (), dec_step = (\<lambda>_ b _. (map unat b, ()))\<rparr>"

theorem text_iteration_reassembles_witness:
  "\<exists>ps. iter_collect 6 (text_ops latin1) (live_new (map Data [[104, 233], [108, 108, 111]]))
      (text_start latin1 (Some 2)) = Some (ps, None) \<and>
    concat ps = [104, 233, 108, 108, 111] \<and>
    (\<forall>p \<in> set (butlast ps). length p = 2) \<and> (\<forall>p \<in> set ps. 0 < length p \<and> length p \<le> 2)"
  using text_iteration_reassembles [of 2 latin1 "[[104, 233], [108, 108, 111]]" 6]
  by (simp add: latin1_def)

text \<open>C13. Iterating the lines of a body yields exactly the \<^verbatim>\<open>splitlines\<close> of its decoded
  text, whatever the chunk boundaries and the decoder: no line is lost, split or duplicated, a
  CR LF across two chunks included, and the iteration neither panics nor fails.\<close>

theorem line_iteration_splits:
  assumes "length (split_lines (concat (decoded dec (dec_new dec) bs True))) < fuel"
  shows "iter_collect fuel (line_ops dec) (live_new (map Data bs)) (line_start dec) =
    Some (split_lines (concat (decoded dec (dec_new dec) bs True)), None)"
  using line_it.collect_open [of "line_start dec" dec "live_new (map Data bs)" bs "[]" fuel] assms
  by (simp add: line_start_out)

theorem line_iteration_splits_witness:
  "iter_collect 4 (line_ops latin1) (live_new (map Data [[97, 13], [10, 98], [10, 99]])) (line_start latin1) =
    Some (split_lines [97, 13, 10, 98, 10, 99], None)"
  using line_iteration_splits [of latin1 "[[97, 13], [10, 98], [10, 99]]" 4]
  by (simp add: latin1_def split_lines_def is_line_break_def)

end
