(* ===== verification/Rqx_Float.thy ===== *)
theory Rqx_Float
  imports Complex_Main Rqx_Prelude
begin

text \<open>
  The floating-point values of the language: \<^verbatim>\<open>f32\<close> and \<^verbatim>\<open>f64\<close> as the retry, timeout
  and JSON code uses them.  A value is not a number, an infinity or a real; arithmetic is exact
  arithmetic rounded to nearest, ties to even, with overflow to an infinity and gradual underflow.
  The two zeros are one value here: only \<^verbatim>\<open>__repr__\<close> tells them apart (\<open>Rqx_Repr\<close>).
\<close>

datatype fl = NaN | PInf | NInf | Fin real

record fmt =
  prec :: nat
  min_exp :: nat
  max_exp :: nat

text \<open>The least positive value is \<open>2 ^ - min_exp\<close>; every finite one is below \<open>2 ^ max_exp\<close>.\<close>

definition f32 :: fmt where "f32 = \<lparr>prec = 24, min_exp = 149, max_exp = 128\<rparr>"
definition f64 :: fmt where "f64 = \<lparr>prec = 53, min_exp = 1074, max_exp = 1024\<rparr>"

fun bit_length :: "nat \<Rightarrow> nat" where
  "bit_length n = (if n = 0 then 0 else Suc (bit_length (n div 2)))"

declare bit_length.simps [simp del]

lemma bit_length_le: "n < 2 ^ k \<Longrightarrow> bit_length n \<le> k"
proof (induction n arbitrary: k rule: bit_length.induct)
  case (1 n)
  show ?case
  proof (cases "n = 0")
    case True
    then show ?thesis by (subst bit_length.simps) simp
  next
    case False
    with "1.prems" obtain j where k: "k = Suc j" by (cases k) auto
    with "1.prems" have "n div 2 < 2 ^ j" by auto
    with "1.IH" False k show ?thesis by (subst bit_length.simps) simp
  qed
qed

definition round_even :: "real \<Rightarrow> int" where
  "round_even y =
     (let n = \<lfloor>y\<rfloor>; d = y - of_int n in
      if d < 1 / 2 then n else if 1 / 2 < d then n + 1 else if even n then n else n + 1)"

lemma round_even_int [simp]: "round_even (of_int n) = n"
  by (simp add: round_even_def Let_def)

text \<open>The spacing of the values around \<open>x\<close>.\<close>

definition spacing :: "fmt \<Rightarrow> real \<Rightarrow> real" where
  "spacing m x =
     2 ^ (bit_length (nat \<lfloor>\<bar>x\<bar> * 2 ^ min_exp m\<rfloor>) - prec m) / 2 ^ min_exp m"

definition round_fl :: "fmt \<Rightarrow> real \<Rightarrow> fl" where
  "round_fl m x =
     (let r = of_int (round_even (x / spacing m x)) * spacing m x in
      if 2 ^ max_exp m \<le> r then PInf else if r \<le> - (2 ^ max_exp m) then NInf else Fin r)"

text \<open>A real that the format holds exactly.\<close>

definition representable :: "fmt \<Rightarrow> real \<Rightarrow> bool" where
  "representable m x \<longleftrightarrow>
     \<bar>x\<bar> < 2 ^ max_exp m \<and>
     (\<exists>k e. x = of_int k * 2 ^ e / 2 ^ min_exp m \<and> \<bar>k\<bar> < 2 ^ prec m)"

lemma round_even_exact:
  assumes x: "x = of_int k * 2 ^ e / 2 ^ min_exp m" and k: "\<bar>k\<bar> < 2 ^ prec m"
  shows "of_int (round_even (x / spacing m x)) * spacing m x = x"
proof -
  define b where "b = bit_length (nat \<lfloor>\<bar>x\<bar> * 2 ^ min_exp m\<rfloor>) - prec m"
  have "\<bar>x\<bar> * 2 ^ min_exp m = of_int (\<bar>k\<bar> * 2 ^ e)" using x by (simp add: abs_mult)
  then have units: "nat \<lfloor>\<bar>x\<bar> * 2 ^ min_exp m\<rfloor> = nat \<bar>k\<bar> * 2 ^ e"
    by (metis abs_ge_zero floor_of_int nat_mult_distrib nat_power_eq nat_numeral zero_le_numeral)
  have "nat \<bar>k\<bar> < 2 ^ prec m" using k by (simp add: nat_less_iff)
  then have "nat \<bar>k\<bar> * 2 ^ e < 2 ^ (prec m + e)" by (simp add: power_add)
  then have "b \<le> e" unfolding b_def units using bit_length_le by fastforce
  then have "(2::real) ^ e = 2 ^ b * 2 ^ (e - b)" by (simp add: power_add [symmetric])
  then have "x / spacing m x = of_int (k * 2 ^ (e - b))"
    unfolding spacing_def b_def [symmetric] by (simp add: x)
  then show ?thesis
    by (metis round_even_int spacing_def divide_eq_0_iff nonzero_eq_divide_eq power_not_zero zero_neq_numeral)
qed

lemma round_fl_exact:
  assumes "representable m x"
  shows "round_fl m x = Fin x"
proof -
  from assms obtain k e where "x = of_int k * 2 ^ e / 2 ^ min_exp m" "\<bar>k\<bar> < 2 ^ prec m"
    and range: "\<bar>x\<bar> < 2 ^ max_exp m"
    by (auto simp: representable_def)
  from round_even_exact [OF this(1,2)] range show ?thesis
    by (auto simp: round_fl_def Let_def abs_less_iff)
qed

text \<open>The first power of two out of range rounds to infinity.\<close>

lemma round_fl_overflow:
  assumes "0 < prec m" shows "round_fl m (2 ^ max_exp m) = PInf"
proof -
  have "of_int (round_even (2 ^ max_exp m / spacing m (2 ^ max_exp m))) * spacing m (2 ^ max_exp m)
      = (2 ^ max_exp m :: real)"
    using assms by (intro round_even_exact [where k = 1 and e = "max_exp m + min_exp m"]) (auto simp: power_add)
  then show ?thesis by (simp add: round_fl_def)
qed

lemma representable_0 [simp]: "representable m 0"
  by (simp add: representable_def)


section \<open>Arithmetic and comparison\<close>

fun fl_neg :: "fl \<Rightarrow> fl" where
  "fl_neg NaN = NaN"
| "fl_neg PInf = NInf"
| "fl_neg NInf = PInf"
| "fl_neg (Fin x) = Fin (- x)"

fun fl_add :: "fmt \<Rightarrow> fl \<Rightarrow> fl \<Rightarrow> fl" where
  "fl_add m NaN y = NaN"
| "fl_add m x NaN = NaN"
| "fl_add m PInf NInf = NaN"
| "fl_add m NInf PInf = NaN"
| "fl_add m PInf y = PInf"
| "fl_add m NInf y = NInf"
| "fl_add m (Fin x) PInf = PInf"
| "fl_add m (Fin x) NInf = NInf"
| "fl_add m (Fin x) (Fin y) = round_fl m (x + y)"

definition inf_sign :: "bool \<Rightarrow> fl" where
  "inf_sign neg = (if neg then NInf else PInf)"

fun fl_mul :: "fmt \<Rightarrow> fl \<Rightarrow> fl \<Rightarrow> fl" where
  "fl_mul m NaN y = NaN"
| "fl_mul m x NaN = NaN"
| "fl_mul m PInf PInf = PInf"
| "fl_mul m PInf NInf = NInf"
| "fl_mul m NInf PInf = NInf"
| "fl_mul m NInf NInf = PInf"
| "fl_mul m PInf (Fin y) = (if y = 0 then NaN else inf_sign (y < 0))"
| "fl_mul m NInf (Fin y) = (if y = 0 then NaN else inf_sign (0 < y))"
| "fl_mul m (Fin x) PInf = (if x = 0 then NaN else inf_sign (x < 0))"
| "fl_mul m (Fin x) NInf = (if x = 0 then NaN else inf_sign (0 < x))"
| "fl_mul m (Fin x) (Fin y) = round_fl m (x * y)"

fun fl_less :: "fl \<Rightarrow> fl \<Rightarrow> bool" where
  "fl_less NaN y = False"
| "fl_less x NaN = False"
| "fl_less NInf y = (y \<noteq> NInf)"
| "fl_less x NInf = False"
| "fl_less PInf y = False"
| "fl_less (Fin x) PInf = True"
| "fl_less (Fin x) (Fin y) = (x < y)"

text \<open>\<^verbatim>\<open>f32::max\<close> and \<^verbatim>\<open>f32::min\<close>: a NaN gives way to the other argument.\<close>

definition fl_max :: "fl \<Rightarrow> fl \<Rightarrow> fl" where
  "fl_max x y = (if x = NaN then y else if y = NaN then x else if fl_less x y then y else x)"

definition fl_min :: "fl \<Rightarrow> fl \<Rightarrow> fl" where
  "fl_min x y = (if x = NaN then y else if y = NaN then x else if fl_less y x then y else x)"

text \<open>\<^verbatim>\<open>2_f32.powi(n)\<close> for \<open>n \<ge> 0\<close>: repeated multiplication.\<close>

fun fl_powi2 :: "fmt \<Rightarrow> nat \<Rightarrow> fl" where
  "fl_powi2 m 0 = Fin 1"
| "fl_powi2 m (Suc n) = fl_mul m (fl_powi2 m n) (Fin 2)"

lemma representable_scale:
  assumes "representable m x" "\<bar>x * 2 ^ n\<bar> < 2 ^ max_exp m"
  shows "representable m (x * 2 ^ n)"
proof -
  from assms(1) obtain k e where x: "x = of_int k * 2 ^ e / 2 ^ min_exp m" and k: "\<bar>k\<bar> < 2 ^ prec m"
    by (auto simp: representable_def)
  from x have "x * 2 ^ n = of_int k * 2 ^ (e + n) / 2 ^ min_exp m" by (simp add: power_add)
  with k assms(2) show ?thesis unfolding representable_def by blast
qed

lemma representable_1: "0 < prec m \<Longrightarrow> 0 < max_exp m \<Longrightarrow> representable m 1"
  unfolding representable_def
  by (intro conjI exI [of _ 1] exI [of _ "min_exp m"]) auto

lemma fl_powi2_exact:
  assumes "0 < prec m"
  shows "n < max_exp m \<Longrightarrow> fl_powi2 m n = Fin (2 ^ n)"
proof (induction n)
  case 0
  then show ?case by simp
next
  case (Suc n)
  have "(2::real) ^ Suc n < 2 ^ max_exp m" using Suc.prems by (intro power_strict_increasing) auto
  then have "representable m ((1::real) * 2 ^ Suc n)"
    using Suc.prems assms representable_1 [of m] by (intro representable_scale) auto
  then have "round_fl m (2 ^ n * 2) = Fin (2 ^ Suc n)"
    using round_fl_exact by (simp add: mult.commute)
  with Suc show ?case by simp
qed

text \<open>Every value has a place in the order, NaN apart.\<close>

fun fl_le :: "fl \<Rightarrow> fl \<Rightarrow> bool" where
  "fl_le NaN y = False"
| "fl_le x NaN = False"
| "fl_le NInf y = True"
| "fl_le x PInf = True"
| "fl_le (Fin x) (Fin y) = (x \<le> y)"
| "fl_le x y = False"

lemma fl_not_less: "x \<noteq> NaN \<Longrightarrow> y \<noteq> NaN \<Longrightarrow> \<not> fl_less x y \<longleftrightarrow> fl_le y x"
  by (cases x; cases y) auto

lemma fl_le_trans: "fl_le x y \<Longrightarrow> fl_le y z \<Longrightarrow> fl_le x z"
  by (cases x; cases y; cases z) auto

lemma fl_le_refl: "x \<noteq> NaN \<Longrightarrow> fl_le x x"
  by (cases x) auto

lemma fl_min_le: "y \<noteq> NaN \<Longrightarrow> fl_le (fl_min x y) y"
  by (cases x; cases y) (auto simp: fl_min_def)

lemma fl_max_ge: "x \<noteq> NaN \<Longrightarrow> fl_le x (fl_max x y)"
  by (cases x; cases y) (auto simp: fl_max_def)

lemma fl_max_ge2: "y \<noteq> NaN \<Longrightarrow> fl_le y (fl_max x y)"
  by (cases x; cases y) (auto simp: fl_max_def)

lemma fl_max_NaN: "fl_max x y = NaN \<longleftrightarrow> x = NaN \<and> y = NaN"
  by (auto simp: fl_max_def)

lemma fl_min_ge: "fl_le z x \<or> x = NaN \<Longrightarrow> fl_le z y \<Longrightarrow> fl_le z (fl_min x y)"
  by (cases x; cases y; cases z) (auto simp: fl_min_def)


section \<open>Durations\<close>

text \<open>
  \<^verbatim>\<open>Duration::from_secs_f32\<close> and \<^verbatim>\<open>from_secs_f64\<close>: a negative, not finite or too large
  number of seconds panics (\<open>None\<close>); otherwise the seconds, here before they are rounded to
  nanoseconds.
\<close>

fun duration_from_secs :: "fl \<Rightarrow> real option" where
  "duration_from_secs (Fin x) = (if 0 \<le> x \<and> x < 2 ^ 64 then Some x else None)"
| "duration_from_secs _ = None"

end
