(* ===== verification/Rqx_Utf8.thy ===== *)
theory Rqx_Utf8
  imports Rqx_Prelude
begin

text \<open>
  The standard library's UTF-8: \<^verbatim>\<open>String::from_utf8_lossy\<close>, which replaces each maximal
  ill-formed sequence by U+FFFD, and the encoding of a character.  Used where the code counts the
  characters of a body's prefix.
\<close>

definition REPLACEMENT :: uchar where "REPLACEMENT = 0xFFFD"

text \<open>The length of the sequence a first byte announces; 0 when it can start none.\<close>

definition seq_width :: "nat \<Rightarrow> nat" where
  "seq_width b =
     (if b < 128 then 1 else if b < 194 then 0 else if b < 224 then 2
      else if b < 240 then 3 else if b < 245 then 4 else 0)"

definition is_cont :: "nat \<Rightarrow> bool" where
  "is_cont b \<longleftrightarrow> 128 \<le> b \<and> b < 192"

text \<open>The second byte, whose range excludes overlong forms, surrogates and what is past the last
  scalar value.\<close>

definition second_ok :: "nat \<Rightarrow> nat \<Rightarrow> bool" where
  "second_ok b0 b1 \<longleftrightarrow> is_cont b1 \<and>
     (b0 = 0xE0 \<longrightarrow> 0xA0 \<le> b1) \<and> (b0 = 0xED \<longrightarrow> b1 < 0xA0) \<and>
     (b0 = 0xF0 \<longrightarrow> 0x90 \<le> b1) \<and> (b0 = 0xF4 \<longrightarrow> b1 < 0x90)"

text \<open>The first character of a byte string and how many bytes it takes.\<close>

definition utf8_first :: "nat \<Rightarrow> nat list \<Rightarrow> uchar \<times> nat" where
  "utf8_first b0 bs =
     (if seq_width b0 = 1 then (b0, 1)
      else if seq_width b0 = 0 then (REPLACEMENT, 1)
      else (case bs of
          [] \<Rightarrow> (REPLACEMENT, 1)
        | b1 # bs1 \<Rightarrow>
            if \<not> second_ok b0 b1 then (REPLACEMENT, 1)
            else if seq_width b0 = 2 then ((b0 - 192) * 64 + (b1 - 128), 2)
            else (case bs1 of
                [] \<Rightarrow> (REPLACEMENT, 2)
              | b2 # bs2 \<Rightarrow>
                  if \<not> is_cont b2 then (REPLACEMENT, 2)
                  else if seq_width b0 = 3 then
                    ((b0 - 224) * 4096 + (b1 - 128) * 64 + (b2 - 128), 3)
                  else (case bs2 of
                      [] \<Rightarrow> (REPLACEMENT, 3)
                    | b3 # bs3 \<Rightarrow>
                        if \<not> is_cont b3 then (REPLACEMENT, 3)
                        else ((b0 - 240) * 262144 + (b1 - 128) * 4096 + (b2 - 128) * 64 + (b3 - 128), 4)))))"

lemma utf8_first_pos: "0 < snd (utf8_first b bs)" "snd (utf8_first b bs) \<le> Suc (length bs)"
  by (auto simp: utf8_first_def split: list.splits)

function utf8_lossy_nat :: "nat list \<Rightarrow> ustr" where
  "utf8_lossy_nat [] = []"
| "utf8_lossy_nat (b # bs) =
     (case utf8_first b bs of (c, n) \<Rightarrow> c # utf8_lossy_nat (drop n (b # bs)))"
  by pat_completeness auto
termination
  by (relation "measure length") (simp, metis utf8_first_pos(1) snd_conv diff_less length_drop
      length_greater_0_conv list.distinct(1) in_measure)

definition utf8_lossy :: "bytes \<Rightarrow> ustr" where
  "utf8_lossy bs = utf8_lossy_nat (map unat bs)"

text \<open>A character's encoding.\<close>

definition utf8_char :: "uchar \<Rightarrow> nat list" where
  "utf8_char c =
     (if c < 128 then [c]
      else if c < 2048 then [192 + c div 64, 128 + c mod 64]
      else if c < 65536 then [224 + c div 4096, 128 + c div 64 mod 64, 128 + c mod 64]
      else [240 + c div 262144, 128 + c div 4096 mod 64, 128 + c div 64 mod 64, 128 + c mod 64])"

definition utf8_encode :: "ustr \<Rightarrow> bytes" where
  "utf8_encode s = map of_nat (concat (map utf8_char s))"

text \<open>The bytes of a text, as a \<open>string\<close>.\<close>

definition ustr_string :: "ustr \<Rightarrow> string" where
  "ustr_string s = map (\<lambda>b. char_of (unat b)) (utf8_encode s)"

definition scalar :: "uchar \<Rightarrow> bool" where
  "scalar c \<longleftrightarrow> c < 0xD800 \<or> (0xE000 \<le> c \<and> c < 0x110000)"

lemma utf8_char_bytes: "scalar c \<Longrightarrow> b \<in> set (utf8_char c) \<Longrightarrow> b < 256"
  unfolding utf8_char_def scalar_def by (auto split: if_splits)

lemma length_utf8_char [simp]: "length (utf8_char c) = len_utf8 c"
  by (simp add: utf8_char_def len_utf8_def)

lemma length_utf8_encode [simp]: "length (utf8_encode s) = byte_len s"
  by (induction s) (simp_all add: utf8_encode_def)

lemma utf8_encode_append [simp]: "utf8_encode (s @ t) = utf8_encode s @ utf8_encode t"
  by (simp add: utf8_encode_def)

lemma split_div_mod: "(c::nat) = c div 64 * 64 + c mod 64" "c div 64 = c div 4096 * 64 + c div 64 mod 64"
    "c div 4096 = c div 262144 * 64 + c div 4096 mod 64"
proof -
  show "c = c div 64 * 64 + c mod 64" by simp
  have "c div 4096 = c div 64 div 64" by (simp add: div_mult2_eq [symmetric])
  then show "c div 64 = c div 4096 * 64 + c div 64 mod 64" by simp
  have "c div 262144 = c div 4096 div 64" by (simp add: div_mult2_eq [symmetric])
  then show "c div 4096 = c div 262144 * 64 + c div 4096 mod 64" by simp
qed

lemma utf8_first_char:
  assumes "scalar c"
  shows "\<exists>b bs. utf8_char c = b # bs \<and> utf8_first b (bs @ rest) = (c, len_utf8 c)"
proof -
  consider "c < 128" | "128 \<le> c" "c < 2048" | "2048 \<le> c" "c < 65536" | "65536 \<le> c" "c < 0x110000"
    using assms by (force simp: scalar_def)
  then show ?thesis
  proof cases
    case 1
    then show ?thesis by (simp add: utf8_char_def utf8_first_def seq_width_def len_utf8_def)
  next
    case 2
    then have "2 \<le> c div 64" "c div 64 < 32" by auto
    with 2 show ?thesis
      by (simp add: utf8_char_def utf8_first_def seq_width_def len_utf8_def second_ok_def is_cont_def)
  next
    case 3
    define a m l where "a = c div 4096" and "m = c div 64 mod 64" and "l = c mod 64"
    note parts = this
    have c: "c = a * 4096 + m * 64 + l" and b: "m < 64" "l < 64"
      unfolding parts using split_div_mod [of c] by (linarith, simp_all)
    from c b 3 assms have "a < 16" "a = 0 \<Longrightarrow> 32 \<le> m" "a = 13 \<Longrightarrow> m < 32"
      by (auto simp: scalar_def)
    moreover from 3 have "utf8_char c = [224 + a, 128 + m, 128 + l]" "len_utf8 c = 3"
      by (auto simp: utf8_char_def len_utf8_def a_def m_def l_def)
    ultimately show ?thesis
      using b c by (auto simp: utf8_first_def seq_width_def second_ok_def is_cont_def)
  next
    case 4
    define a n m l where "a = c div 262144" and "n = c div 4096 mod 64"
      and "m = c div 64 mod 64" and "l = c mod 64"
    note parts = this
    have c: "c = a * 262144 + n * 4096 + m * 64 + l" and b: "n < 64" "m < 64" "l < 64"
      unfolding parts using split_div_mod [of c] by (linarith, simp_all)
    from c b 4 have "a < 5" "a = 0 \<Longrightarrow> 16 \<le> n" "a = 4 \<Longrightarrow> n < 16"
      by auto
    moreover from 4 have "utf8_char c = [240 + a, 128 + n, 128 + m, 128 + l]" "len_utf8 c = 4"
      by (auto simp: utf8_char_def len_utf8_def a_def n_def m_def l_def)
    ultimately show ?thesis
      using b c by (auto simp: utf8_first_def seq_width_def second_ok_def is_cont_def)
  qed
qed

text \<open>Decoding inverts encoding.\<close>

lemma utf8_lossy_nat_char:
  "scalar c \<Longrightarrow> utf8_lossy_nat (utf8_char c @ rest) = c # utf8_lossy_nat rest"
proof -
  assume s: "scalar c"
  obtain b bs where b: "utf8_char c = b # bs" "utf8_first b (bs @ rest) = (c, len_utf8 c)"
    using utf8_first_char [OF s] by blast
  have "length (b # bs) = len_utf8 c" using b(1) length_utf8_char [of c] by simp
  with b show ?thesis by (metis append_Cons append_eq_conv_conj case_prod_conv utf8_lossy_nat.simps(2))
qed

lemma utf8_lossy_encode: "list_all scalar s \<Longrightarrow> utf8_lossy (utf8_encode s) = s"
proof (induction s)
  case Nil
  then show ?case by (simp add: utf8_lossy_def utf8_encode_def)
next
  case (Cons c s)
  have "map unat (map of_nat (utf8_char c) :: bytes) = utf8_char c"
    using Cons.prems utf8_char_bytes [of c] by (auto simp: unat_of_nat intro!: map_idI)
  with Cons show ?case
    by (simp add: utf8_lossy_def utf8_encode_def utf8_lossy_nat_char del: map_map)
qed

text \<open>A prefix never decodes to more characters than the whole.\<close>

lemma utf8_first_prefix:
  assumes "k \<le> length bs"
  shows "snd (utf8_first b (take k bs)) = min (Suc k) (snd (utf8_first b bs))"
  using assms
  by (auto simp: utf8_first_def take_Cons' split: list.splits)

lemma utf8_prefix_length:
  "length (utf8_lossy_nat (take k bs)) \<le> length (utf8_lossy_nat bs)"
proof (induction bs arbitrary: k rule: utf8_lossy_nat.induct)
  case 1
  then show ?case by simp
next
  case (2 b bs)
  obtain c n where f: "utf8_first b bs = (c, n)" by fastforce
  show ?case
  proof (cases k)
    case 0
    then show ?thesis by simp
  next
    case (Suc j)
    define m where "m = min j (length bs)"
    obtain c' n' where f': "utf8_first b (take j bs) = (c', n')" by fastforce
    have tk: "take j bs = take m bs" by (simp add: m_def min_def)
    have n': "n' = min (Suc m) n"
      using utf8_first_prefix [of m bs b] f f' tk by (simp add: m_def)
    have le: "n \<le> Suc (length bs)" using utf8_first_pos(2) [of b bs] f by simp
    show ?thesis
    proof (cases "n \<le> Suc j")
      case True
      with le n' have "n' = n" by (auto simp: m_def)
      then have "drop n' (b # take j bs) = take (Suc j - n) (drop n (b # bs))"
        by (metis drop_take take_Suc_Cons)
      with "2.IH" [OF f [symmetric], of "Suc j - n"] Suc f f' show ?thesis by simp
    next
      case False
      with n' have "n' = Suc m" by (auto simp: m_def)
      with tk have "drop n' (b # take j bs) = []" by (simp add: m_def)
      with Suc f f' show ?thesis by simp
    qed
  qed
qed

lemma utf8_lossy_prefix: "length (utf8_lossy (take k bs)) \<le> length (utf8_lossy bs)"
  using utf8_prefix_length [of k "map unat bs"] by (simp add: utf8_lossy_def take_map)

end
