(* ===== verification/Rqx_Headers.thy ===== *)
theory Rqx_Headers
  imports Rqx_Error
begin

text \<open>
  \<^verbatim>\<open>rqx-core/src/headers.rs\<close>, \<^verbatim>\<open>rqx/src/headers.rs\<close> and
  \<^verbatim>\<open>rqx/src/request_headers.rs\<close>: the case-insensitive multi-map of headers.

  The container is the \<^verbatim>\<open>HeaderMap\<close> of the \<^verbatim>\<open>http\<close> crate, which is not part of the
  repository.  It is the argument \<open>hm\<close>: the record of the crate functions the code calls.
  \<open>header_map_ok\<close> states what their documentation promises, over \<open>hm_entries\<close>, the
  order in which the map iterates; \<open>assoc_headers\<close> is an association list that keeps the
  promise.
\<close>

record ('h, 'v) header_map =
  hm_name :: "string \<Rightarrow> string + string"
  hm_value :: "string \<Rightarrow> string + 'v"
  hm_to_str :: "'v \<Rightarrow> string option"
  hm_bytes :: "'v \<Rightarrow> bytes"
  hm_empty :: 'h
  hm_entries :: "'h \<Rightarrow> (string \<times> 'v) list"
  hm_keys :: "'h \<Rightarrow> string list"
  hm_keys_len :: "'h \<Rightarrow> nat"
  hm_get :: "string \<Rightarrow> 'h \<Rightarrow> 'v option"
  hm_get_all :: "string \<Rightarrow> 'h \<Rightarrow> 'v list"
  hm_contains :: "string \<Rightarrow> 'h \<Rightarrow> bool"
  hm_append :: "string \<Rightarrow> 'v \<Rightarrow> 'h \<Rightarrow> string + 'h"
  hm_insert :: "string \<Rightarrow> 'v \<Rightarrow> 'h \<Rightarrow> string + 'h"
  hm_remove :: "string \<Rightarrow> 'h \<Rightarrow> 'v option \<times> 'h"

text \<open>
  \<open>hm_name\<close> is \<^verbatim>\<open>HeaderName::from_str\<close>: the canonical (lower-case) name or an error's
  text.  Lookups take any spelling; a spelling that is no header name finds nothing.
\<close>

definition entries_for :: "('h, 'v) header_map \<Rightarrow> string \<Rightarrow> 'h \<Rightarrow> 'v list" where
  "entries_for hm k h = map snd (filter (\<lambda>(n, v). hm_name hm k = Inr n) (hm_entries hm h))"

definition header_map_ok :: "('h, 'v) header_map \<Rightarrow> bool" where
  "header_map_ok hm \<longleftrightarrow>
     hm_entries hm (hm_empty hm) = [] \<and>
     (\<forall>k h. hm_get_all hm k h = entries_for hm k h) \<and>
     (\<forall>k h. hm_get hm k h = (case entries_for hm k h of [] \<Rightarrow> None | v # _ \<Rightarrow> Some v)) \<and>
     (\<forall>k h. hm_contains hm k h \<longleftrightarrow> entries_for hm k h \<noteq> []) \<and>
     (\<forall>h. set (hm_keys hm h) = fst ` set (hm_entries hm h) \<and> distinct (hm_keys hm h)) \<and>
     (\<forall>h. hm_keys_len hm h = length (hm_keys hm h)) \<and>
     (\<forall>k n v h h'. hm_append hm n v h = Inr h' \<longrightarrow>
        entries_for hm k h' = entries_for hm k h @ (if hm_name hm k = Inr n then [v] else [])) \<and>
     (\<forall>k n v h h'. hm_insert hm n v h = Inr h' \<longrightarrow>
        entries_for hm k h' = (if hm_name hm k = Inr n then [v] else entries_for hm k h)) \<and>
     (\<forall>k h. fst (hm_remove hm k h) = hm_get hm k h) \<and>
     (\<forall>k k' h. entries_for hm k' (snd (hm_remove hm k h)) =
        (if hm_name hm k' = hm_name hm k then [] else entries_for hm k' h))"

lemma header_map_laws:
  assumes "header_map_ok hm"
  shows "hm_entries hm (hm_empty hm) = []"
    and "hm_get_all hm k h = entries_for hm k h"
    and "hm_get hm k h = (case entries_for hm k h of [] \<Rightarrow> None | v # _ \<Rightarrow> Some v)"
    and "hm_contains hm k h \<longleftrightarrow> entries_for hm k h \<noteq> []"
    and "set (hm_keys hm h) = fst ` set (hm_entries hm h)"
    and "distinct (hm_keys hm h)"
    and "hm_append hm n v h = Inr h' \<Longrightarrow>
        entries_for hm k h' = entries_for hm k h @ (if hm_name hm k = Inr n then [v] else [])"
    and "hm_insert hm n v h = Inr h' \<Longrightarrow>
        entries_for hm k h' = (if hm_name hm k = Inr n then [v] else entries_for hm k h)"
    and "fst (hm_remove hm k h) = hm_get hm k h"
    and "entries_for hm k' (snd (hm_remove hm k h)) =
        (if hm_name hm k' = hm_name hm k then [] else entries_for hm k' h)"
  by (use assms in \<open>unfold header_map_ok_def, (elim conjE)?, metis?\<close>)+


section \<open>The core type\<close>

text \<open>\<^verbatim>\<open>Headers::try_from_pairs\<close>: the first name or value that is refused ends it.\<close>

fun headers_append_all ::
  "('h, 'v) header_map \<Rightarrow> (string \<times> string) list \<Rightarrow> 'h \<Rightarrow> rqx_error + 'h" where
  "headers_append_all hm [] h = Inr h"
| "headers_append_all hm ((key, val) # pairs) h =
     (case hm_name hm key of
        Inl e \<Rightarrow> Inl (InvalidArgument (''invalid header name '' @ debug_str key @ '': '' @ e))
      | Inr name \<Rightarrow>
          (case hm_value hm val of
             Inl e \<Rightarrow> Inl (InvalidArgument (''invalid header value '' @ debug_str val @ '': '' @ e))
           | Inr v \<Rightarrow>
               (case hm_append hm name v h of
                  Inl e \<Rightarrow> Inl (from_max_size_reached e)
                | Inr h' \<Rightarrow> headers_append_all hm pairs h')))"

definition headers_from_pairs ::
  "('h, 'v) header_map \<Rightarrow> (string \<times> string) list \<Rightarrow> rqx_error + 'h" where
  "headers_from_pairs hm pairs = headers_append_all hm pairs (hm_empty hm)"

definition headers_new ::
  "('h, 'v) header_map \<Rightarrow> (string \<times> string) list option \<Rightarrow> rqx_error + 'h" where
  "headers_new hm raw =
     (case raw of Some pairs \<Rightarrow> headers_from_pairs hm pairs | None \<Rightarrow> Inr (hm_empty hm))"

definition get_first :: "('h, 'v) header_map \<Rightarrow> string \<Rightarrow> 'h \<Rightarrow> string option" where
  "get_first hm key h = Option.bind (hm_get hm key h) (hm_to_str hm)"

definition shown_value :: "('h, 'v) header_map \<Rightarrow> 'v \<Rightarrow> string" where
  "shown_value hm v = (case hm_to_str hm v of Some s \<Rightarrow> s | None \<Rightarrow> [])"

definition get_joined :: "('h, 'v) header_map \<Rightarrow> string \<Rightarrow> 'h \<Rightarrow> rqx_error + string" where
  "get_joined hm key h =
     (let vs = map (shown_value hm) (hm_get_all hm key h) in
      if vs = [] then Inl (MissingKey key) else Inr (join_str '', '' vs))"

definition set_item :: "('h, 'v) header_map \<Rightarrow> string \<Rightarrow> string \<Rightarrow> 'h \<Rightarrow> rqx_error + 'h" where
  "set_item hm key val h =
     (case hm_name hm key of
        Inl e \<Rightarrow> Inl (from_invalid_header_name e)
      | Inr name \<Rightarrow>
          (case hm_value hm val of
             Inl e \<Rightarrow> Inl (from_invalid_header_value e)
           | Inr v \<Rightarrow>
               (case hm_insert hm name v h of
                  Inl e \<Rightarrow> Inl (from_max_size_reached e)
                | Inr h' \<Rightarrow> Inr h')))"

text \<open>\<^verbatim>\<open>delete_item\<close> changes the map even when it reports an error: the state is returned
  with the result.\<close>

definition delete_item :: "('h, 'v) header_map \<Rightarrow> string \<Rightarrow> 'h \<Rightarrow> 'h \<times> (rqx_error + unit)" where
  "delete_item hm key h =
     (case hm_remove hm key h of
        (Some _, h') \<Rightarrow> (h', Inr ())
      | (None, h') \<Rightarrow> (h', Inl (MissingKey key)))"

definition delete_item_safe :: "('h, 'v) header_map \<Rightarrow> string \<Rightarrow> 'h \<Rightarrow> 'h" where
  "delete_item_safe hm key h = snd (hm_remove hm key h)"

definition headers_contains :: "('h, 'v) header_map \<Rightarrow> string \<Rightarrow> 'h \<Rightarrow> bool" where
  "headers_contains hm key h = hm_contains hm key h"

definition headers_length :: "('h, 'v) header_map \<Rightarrow> 'h \<Rightarrow> nat" where
  "headers_length hm h = hm_keys_len hm h"

definition headers_keys :: "('h, 'v) header_map \<Rightarrow> 'h \<Rightarrow> string list" where
  "headers_keys hm h = hm_keys hm h"

definition headers_values :: "('h, 'v) header_map \<Rightarrow> 'h \<Rightarrow> string list" where
  "headers_values hm h = map (shown_value hm \<circ> snd) (hm_entries hm h)"

definition headers_items :: "('h, 'v) header_map \<Rightarrow> 'h \<Rightarrow> (string \<times> string) list" where
  "headers_items hm h = map (\<lambda>(k, v). (k, shown_value hm v)) (hm_entries hm h)"

text \<open>\<^verbatim>\<open>PyHeaders.get\<close>: the joined values, or the default.\<close>

definition headers_get ::
  "('h, 'v) header_map \<Rightarrow> string \<Rightarrow> string option \<Rightarrow> 'h \<Rightarrow> string option" where
  "headers_get hm key dflt h =
     (case get_joined hm key h of Inr s \<Rightarrow> Some s | Inl _ \<Rightarrow> dflt)"


section \<open>The \<open>headers=\<close> argument\<close>

text \<open>
  A Python object as \<^verbatim>\<open>RequestHeaders::extract\<close> sees it: an \<^verbatim>\<open>rqx.Headers\<close>, a
  \<^verbatim>\<open>dict\<close>, some other object with an \<^verbatim>\<open>items\<close> method, or anything else.  An item that
  cannot be fetched or is not a pair is the exception Python raised for it.
\<close>

datatype py_text = PyStr string | NotStr string

fun header_text :: "py_text \<Rightarrow> string \<Rightarrow> py_rqx_error + string" where
  "header_text (PyStr s) role = Inr s"
| "header_text (NotStr type_name) role =
     Inl (Py (new_err PyTypeError (''header '' @ role @ ''s must be str, got '' @ type_name)))"

fun header_pairs :: "(py_err + py_text \<times> py_text) list \<Rightarrow> py_rqx_error + (string \<times> string) list" where
  "header_pairs [] = Inr []"
| "header_pairs (Inl e # items) = Inl (Py e)"
| "header_pairs (Inr (n, v) # items) =
     (case header_text n ''name'' of
        Inl e \<Rightarrow> Inl e
      | Inr n' \<Rightarrow>
          (case header_text v ''value'' of
             Inl e \<Rightarrow> Inl e
           | Inr v' \<Rightarrow>
               (case header_pairs items of
                  Inl e \<Rightarrow> Inl e
                | Inr ps \<Rightarrow> Inr ((n', v') # ps))))"

definition headers_from_items ::
  "('h, 'v) header_map \<Rightarrow> (py_err + py_text \<times> py_text) list \<Rightarrow> py_rqx_error + 'h" where
  "headers_from_items hm items =
     (case header_pairs items of
        Inl e \<Rightarrow> Inl e
      | Inr ps \<Rightarrow> (case headers_from_pairs hm ps of Inl e \<Rightarrow> Inl (Core e) | Inr h \<Rightarrow> Inr h))"

datatype 'h headers_arg =
    RqxHeaders 'h
  | PyDictArg "(py_text \<times> py_text) list"
  | HasItems "py_err + (py_err + py_text \<times> py_text) list"
  | NoItems string

fun headers_extract :: "('h, 'v) header_map \<Rightarrow> 'h headers_arg \<Rightarrow> py_rqx_error + 'h" where
  "headers_extract hm (RqxHeaders h) = Inr h"
| "headers_extract hm (PyDictArg items) = headers_from_items hm (map Inr items)"
| "headers_extract hm (HasItems r) =
     (case r of Inl e \<Rightarrow> Inl (Py e) | Inr items \<Rightarrow> headers_from_items hm items)"
| "headers_extract hm (NoItems type_name) =
     Inl (Py (new_err PyTypeError (''headers must be a mapping or rqx.Headers, got '' @ type_name)))"

text \<open>\<^verbatim>\<open>__eq__\<close>: whatever converts is compared, whatever does not is unequal.\<close>

definition py_headers_eq ::
  "('h, 'v) header_map \<Rightarrow> ('h \<Rightarrow> 'h \<Rightarrow> bool) \<Rightarrow> 'h \<Rightarrow> 'h headers_arg \<Rightarrow> bool" where
  "py_headers_eq hm eq h other =
     (case headers_extract hm other of Inr h' \<Rightarrow> eq h h' | Inl _ \<Rightarrow> False)"


section \<open>A map that keeps the promise\<close>

text \<open>
  Lower-casing ASCII names made of letters, digits and \<open>-\<close>, values of visible characters,
  and a list of entries.
\<close>

definition ascii_lower :: "char \<Rightarrow> char" where
  "ascii_lower c =
     (let n = of_char c :: nat in if 65 \<le> n \<and> n \<le> 90 then char_of (n + 32) else c)"

definition name_char :: "char \<Rightarrow> bool" where
  "name_char c =
     (let n = of_char c :: nat in
      n = 45 \<or> (48 \<le> n \<and> n \<le> 57) \<or> (65 \<le> n \<and> n \<le> 90) \<or> (97 \<le> n \<and> n \<le> 122))"

definition assoc_name :: "string \<Rightarrow> string + string" where
  "assoc_name k =
     (if k \<noteq> [] \<and> list_all name_char k then Inr (map ascii_lower k)
      else Inl ''invalid HTTP header name'')"

definition assoc_value :: "string \<Rightarrow> string + string" where
  "assoc_value v =
     (if list_all (\<lambda>c. (of_char c :: nat) \<ge> 32) v then Inr v
      else Inl ''failed to parse header value'')"

definition assoc_for :: "string \<Rightarrow> (string \<times> 'v) list \<Rightarrow> 'v list" where
  "assoc_for k h = map snd (filter (\<lambda>(n, v). assoc_name k = Inr n) h)"

definition assoc_headers :: "((string \<times> string) list, string) header_map" where
  "assoc_headers =
     \<lparr>hm_name = assoc_name, hm_value = assoc_value, hm_to_str = Some,
      hm_bytes = map (\<lambda>c. of_char c), hm_empty = [], hm_entries = (\<lambda>h. h),
      hm_keys = (\<lambda>h. remdups (map fst h)), hm_keys_len = (\<lambda>h. length (remdups (map fst h))),
      hm_get = (\<lambda>k h. case assoc_for k h of [] \<Rightarrow> None | v # _ \<Rightarrow> Some v),
      hm_get_all = assoc_for, hm_contains = (\<lambda>k h. assoc_for k h \<noteq> []),
      hm_append = (\<lambda>n v h. Inr (h @ [(n, v)])),
      hm_insert = (\<lambda>n v h. Inr (filter (\<lambda>(m, _). m \<noteq> n) h @ [(n, v)])),
      hm_remove = (\<lambda>k h. (case assoc_for k h of [] \<Rightarrow> None | v # _ \<Rightarrow> Some v,
        filter (\<lambda>(m, _). assoc_name k \<noteq> Inr m) h))\<rparr>"

lemma assoc_name_simp [simp]: "hm_name assoc_headers = assoc_name"
  by (simp add: assoc_headers_def)

lemma assoc_entries_for: "entries_for assoc_headers k h = assoc_for k h"
  by (simp add: entries_for_def assoc_for_def assoc_headers_def)

lemma assoc_for_insert:
  "assoc_for k (filter (\<lambda>(m, _). m \<noteq> n) h) = (if assoc_name k = Inr n then [] else assoc_for k h)"
  by (induction h) (auto simp: assoc_for_def)

lemma assoc_for_remove:
  "assoc_for k' (filter (\<lambda>(m, _). assoc_name k \<noteq> Inr m) h) =
     (if assoc_name k' = assoc_name k then [] else assoc_for k' h)"
  by (induction h) (auto simp: assoc_for_def)

lemma assoc_headers_ok [simp]: "header_map_ok assoc_headers"
proof -
  have "assoc_for k (h @ [(n, v)]) = assoc_for k h @ (if assoc_name k = Inr n then [v] else [])"
    for k n h and v :: string
    by (simp add: assoc_for_def)
  then show ?thesis
    unfolding header_map_ok_def assoc_entries_for
    by (auto simp: assoc_headers_def assoc_for_insert assoc_for_remove)
qed


section \<open>What the operations promise\<close>

lemma headers_append_all_entries:
  assumes "header_map_ok hm"
  shows "headers_append_all hm pairs h = Inr h' \<Longrightarrow>
    map Inr (entries_for hm k h') = map Inr (entries_for hm k h) @
      map (\<lambda>(n, v). hm_value hm v) (filter (\<lambda>(n, v). hm_name hm n = hm_name hm k) pairs)"
proof (induction pairs arbitrary: h)
  case Nil
  then show ?case by simp
next
  case (Cons p pairs)
  obtain key val where p: "p = (key, val)" by (cases p)
  from Cons.prems p obtain name v h1 where s: "hm_name hm key = Inr name" "hm_value hm val = Inr v"
    "hm_append hm name v h = Inr h1" "headers_append_all hm pairs h1 = Inr h'"
    by (auto split: sum.splits)
  have "entries_for hm k h1 = entries_for hm k h @ (if hm_name hm k = Inr name then [v] else [])"
    by (rule header_map_laws(7) [OF assms s(3)])
  with Cons.IH [OF s(4)] p s show ?case by (cases "hm_name hm k") auto
qed

text \<open>Assigning a header replaces every value stored under any spelling of the name: whichever
  spelling is looked up afterwards, the answer is the one new value, and every other name answers
  as before.\<close>

theorem set_item_replaces:
  assumes "header_map_ok hm" and "set_item hm key val h = Inr h'"
  shows "\<exists>v. hm_value hm val = Inr v \<and>
    get_joined hm k h' =
      (if hm_name hm k = hm_name hm key then Inr (shown_value hm v) else get_joined hm k h)"
proof -
  from assms(2) obtain name v where s: "hm_name hm key = Inr name" "hm_value hm val = Inr v"
    "hm_insert hm name v h = Inr h'"
    by (auto simp: set_item_def split: sum.splits)
  have "entries_for hm k h' = (if hm_name hm k = Inr name then [v] else entries_for hm k h)"
    by (rule header_map_laws(8) [OF assms(1) s(3)])
  with s show ?thesis
    by (auto simp: get_joined_def header_map_laws(2) [OF assms(1)])
qed

theorem set_item_replaces_witness:
  "get_joined assoc_headers ''ACCEPT'' [(''host'', ''h''), (''accept'', ''c'')] = Inr ''c''"
proof -
  have "set_item assoc_headers ''Accept'' ''c'' [(''accept'', ''a''), (''host'', ''h''), (''accept'', ''b'')] =
      Inr [(''host'', ''h''), (''accept'', ''c'')]"
    by code_simp
  moreover have "assoc_name ''ACCEPT'' = assoc_name ''Accept''"
    "hm_value assoc_headers ''c'' = Inr ''c''" "shown_value assoc_headers ''c'' = ''c''"
    by code_simp+
  ultimately show ?thesis
    using set_item_replaces [OF assoc_headers_ok, of "''Accept''" "''c''" _ _ "''ACCEPT''"] by fastforce
qed

text \<open>Deleting a header removes every value under every spelling of its name and touches no
  other; it reports \<^verbatim>\<open>KeyError\<close> exactly when there was nothing to delete.\<close>

theorem delete_item_removes:
  assumes "header_map_ok hm" and "delete_item hm key h = (h', r)"
  shows "(r = (if headers_contains hm key h then Inr () else Inl (MissingKey key))) \<and>
    \<not> headers_contains hm key h' \<and>
    (if hm_name hm k = hm_name hm key then get_joined hm k h' = Inl (MissingKey k)
     else get_joined hm k h' = get_joined hm k h)"
proof -
  obtain q where rm: "hm_remove hm key h = (q, h')"
    using assms(2) by (cases "hm_remove hm key h") (auto simp: delete_item_def split: option.splits)
  have q: "q = hm_get hm key h"
    using header_map_laws(9) [OF assms(1), of key h] rm by simp
  have gone: "entries_for hm k' h' = (if hm_name hm k' = hm_name hm key then [] else entries_for hm k' h)" for k'
    using header_map_laws(10) [OF assms(1), of k' key h] rm by simp
  show ?thesis
    using assms(2) rm q gone [of key] gone [of k] header_map_laws(3) [OF assms(1), of key h]
    by (auto simp: delete_item_def headers_contains_def get_joined_def header_map_laws(2,4) [OF assms(1)]
        split: option.splits list.splits)
qed

theorem delete_item_removes_witness:
  "\<not> headers_contains assoc_headers ''HOST'' [(''accept'', ''a'')] \<and>
   get_joined assoc_headers ''accept'' [(''accept'', ''a'')] =
     get_joined assoc_headers ''accept'' [(''host'', ''h''), (''accept'', ''a''), (''host'', ''i'')]"
proof -
  have "delete_item assoc_headers ''HOST'' [(''host'', ''h''), (''accept'', ''a''), (''host'', ''i'')] =
      ([(''accept'', ''a'')], Inr ())"
    by code_simp
  moreover have "assoc_name ''accept'' \<noteq> assoc_name ''HOST''" by code_simp
  ultimately show ?thesis
    using delete_item_removes [OF assoc_headers_ok, of "''HOST''" _ _ _ "''accept''"] by fastforce
qed

text \<open>Headers built from pairs keep every value of every name, in the order given: what a
  name answers is its values joined with \<open>, \<close>, and it answers \<^verbatim>\<open>KeyError\<close> exactly
  when no pair names it.\<close>

theorem headers_from_pairs_lookup:
  assumes "header_map_ok hm" and "headers_from_pairs hm pairs = Inr h" and "hm_name hm k = Inr n"
  shows "get_joined hm k h =
    (let vs = map (\<lambda>(_, v). shown_value hm (projr (hm_value hm v)))
       (filter (\<lambda>(m, _). hm_name hm m = Inr n) pairs)
     in if vs = [] then Inl (MissingKey k) else Inr (join_str '', '' vs))"
proof -
  have "entries_for hm k (hm_empty hm) = []"
    by (simp add: entries_for_def header_map_laws(1) [OF assms(1)])
  then have "map Inr (entries_for hm k h) =
      map (\<lambda>(_, v). hm_value hm v) (filter (\<lambda>(m, _). hm_name hm m = Inr n) pairs)"
    using headers_append_all_entries [OF assms(1), of pairs "hm_empty hm" h k] assms(2,3)
    by (simp add: headers_from_pairs_def)
  from arg_cong [OF this, of "map projr"] have "entries_for hm k h =
      map (\<lambda>(_, v). projr (hm_value hm v)) (filter (\<lambda>(m, _). hm_name hm m = Inr n) pairs)"
    by (simp add: comp_def case_prod_unfold)
  then show ?thesis
    by (simp add: get_joined_def header_map_laws(2) [OF assms(1)] Let_def comp_def case_prod_unfold)
qed

theorem headers_from_pairs_lookup_witness:
  "get_joined assoc_headers ''X-a'' [(''x-a'', ''1''), (''b'', ''2''), (''x-a'', ''3'')] = Inr ''1, 3''"
proof -
  have "headers_from_pairs assoc_headers [(''X-A'', ''1''), (''b'', ''2''), (''x-a'', ''3'')] =
      Inr [(''x-a'', ''1''), (''b'', ''2''), (''x-a'', ''3'')]"
    by code_simp
  moreover have "hm_name assoc_headers ''X-a'' = Inr ''x-a''" by code_simp
  ultimately have "get_joined assoc_headers ''X-a'' [(''x-a'', ''1''), (''b'', ''2''), (''x-a'', ''3'')] =
    (let vs = map (\<lambda>(_, v). shown_value assoc_headers (projr (hm_value assoc_headers v)))
       (filter (\<lambda>(m, _). hm_name assoc_headers m = Inr ''x-a'')
          [(''X-A'', ''1''), (''b'', ''2''), (''x-a'', ''3'')])
     in if vs = [] then Inl (MissingKey ''X-a'') else Inr (join_str '', '' vs))"
    by (rule headers_from_pairs_lookup [OF assoc_headers_ok])
  also have "\<dots> = Inr ''1, 3''" by code_simp
  finally show ?thesis .
qed

end
