(* ===== verification/Rqx_Json.thy ===== *)
theory Rqx_Json
  imports Rqx_Float Rqx_Error
begin

text \<open>
  \<^verbatim>\<open>rqx/src/py_json.rs\<close>: the \<^verbatim>\<open>json=\<close> argument encoded to a
  \<^verbatim>\<open>serde_json::Value\<close>, and a parsed value turned back into Python objects.

  Python objects live in a heap: an address gives the object, whose elements are addresses again,
  so shared and cyclic structures are representable.  \<^verbatim>\<open>serde_json\<close> keeps an object's
  members in insertion order (its \<^verbatim>\<open>preserve_order\<close> feature): an association list.
\<close>


section \<open>JSON values\<close>

text \<open>
  \<^verbatim>\<open>serde_json::Number\<close>: an unsigned 64-bit integer, a negative 64-bit one, or a finite
  float.  \<^verbatim>\<open>Number::from\<close> an \<^verbatim>\<open>i64\<close> that is not negative gives the unsigned kind.
\<close>

datatype json_number = PosInt "64 word" | NegInt "64 word" | Float real

datatype json =
    JNull
  | JBool bool
  | JNumber json_number
  | JString string
  | JArray "json list"
  | JObject "(string \<times> json) list"

definition number_from_i64 :: "int \<Rightarrow> json_number" where
  "number_from_i64 i = (if 0 \<le> i then PosInt (word_of_int i) else NegInt (word_of_int i))"

definition number_from_u64 :: "int \<Rightarrow> json_number" where
  "number_from_u64 i = PosInt (word_of_int i)"

fun number_from_f64 :: "fl \<Rightarrow> json_number option" where
  "number_from_f64 (Fin x) = Some (Float x)"
| "number_from_f64 _ = None"

fun as_i64 :: "json_number \<Rightarrow> int option" where
  "as_i64 (PosInt w) = (if uint w < 2 ^ 63 then Some (uint w) else None)"
| "as_i64 (NegInt w) = Some (sint w)"
| "as_i64 (Float _) = None"

fun as_u64 :: "json_number \<Rightarrow> int option" where
  "as_u64 (PosInt w) = Some (uint w)"
| "as_u64 (NegInt _) = None"
| "as_u64 (Float _) = None"

fun as_f64 :: "json_number \<Rightarrow> fl option" where
  "as_f64 (PosInt w) = Some (round_fl f64 (of_int (uint w)))"
| "as_f64 (NegInt w) = Some (round_fl f64 (of_int (sint w)))"
| "as_f64 (Float x) = Some (Fin x)"

text \<open>\<^verbatim>\<open>Map::insert\<close>, and a Python \<^verbatim>\<open>dict\<close>'s item assignment: a key already there keeps
  its place and takes the new value.\<close>

fun map_insert :: "'k \<Rightarrow> 'a \<Rightarrow> ('k \<times> 'a) list \<Rightarrow> ('k \<times> 'a) list" where
  "map_insert k v [] = [(k, v)]"
| "map_insert k v ((k', v') # m) = (if k = k' then (k, v) # m else (k', v') # map_insert k v m)"

lemma map_insert_new: "k \<notin> fst ` set m \<Longrightarrow> map_insert k v m = m @ [(k, v)]"
  by (induction m) auto

lemma map_insert_lookup: "map_of (map_insert k v m) = (map_of m)(k \<mapsto> v)"
  by (induction m) auto


section \<open>Python objects\<close>

text \<open>
  \<open>OStr\<close> is a \<^verbatim>\<open>str\<close> that has UTF-8; one with a lone surrogate has none, and
  \<open>OBadStr\<close> gives it by the exception that \<^verbatim>\<open>to_cow\<close> raises for it.
\<close>

type_synonym addr = nat

datatype py_obj =
    ONone
  | OBool bool
  | OInt int
  | OFloat fl
  | OStr string
  | OBadStr py_err
  | ODict "(addr \<times> addr) list"
  | OList "addr list"
  | OTuple "addr list"
  | OOther string

type_synonym heap = "addr \<Rightarrow> py_obj"


section \<open>Encoding\<close>

definition MAX_DEPTH :: nat where "MAX_DEPTH = 1000"

text \<open>\<^verbatim>\<open>EncodePath::enter\<close>; \<^verbatim>\<open>leave\<close> pops what it pushed, so the path a container's
  elements see is the one \<^verbatim>\<open>enter\<close> returns, for each of them.\<close>

definition path_enter :: "addr \<Rightarrow> addr list \<Rightarrow> py_err + addr list" where
  "path_enter a path =
     (if a \<in> set path then Inl (new_err PyValueError ''Circular reference detected'')
      else if MAX_DEPTH \<le> length path then
        Inl (new_err PyRecursionError ''maximum recursion depth exceeded while encoding a JSON object'')
      else Inr (path @ [a]))"

definition json_int :: "int \<Rightarrow> py_err + json" where
  "json_int i =
     (if - (2 ^ 63) \<le> i \<and> i < 2 ^ 63 then Inr (JNumber (number_from_i64 i))
      else if 0 \<le> i \<and> i < 2 ^ 64 then Inr (JNumber (number_from_u64 i))
      else Inl (new_err PyOverflowError ''Python int too large to encode as JSON (64-bit limit)''))"

definition json_float :: "fl \<Rightarrow> py_err + json" where
  "json_float v =
     (case number_from_f64 v of
        Some n \<Rightarrow> Inr (JNumber n)
      | None \<Rightarrow>
          Inl (new_err PyValueError (''Out of range float values are not JSON compliant: '' @
            (if v = NaN then ''nan'' else if fl_less (Fin 0) v then ''inf'' else ''-inf''))))"

text \<open>
  The key of a member.  \<open>str\<close> is Python's \<^verbatim>\<open>str(obj)\<close>, called on numbers; it may raise.
\<close>

fun json_key :: "(py_obj \<Rightarrow> py_err + string) \<Rightarrow> py_obj \<Rightarrow> string \<Rightarrow> py_err + string" where
  "json_key str (OStr s) type_name = Inr s"
| "json_key str (OBadStr e) type_name = Inl e"
| "json_key str ONone type_name = Inr ''null''"
| "json_key str (OBool b) type_name = Inr (if b then ''true'' else ''false'')"
| "json_key str (OFloat f) type_name =
     (case json_float f of Inl e \<Rightarrow> Inl e | Inr _ \<Rightarrow> str (OFloat f))"
| "json_key str (OInt i) type_name = str (OInt i)"
| "json_key str obj type_name =
     Inl (new_err PyTypeError (''keys must be str, int, float, bool or None, not '' @ type_name))"

fun type_name :: "py_obj \<Rightarrow> string" where
  "type_name ONone = ''NoneType''"
| "type_name (OBool _) = ''bool''"
| "type_name (OInt _) = ''int''"
| "type_name (OFloat _) = ''float''"
| "type_name (OStr _) = ''str''"
| "type_name (OBadStr _) = ''str''"
| "type_name (ODict _) = ''dict''"
| "type_name (OList _) = ''list''"
| "type_name (OTuple _) = ''tuple''"
| "type_name (OOther t) = t"

text \<open>
  \<^verbatim>\<open>JsonBody::encode\<close>, with its two loops over elements and members.  The path grows on the
  way down and is bounded, and the loops consume their lists, so the encoder terminates on every
  heap, cyclic ones included.
\<close>

function (sequential)
  encode :: "heap \<Rightarrow> (py_obj \<Rightarrow> py_err + string) \<Rightarrow> addr list \<Rightarrow> addr \<Rightarrow> py_err + json"
and encode_items ::
  "heap \<Rightarrow> (py_obj \<Rightarrow> py_err + string) \<Rightarrow> addr list \<Rightarrow> addr list \<Rightarrow> py_err + json list"
and encode_members ::
  "heap \<Rightarrow> (py_obj \<Rightarrow> py_err + string) \<Rightarrow> addr list \<Rightarrow> (addr \<times> addr) list \<Rightarrow>
     (string \<times> json) list \<Rightarrow> py_err + (string \<times> json) list"
where
  "encode h str path a =
     (case h a of
        ONone \<Rightarrow> Inr JNull
      | OBool b \<Rightarrow> Inr (JBool b)
      | OInt i \<Rightarrow> json_int i
      | OFloat f \<Rightarrow> json_float f
      | OStr s \<Rightarrow> Inr (JString s)
      | OBadStr e \<Rightarrow> Inl e
      | ODict kvs \<Rightarrow>
          (case path_enter a path of
             Inl e \<Rightarrow> Inl e
           | Inr path' \<Rightarrow>
               (case encode_members h str path' kvs [] of
                  Inl e \<Rightarrow> Inl e | Inr m \<Rightarrow> Inr (JObject m)))
      | OList xs \<Rightarrow>
          (case path_enter a path of
             Inl e \<Rightarrow> Inl e
           | Inr path' \<Rightarrow>
               (case encode_items h str path' xs of Inl e \<Rightarrow> Inl e | Inr vs \<Rightarrow> Inr (JArray vs)))
      | OTuple xs \<Rightarrow>
          (case path_enter a path of
             Inl e \<Rightarrow> Inl e
           | Inr path' \<Rightarrow>
               (case encode_items h str path' xs of Inl e \<Rightarrow> Inl e | Inr vs \<Rightarrow> Inr (JArray vs)))
      | OOther t \<Rightarrow>
          Inl (new_err PyTypeError (''Object of type '' @ t @ '' is not JSON serializable'')))"
| "encode_items h str path [] = Inr []"
| "encode_items h str path (x # xs) =
     (case encode h str path x of
        Inl e \<Rightarrow> Inl e
      | Inr v \<Rightarrow> (case encode_items h str path xs of Inl e \<Rightarrow> Inl e | Inr vs \<Rightarrow> Inr (v # vs)))"
| "encode_members h str path [] m = Inr m"
| "encode_members h str path ((k, x) # kvs) m =
     (case json_key str (h k) (type_name (h k)) of
        Inl e \<Rightarrow> Inl e
      | Inr key \<Rightarrow>
          (case encode h str path x of
             Inl e \<Rightarrow> Inl e
           | Inr v \<Rightarrow> encode_members h str path kvs (map_insert key v m)))"
  by pat_completeness auto
termination
  by (relation "measures
        [case_sum (\<lambda>(h, str, path, a). MAX_DEPTH - length path)
           (case_sum (\<lambda>(h, str, path, xs). MAX_DEPTH - length path)
              (\<lambda>(h, str, path, kvs, m). MAX_DEPTH - length path)),
         case_sum (\<lambda>_. 0)
           (case_sum (\<lambda>(h, str, path, xs). Suc (length xs)) (\<lambda>(h, str, path, kvs, m). Suc (length kvs)))]")
     (auto simp: path_enter_def split: if_splits)

declare encode.simps [simp del]

definition json_body :: "heap \<Rightarrow> (py_obj \<Rightarrow> py_err + string) \<Rightarrow> addr \<Rightarrow> py_err + json" where
  "json_body h str a = encode h str [] a"


section \<open>Decoding\<close>

text \<open>The Python value a JSON value becomes: freshly made objects, so a tree.\<close>

datatype py_tree =
    TNone
  | TBool bool
  | TInt int
  | TFloat fl
  | TStr string
  | TList "py_tree list"
  | TDict "(string \<times> py_tree) list"

fun number_to_py :: "json_number \<Rightarrow> py_err + py_tree" where
  "number_to_py n =
     (case (as_i64 n, as_u64 n, as_f64 n) of
        (Some i, _, _) \<Rightarrow> Inr (TInt i)
      | (None, Some u, _) \<Rightarrow> Inr (TInt u)
      | (None, None, Some f) \<Rightarrow> Inr (TFloat f)
      | (None, None, None) \<Rightarrow> Inl (new_err PyValueError ''invalid JSON number''))"

fun value_to_py :: "json \<Rightarrow> py_err + py_tree"
and values_to_py :: "json list \<Rightarrow> py_err + py_tree list"
and members_to_py ::
  "(string \<times> json) list \<Rightarrow> (string \<times> py_tree) list \<Rightarrow> py_err + (string \<times> py_tree) list"
where
  "value_to_py JNull = Inr TNone"
| "value_to_py (JBool b) = Inr (TBool b)"
| "value_to_py (JString s) = Inr (TStr s)"
| "value_to_py (JNumber n) = number_to_py n"
| "value_to_py (JArray vs) =
     (case values_to_py vs of Inl e \<Rightarrow> Inl e | Inr ts \<Rightarrow> Inr (TList ts))"
| "value_to_py (JObject m) =
     (case members_to_py m [] of Inl e \<Rightarrow> Inl e | Inr d \<Rightarrow> Inr (TDict d))"
| "values_to_py [] = Inr []"
| "values_to_py (v # vs) =
     (case value_to_py v of
        Inl e \<Rightarrow> Inl e
      | Inr t \<Rightarrow> (case values_to_py vs of Inl e \<Rightarrow> Inl e | Inr ts \<Rightarrow> Inr (t # ts)))"
| "members_to_py [] d = Inr d"
| "members_to_py ((k, v) # m) d =
     (case value_to_py v of
        Inl e \<Rightarrow> Inl e
      | Inr t \<Rightarrow> members_to_py m (map_insert k t d))"


section \<open>Cycles and depth\<close>

text \<open>The objects the encoder descends into: elements, and the values of a dict.\<close>

fun elements :: "py_obj \<Rightarrow> addr list" where
  "elements (ODict kvs) = map snd kvs"
| "elements (OList xs) = xs"
| "elements (OTuple xs) = xs"
| "elements _ = []"

definition child :: "heap \<Rightarrow> (addr \<times> addr) set" where
  "child h = {(a, b). b \<in> set (elements (h a))}"

lemma encode_items_each:
  "encode_items h str path xs = Inr vs \<Longrightarrow> x \<in> set xs \<Longrightarrow> \<exists>v. encode h str path x = Inr v"
  by (induction xs arbitrary: vs) (auto split: sum.splits)

lemma encode_members_each:
  "encode_members h str path kvs m = Inr m' \<Longrightarrow> x \<in> snd ` set kvs \<Longrightarrow>
     \<exists>v. encode h str path x = Inr v"
proof (induction kvs arbitrary: m)
  case Nil
  then show ?case by simp
next
  case (Cons p kvs)
  then show ?case by (cases p) (auto split: sum.splits)
qed

lemma encode_child:
  assumes "encode h str path a = Inr v" "(a, b) \<in> child h"
  shows "length path < MAX_DEPTH \<and> (\<exists>w. encode h str (path @ [a]) b = Inr w)"
  using assms encode_items_each encode_members_each
  by (auto simp: encode.simps [of h str path a] child_def path_enter_def
      split: py_obj.splits sum.splits if_splits)

lemma encode_chain:
  "encode h str path a = Inr v \<Longrightarrow> (a, b) \<in> child h ^^ n \<Longrightarrow> length path \<le> MAX_DEPTH \<Longrightarrow>
     length path + n \<le> MAX_DEPTH"
proof (induction n arbitrary: path a v)
  case 0
  then show ?case by simp
next
  case (Suc n)
  from Suc.prems(2) obtain c where c: "(a, c) \<in> child h" "(c, b) \<in> child h ^^ n"
    by (meson relpow_Suc_E2)
  from encode_child [OF Suc.prems(1) c(1)] obtain w where
    "length path < MAX_DEPTH" "encode h str (path @ [a]) c = Inr w" by blast
  with Suc.IH [OF _ c(2), of "path @ [a]"] show ?case by simp
qed

lemma json_body_chain:
  "json_body h str a = Inr v \<Longrightarrow> (a, b) \<in> child h ^^ n \<Longrightarrow> n \<le> MAX_DEPTH"
  using encode_chain [of h str "[]"] by (simp add: json_body_def)

lemma json_body_cycle:
  assumes "(a, b) \<in> (child h)\<^sup>*" and "(b, b) \<in> (child h)\<^sup>+"
  shows "\<exists>e. json_body h str a = Inl e"
proof (cases "json_body h str a")
  case (Inr v)
  from assms(1) obtain m where m: "(a, b) \<in> child h ^^ m" by (auto dest: rtrancl_imp_relpow)
  have loops: "\<exists>n. k \<le> n \<and> (b, b) \<in> child h ^^ n" for k
  proof (induction k)
    case 0
    show ?case by (intro exI [of _ 0]) simp
  next
    case (Suc k)
    then obtain n where n: "k \<le> n" "(b, b) \<in> child h ^^ n" by blast
    from assms(2) obtain i where i: "0 < i" "(b, b) \<in> child h ^^ i"
      by (auto simp: trancl_power)
    from n(2) i(2) have "(b, b) \<in> child h ^^ (n + i)" by (auto simp: relpow_add)
    with n(1) i(1) show ?case by (intro exI [of _ "n + i"]) simp
  qed
  from loops [of "Suc MAX_DEPTH"] obtain n where n: "Suc MAX_DEPTH \<le> n" "(b, b) \<in> child h ^^ n" by blast
  with m have "(a, b) \<in> child h ^^ (m + n)" by (auto simp: relpow_add)
  with json_body_chain [OF Inr] n(1) show ?thesis by fastforce
qed simp

text \<open>An object of the types and ranges JSON has, its own elements apart.\<close>

fun is_str :: "py_obj \<Rightarrow> bool" where
  "is_str (OStr s) = True"
| "is_str _ = False"

fun json_typed :: "heap \<Rightarrow> py_obj \<Rightarrow> bool" where
  "json_typed h (OInt i) = (- (2 ^ 63) \<le> i \<and> i < 2 ^ 64)"
| "json_typed h (OFloat f) = (case f of Fin _ \<Rightarrow> True | _ \<Rightarrow> False)"
| "json_typed h (OBadStr e) = False"
| "json_typed h (OOther t) = False"
| "json_typed h (ODict kvs) = list_all (\<lambda>(k, _). is_str (h k)) kvs"
| "json_typed h _ = True"

text \<open>A set of objects the encoder does not leave, in which all have JSON's types.\<close>

definition json_closed :: "heap \<Rightarrow> addr set \<Rightarrow> bool" where
  "json_closed h R \<longleftrightarrow> (\<forall>a \<in> R. json_typed h (h a) \<and> set (elements (h a)) \<subseteq> R)"

definition circular_reference :: py_err where
  "circular_reference = new_err PyValueError ''Circular reference detected''"

definition nested_too_deep :: py_err where
  "nested_too_deep =
     new_err PyRecursionError ''maximum recursion depth exceeded while encoding a JSON object''"

definition path_error :: "addr set \<Rightarrow> py_err \<Rightarrow> bool" where
  "path_error R e \<longleftrightarrow>
     e = circular_reference \<or> e = nested_too_deep \<and> (finite R \<longrightarrow> MAX_DEPTH < card R)"

lemma path_enter_error:
  assumes "path_enter a path = Inl e" "distinct path" "set path \<subseteq> R" "a \<in> R"
  shows "path_error R e"
proof (cases "a \<in> set path")
  case True
  with assms(1) show ?thesis by (simp add: path_enter_def path_error_def circular_reference_def)
next
  case False
  with assms(1) have long: "MAX_DEPTH \<le> length path" "e = nested_too_deep"
    by (auto simp: path_enter_def nested_too_deep_def split: if_splits)
  have "MAX_DEPTH < card R" if "finite R"
  proof -
    have "Suc (length path) = card (insert a (set path))"
      using assms(2) False by (simp add: distinct_card)
    also have "\<dots> \<le> card R" using assms(3,4) that by (intro card_mono) auto
    finally show ?thesis using long(1) by simp
  qed
  with long(2) show ?thesis by (simp add: path_error_def)
qed

lemma path_enter_path:
  "path_enter a path = Inr path' \<Longrightarrow> distinct path \<Longrightarrow> set path \<subseteq> R \<Longrightarrow> a \<in> R \<Longrightarrow> distinct path' \<and> set path' \<subseteq> R"
  by (auto simp: path_enter_def split: if_splits)

lemma encode_typed_error:
  "json_closed h R \<Longrightarrow> distinct path \<Longrightarrow> set path \<subseteq> R \<Longrightarrow> a \<in> R \<Longrightarrow> encode h str path a = Inl e \<Longrightarrow> path_error R e"
  "json_closed h R \<Longrightarrow> distinct path \<Longrightarrow> set path \<subseteq> R \<Longrightarrow> set xs \<subseteq> R \<Longrightarrow> encode_items h str path xs = Inl e \<Longrightarrow>
    path_error R e"
  "json_closed h R \<Longrightarrow> distinct path \<Longrightarrow> set path \<subseteq> R \<Longrightarrow> snd ` set kvs \<subseteq> R \<Longrightarrow> list_all (\<lambda>(k, _). is_str (h k)) kvs \<Longrightarrow>
    encode_members h str path kvs m = Inl e \<Longrightarrow> path_error R e"
proof (induction h str path a and h str path xs and h str path kvs m arbitrary: e and e and e
    rule: encode_encode_items_encode_members.induct)
  case (1 h str path a)
  from "1.prems"(1,4) have here: "json_typed h (h a)" "set (elements (h a)) \<subseteq> R" by (auto simp: json_closed_def)
  note enter = path_enter_error [OF _ "1.prems"(2,3,4)] path_enter_path [OF _ "1.prems"(2,3,4)]
  note run = "1.prems"(5) [unfolded encode.simps [of h str path a]]
  show ?case
  proof (cases "h a")
    case (ODict kvs)
    with run here "1.IH"(1) [OF ODict _ "1.prems"(1)] enter show ?thesis
      by (fastforce split: sum.splits)
  next
    case (OList xs)
    with run here "1.IH"(2) [OF OList _ "1.prems"(1)] enter show ?thesis
      by (fastforce split: sum.splits)
  next
    case (OTuple xs)
    with run here "1.IH"(3) [OF OTuple _ "1.prems"(1)] enter show ?thesis
      by (fastforce split: sum.splits)
  qed (use run here in \<open>auto simp: json_int_def json_float_def split: if_splits fl.splits\<close>)
next
  case (3 h str path x xs)
  then show ?case by (auto split: sum.splits)
next
  case (5 h str path k x kvs m)
  then obtain s where "h k = OStr s" by (cases "h k") auto
  with 5 show ?case by (auto split: sum.splits)
qed auto

text \<open>C28. An object that reaches a cycle is never encoded: the \<^verbatim>\<open>json=\<close> argument raises
  instead of recursing without end, whatever the heap looks like.  Where every object reached is of a type and range
  that JSON has, dict keys included, the exception is the encoder's own: a \<^verbatim>\<open>ValueError\<close>, or a
  \<^verbatim>\<open>RecursionError\<close>; and where moreover no more than 1000 objects are reached, it is the
  \<^verbatim>\<open>ValueError\<close> that names the circular reference.\<close>

theorem json_cycle_raises:
  assumes "(a, b) \<in> (child h)\<^sup>*" and "(b, b) \<in> (child h)\<^sup>+"
  shows "\<exists>e. json_body h str a = Inl e \<and>
    ((\<forall>c. (a, c) \<in> (child h)\<^sup>* \<longrightarrow> json_typed h (h c)) \<longrightarrow>
       (e = circular_reference \<or> e = nested_too_deep) \<and>
       (finite ((child h)\<^sup>* `` {a}) \<and> card ((child h)\<^sup>* `` {a}) \<le> MAX_DEPTH \<longrightarrow> e = circular_reference))"
proof -
  let ?R = "(child h)\<^sup>* `` {a}"
  obtain e where e: "json_body h str a = Inl e" using json_body_cycle [OF assms] by blast
  have "path_error ?R e" if "\<forall>c. (a, c) \<in> (child h)\<^sup>* \<longrightarrow> json_typed h (h c)"
  proof (rule encode_typed_error(1) [OF _ _ _ _ e [unfolded json_body_def]])
    show "json_closed h ?R"
      using that by (auto simp: json_closed_def child_def intro: rtrancl_into_rtrancl)
  qed auto
  with e show ?thesis unfolding path_error_def by (metis not_le)
qed

theorem json_cycle_raises_witness:
  "json_body (\<lambda>a. if a = 0 then OList [1] else OTuple [1]) (\<lambda>_. Inr []) 0 = Inl circular_reference"
proof -
  let ?h = "\<lambda>a :: addr. if a = 0 then OList [1] else OTuple [1]"
  have reached: "(child ?h)\<^sup>* `` {0} \<subseteq> {0, 1}"
  proof
    fix c assume "c \<in> (child ?h)\<^sup>* `` {0}"
    then have "(0, c) \<in> (child ?h)\<^sup>*" by simp
    then show "c \<in> {0, 1}" by (induction rule: rtrancl_induct) (auto simp: child_def split: if_splits)
  qed
  then have "finite ((child ?h)\<^sup>* `` {0})" "card ((child ?h)\<^sup>* `` {0}) \<le> card {0, 1 :: addr}"
    by (rule finite_subset, simp) (rule card_mono [OF _ reached], simp)
  then have few: "finite ((child ?h)\<^sup>* `` {0}) \<and> card ((child ?h)\<^sup>* `` {0}) \<le> MAX_DEPTH"
    by (simp add: MAX_DEPTH_def)
  have "(0, 1) \<in> (child ?h)\<^sup>*" "(1, 1) \<in> (child ?h)\<^sup>+" by (auto simp: child_def intro: r_into_trancl)
  from json_cycle_raises [OF this, of "\<lambda>_. Inr []"] few show ?thesis by auto
qed


section \<open>A parsed value survives the round trip\<close>

text \<open>A tree of Python objects laid out in the heap at an address.\<close>

inductive lays :: "heap \<Rightarrow> py_tree \<Rightarrow> addr \<Rightarrow> bool" for h where
  lay_none: "h a = ONone \<Longrightarrow> lays h TNone a"
| lay_bool: "h a = OBool b \<Longrightarrow> lays h (TBool b) a"
| lay_int: "h a = OInt i \<Longrightarrow> lays h (TInt i) a"
| lay_float: "h a = OFloat f \<Longrightarrow> lays h (TFloat f) a"
| lay_str: "h a = OStr s \<Longrightarrow> lays h (TStr s) a"
| lay_list: "h a = OList xs \<Longrightarrow> list_all2 (lays h) ts xs \<Longrightarrow> lays h (TList ts) a"
| lay_dict: "h a = ODict kvs \<Longrightarrow>
     list_all2 (\<lambda>s k. h k = OStr s) (map fst d) (map fst kvs) \<Longrightarrow>
     list_all2 (lays h) (map snd d) (map snd kvs) \<Longrightarrow> lays h (TDict d) a"

inductive_cases lays_elims:
  "lays h TNone a" "lays h (TBool b) a" "lays h (TInt i) a" "lays h (TFloat f) a"
  "lays h (TStr s) a" "lays h (TList ts) a" "lays h (TDict d) a"

lemma list_all2_unique:
  "list_all2 (\<lambda>x y. P x y \<and> (\<forall>z. Q z y \<longrightarrow> x = z)) xs ys \<Longrightarrow> list_all2 Q zs ys \<Longrightarrow> xs = zs"
proof (induction ys arbitrary: xs zs)
  case Nil
  then show ?case by simp
next
  case (Cons y ys)
  then show ?case by (auto simp: list_all2_Cons2)
qed

lemma keys_unique:
  "list_all2 (\<lambda>s k. h k = OStr s) ss ks \<Longrightarrow> list_all2 (\<lambda>s k. h k = OStr s) ss' ks \<Longrightarrow> ss = ss'"
proof (induction ks arbitrary: ss ss')
  case Nil
  then show ?case by simp
next
  case (Cons k ks)
  then show ?case by (auto simp: list_all2_Cons2)
qed

lemma lays_unique: "lays h t a \<Longrightarrow> lays h t' a \<Longrightarrow> t = t'"
proof (induction arbitrary: t' rule: lays.induct)
  case (lay_list a xs ts)
  from lay_list.prems lay_list(1) obtain ts' where "t' = TList ts'" "list_all2 (lays h) ts' xs"
    by (cases rule: lays.cases) auto
  with list_all2_unique [OF lay_list(2)] show ?case by simp
next
  case (lay_dict a kvs d)
  from lay_dict.prems lay_dict(1) obtain d' where "t' = TDict d'"
    "list_all2 (\<lambda>s k. h k = OStr s) (map fst d') (map fst kvs)"
    "list_all2 (lays h) (map snd d') (map snd kvs)"
    by (cases rule: lays.cases) auto
  moreover from this have "map fst d = map fst d'" "map snd d = map snd d'"
    using keys_unique [OF lay_dict(2)] list_all2_unique [OF lay_dict(3)] by simp_all
  ultimately show ?case by (metis zip_map_fst_snd)
qed (erule lays.cases; simp)+

text \<open>
  The values a parse can produce: negative numbers in the negative kind only, and no key twice
  in an object.
\<close>

fun json_ok :: "json \<Rightarrow> bool" where
  "json_ok (JNumber (NegInt w)) \<longleftrightarrow> sint w < 0"
| "json_ok (JArray vs) \<longleftrightarrow> list_all json_ok vs"
| "json_ok (JObject m) \<longleftrightarrow> distinct (map fst m) \<and> list_all (\<lambda>(_, v). json_ok v) m"
| "json_ok _ \<longleftrightarrow> True"

fun json_depth :: "json \<Rightarrow> nat" where
  "json_depth (JArray vs) = Suc (foldr max (map json_depth vs) 0)"
| "json_depth (JObject m) = Suc (foldr max (map (\<lambda>(_, v). json_depth v) m) 0)"
| "json_depth _ = 0"

lemma foldr_max_ge: "n \<in> set ns \<Longrightarrow> n \<le> foldr max ns (0::nat)"
  by (induction ns) auto

lemma values_to_py_list:
  "(\<And>v. v \<in> set vs \<Longrightarrow> \<exists>t. value_to_py v = Inr t) \<Longrightarrow>
     \<exists>ts. values_to_py vs = Inr ts \<and> list_all2 (\<lambda>v t. value_to_py v = Inr t) vs ts"
proof (induction vs)
  case Nil
  then show ?case by simp
next
  case (Cons v vs)
  then obtain t ts where "value_to_py v = Inr t" "values_to_py vs = Inr ts"
    "list_all2 (\<lambda>v t. value_to_py v = Inr t) vs ts"
    by (metis list.set_intros(1,2))
  then show ?case by simp
qed

lemma members_to_py_list:
  "(\<And>k v. (k, v) \<in> set m \<Longrightarrow> \<exists>t. value_to_py v = Inr t) \<Longrightarrow> distinct (map fst d @ map fst m) \<Longrightarrow>
     \<exists>m'. members_to_py m d = Inr (d @ m') \<and>
       list_all2 (\<lambda>(k, v) (k', t). k = k' \<and> value_to_py v = Inr t) m m'"
proof (induction m arbitrary: d)
  case Nil
  then show ?case by simp
next
  case (Cons p m)
  obtain k v where p: "p = (k, v)" by (cases p)
  from Cons.prems(1) p obtain t where t: "value_to_py v = Inr t" by (metis list.set_intros(1))
  from Cons.prems(2) p have ins: "map_insert k t d = d @ [(k, t)]"
    by (intro map_insert_new) auto
  have "\<exists>m'. members_to_py m (d @ [(k, t)]) = Inr ((d @ [(k, t)]) @ m') \<and>
       list_all2 (\<lambda>(k, v) (k', t). k = k' \<and> value_to_py v = Inr t) m m'"
    by (rule Cons.IH) (use Cons.prems p in auto)
  then obtain m' where "members_to_py m (d @ [(k, t)]) = Inr (d @ (k, t) # m')"
    "list_all2 (\<lambda>(k, v) (k', t). k = k' \<and> value_to_py v = Inr t) m m'"
    by auto
  with p t ins show ?case by (intro exI [of _ "(k, t) # m'"]) simp
qed

lemma value_to_py_total: "json_ok v \<Longrightarrow> \<exists>t. value_to_py v = Inr t"
proof (induction v)
  case (JNumber n)
  then show ?case by (cases n) auto
next
  case (JArray vs)
  then have "\<And>v. v \<in> set vs \<Longrightarrow> \<exists>t. value_to_py v = Inr t" by (auto simp: list_all_iff)
  then obtain ts where "values_to_py vs = Inr ts" using values_to_py_list [of vs] by blast
  then show ?case by simp
next
  case (JObject m)
  then have "\<And>k v. (k, v) \<in> set m \<Longrightarrow> \<exists>t. value_to_py v = Inr t"
    by (fastforce simp: list_all_iff)
  then obtain d where "members_to_py m [] = Inr d"
    using members_to_py_list [of m "[]"] JObject.prems by auto
  then show ?case by simp
qed auto


lemma encode_items_laid:
  assumes "list_all2 (\<lambda>v t. value_to_py v = Inr t) vs ts" "list_all2 (lays h) ts xs"
    and "\<And>v t x. v \<in> set vs \<Longrightarrow> t \<in> set ts \<Longrightarrow> value_to_py v = Inr t \<Longrightarrow> lays h t x \<Longrightarrow>
      encode h str path x = Inr v"
  shows "encode_items h str path xs = Inr vs"
  using assms
proof (induction xs arbitrary: vs ts)
  case Nil
  then show ?case by simp
next
  case (Cons x xs)
  then obtain t ts' v vs' where eq: "ts = t # ts'" "vs = v # vs'" "value_to_py v = Inr t" "lays h t x"
    "list_all2 (\<lambda>v t. value_to_py v = Inr t) vs' ts'" "list_all2 (lays h) ts' xs"
    by (auto simp: list_all2_Cons1 list_all2_Cons2)
  have "encode_items h str path xs = Inr vs'"
    by (rule Cons.IH [OF eq(5,6)]) (use Cons.prems(3) eq in auto)
  moreover have "encode h str path x = Inr v" using Cons.prems(3) eq by auto
  ultimately show ?case using eq by simp
qed

lemma encode_members_laid:
  assumes "list_all2 (\<lambda>(k, v) (k', t). k = k' \<and> value_to_py v = Inr t) m d"
    and "list_all2 (\<lambda>s k. h k = OStr s) (map fst d) (map fst kvs)"
    and "list_all2 (lays h) (map snd d) (map snd kvs)"
    and "distinct (map fst acc @ map fst m)"
    and "\<And>k v t x. (k, v) \<in> set m \<Longrightarrow> (k, t) \<in> set d \<Longrightarrow> value_to_py v = Inr t \<Longrightarrow> lays h t x \<Longrightarrow>
      encode h str path x = Inr v"
  shows "encode_members h str path kvs acc = Inr (acc @ m)"
  using assms
proof (induction kvs arbitrary: m d acc)
  case Nil
  then show ?case by simp
next
  case (Cons q kvs)
  obtain a x where q: "q = (a, x)" by (cases q)
  from Cons.prems(2,3) q obtain k t d' where d: "d = (k, t) # d'" "h a = OStr k" "lays h t x"
    "list_all2 (\<lambda>s k. h k = OStr s) (map fst d') (map fst kvs)"
    "list_all2 (lays h) (map snd d') (map snd kvs)"
    by (auto simp: list_all2_Cons2 map_eq_Cons_conv)
  from Cons.prems(1) d(1) obtain v m' where m: "m = (k, v) # m'" "value_to_py v = Inr t"
    "list_all2 (\<lambda>(k, v) (k', t). k = k' \<and> value_to_py v = Inr t) m' d'"
    by (auto simp: list_all2_Cons2)
  have ins: "map_insert k v acc = acc @ [(k, v)]"
    using Cons.prems(4) m(1) by (intro map_insert_new) auto
  have "encode_members h str path kvs (acc @ [(k, v)]) = Inr ((acc @ [(k, v)]) @ m')"
    by (rule Cons.IH [OF m(3) d(4,5)]) (use Cons.prems(4,5) m(1) d(1) in auto)
  moreover have "encode h str path x = Inr v" using Cons.prems(5) m d by auto
  ultimately show ?case using q d(2) m(1) ins by simp
qed

text \<open>Objects on the path are strictly larger trees, so a laid-out tree is never mistaken for a
  cycle.\<close>

definition above :: "heap \<Rightarrow> addr list \<Rightarrow> py_tree \<Rightarrow> bool" where
  "above h path t \<longleftrightarrow> (\<forall>p \<in> set path. \<exists>t'. lays h t' p \<and> size t < size t')"

lemma above_enter:
  assumes "above h path t" "lays h t a" "length path < MAX_DEPTH"
  shows "path_enter a path = Inr (path @ [a])"
  using assms lays_unique by (fastforce simp: above_def path_enter_def)

lemma above_child:
  assumes "above h path t" "lays h t a" "size t' < size t"
  shows "above h (path @ [a]) t'"
  using assms unfolding above_def by (auto intro: less_trans)

lemma size_in_list: "t \<in> set ts \<Longrightarrow> size t < size (TList ts)"
  by (induction ts) auto

lemma size_in_dict: "(k, t) \<in> set d \<Longrightarrow> size t < size (TDict d)"
  by (induction d) auto

lemma json_number_back:
  assumes "json_ok (JNumber n)" "number_to_py n = Inr t" "lays h t a"
  shows "encode h str path a = Inr (JNumber n)"
proof (cases n)
  case (PosInt w)
  have "uint w < 2 ^ 64" using uint_lt2p [of w] by simp
  with PosInt assms show ?thesis
    by (auto simp: encode.simps [of h str path a] json_int_def number_from_i64_def number_from_u64_def
        split: if_splits elim: lays_elims)
next
  case (NegInt w)
  have "- (2 ^ 63) \<le> sint w" using sint_greater_eq [of w] by simp
  with NegInt assms show ?thesis
    by (auto simp: encode.simps [of h str path a] json_int_def number_from_i64_def elim: lays_elims)
next
  case (Float x)
  with assms show ?thesis
    by (auto simp: encode.simps [of h str path a] json_float_def elim: lays_elims)
qed

lemma encode_laid:
  "json_ok v \<Longrightarrow> value_to_py v = Inr t \<Longrightarrow> lays h t a \<Longrightarrow> length path + json_depth v \<le> MAX_DEPTH \<Longrightarrow>
     above h path t \<Longrightarrow> encode h str path a = Inr v"
proof (induction v arbitrary: t a path)
  case (JNumber n)
  then show ?case using json_number_back by simp
next
  case (JArray vs)
  have each: "\<exists>t. value_to_py v = Inr t" if "v \<in> set vs" for v
    using that JArray.prems(1) value_to_py_total by (auto simp: list_all_iff)
  from values_to_py_list [of vs] each obtain ts where ts: "values_to_py vs = Inr ts"
    "list_all2 (\<lambda>v t. value_to_py v = Inr t) vs ts" by blast
  from JArray.prems(2) ts(1) have t: "t = TList ts" by simp
  with JArray.prems(3) obtain xs where xs: "h a = OList xs" "list_all2 (lays h) ts xs"
    by (auto elim: lays_elims)
  have "encode_items h str (path @ [a]) xs = Inr vs"
  proof (rule encode_items_laid [OF ts(2) xs(2)])
    fix v t' x assume v: "v \<in> set vs" "t' \<in> set ts" "value_to_py v = Inr t'" "lays h t' x"
    have "json_depth v \<le> foldr max (map json_depth vs) 0" using v(1) by (intro foldr_max_ge) simp
    moreover have "above h (path @ [a]) t'"
      by (rule above_child [OF JArray.prems(5,3)]) (use v(2) size_in_list t in auto)
    ultimately show "encode h str (path @ [a]) x = Inr v"
      using JArray.IH [OF v(1) _ v(3,4), of "path @ [a]"] JArray.prems(1,4) v(1)
      by (auto simp: list_all_iff)
  qed
  moreover have "path_enter a path = Inr (path @ [a])"
    by (rule above_enter [OF JArray.prems(5,3)]) (use JArray.prems(4) in simp)
  ultimately show ?case using xs(1) by (simp add: encode.simps [of h str path a])
next
  case (JObject m)
  have each: "\<exists>t. value_to_py v = Inr t" if "(k, v) \<in> set m" for k v
    using that JObject.prems(1) value_to_py_total by (fastforce simp: list_all_iff)
  from members_to_py_list [of m "[]"] each JObject.prems(1) obtain d where
    d: "members_to_py m [] = Inr d"
    "list_all2 (\<lambda>(k, v) (k', t). k = k' \<and> value_to_py v = Inr t) m d" by auto
  from JObject.prems(2) d(1) have t: "t = TDict d" by simp
  with JObject.prems(3) obtain kvs where kvs: "h a = ODict kvs"
    "list_all2 (\<lambda>s k. h k = OStr s) (map fst d) (map fst kvs)"
    "list_all2 (lays h) (map snd d) (map snd kvs)"
    by (auto elim: lays_elims)
  have "encode_members h str (path @ [a]) kvs [] = Inr ([] @ m)"
  proof (rule encode_members_laid [OF d(2) kvs(2,3)])
    show "distinct (map fst [] @ map fst m)" using JObject.prems(1) by simp
    fix k v t' x assume v: "(k, v) \<in> set m" "(k, t') \<in> set d" "value_to_py v = Inr t'" "lays h t' x"
    have "json_depth v \<le> foldr max (map (\<lambda>(_, v). json_depth v) m) 0"
      using v(1) by (intro foldr_max_ge) force
    moreover have "above h (path @ [a]) t'"
      by (rule above_child [OF JObject.prems(5,3)]) (use v(2) size_in_dict t in auto)
    ultimately show "encode h str (path @ [a]) x = Inr v"
      using JObject.IH [OF v(1) _ _ v(3,4), of "path @ [a]"] JObject.prems(1,4) v(1)
      by (auto simp: list_all_iff)
  qed
  moreover have "path_enter a path = Inr (path @ [a])"
    by (rule above_enter [OF JObject.prems(5,3)]) (use JObject.prems(4) in simp)
  ultimately show ?case using kvs(1) by (simp add: encode.simps [of h str path a])
qed (auto simp: encode.simps [of h str] elim: lays_elims)


text \<open>C18. What \<^verbatim>\<open>response.json()\<close> returns can be sent back as \<^verbatim>\<open>json=\<close>: decoding
  succeeds on every parsed value, and encoding the objects it built gives the same JSON value,
  member order and the full 64-bit integer range included, up to 1000 levels of nesting.\<close>

theorem json_round_trip:
  assumes "json_ok v" and "json_depth v \<le> MAX_DEPTH"
  shows "\<exists>t. value_to_py v = Inr t \<and> (\<forall>h a str. lays h t a \<longrightarrow> json_body h str a = Inr v)"
proof -
  obtain t where "value_to_py v = Inr t" using value_to_py_total [OF assms(1)] by blast
  moreover have "json_body h str a = Inr v" if "lays h t a" for h a str
    unfolding json_body_def
    by (rule encode_laid [OF assms(1) calculation that]) (use assms(2) in \<open>simp_all add: above_def\<close>)
  ultimately show ?thesis by blast
qed

theorem json_round_trip_witness:
  "\<exists>t. value_to_py (JObject [(''b'', JArray [JNumber (PosInt (- 1)), JNull]), (''a'', JBool True)]) = Inr t \<and>
    (\<forall>h a str. lays h t a \<longrightarrow> json_body h str a =
       Inr (JObject [(''b'', JArray [JNumber (PosInt (- 1)), JNull]), (''a'', JBool True)]))"
  by (rule json_round_trip) (simp_all add: MAX_DEPTH_def)

text \<open>Integers: exactly those of 64 bits, signed or unsigned, encode, and to the number that
  reads back as the same integer; every other one is an \<^verbatim>\<open>OverflowError\<close>.\<close>

theorem json_int_range:
  "(case json_int i of
      Inr v \<Rightarrow> - (2 ^ 63) \<le> i \<and> i < 2 ^ 64 \<and> value_to_py v = Inr (TInt i)
    | Inl e \<Rightarrow> (i < - (2 ^ 63) \<or> 2 ^ 64 \<le> i) \<and> exc_class e = PyOverflowError)"
proof -
  have u: "uint (word_of_int i :: 64 word) = i" if "0 \<le> i" "i < 2 ^ 64"
    using that by (simp add: uint_word_of_int take_bit_int_eq_self)
  have s: "sint (word_of_int i :: 64 word) = i" if "- (2 ^ 63) \<le> i" "i < 2 ^ 63"
    using that by (simp add: sint_sbintrunc' signed_take_bit_int_eq_self)
  show ?thesis
    by (auto simp: json_int_def number_from_i64_def number_from_u64_def u s)
qed

end
