(* ===== verification/Rqx_Response.thy ===== *)
theory Rqx_Response
  imports Rqx_Live Rqx_Headers Rqx_Utf8 Rqx_Json
begin

text \<open>
  \<^verbatim>\<open>rqx-core/src/response.rs\<close> and \<^verbatim>\<open>rqx/src/response.rs\<close>: what is known of a
  response before its body, the body read into memory, and the status and JSON errors.

  Of other crates the code uses the header map (\<open>hm\<close>), the encodings of
  \<^verbatim>\<open>encoding_rs\<close> with the charset parameter that \<^verbatim>\<open>mime\<close> finds (\<open>en\<close>), the parser
  of \<^verbatim>\<open>serde_json\<close> (\<open>parse\<close>) and the canonical reason phrases of \<^verbatim>\<open>http\<close>
  (\<open>reason\<close>): arguments of the definitions.  \<open>show_url\<close> is the display of the URL type.
\<close>

type_synonym cookies = "string \<rightharpoonup> string"

text \<open>
  One entry of the retry history: what failed and the attempt's milliseconds, a whole number
  that an \<^verbatim>\<open>f64\<close> holds exactly below \<open>2^53\<close>.
\<close>

type_synonym history = "(string \<times> nat) list"

text \<open>A \<^verbatim>\<open>Duration\<close> in nanoseconds.\<close>

type_synonym duration = nat

record ('h, 'u) response_parts =
  status_code :: u16
  headers :: 'h
  url :: 'u
  elapsed :: duration
  num_retries :: u32
  retry_history :: history
  http_version :: string
  cookies :: cookies
  encoding_override :: "string option"

text \<open>A \<^verbatim>\<open>reqwest::Response\<close>: what the code reads of it, and the body it will deliver.\<close>

record ('h, 'u) http_response =
  hr_status :: u16
  hr_headers :: 'h
  hr_url :: 'u
  hr_version :: string
  hr_cookies :: "(string \<times> string) list"
  hr_body :: net

definition parts_of :: "('h, 'u) http_response \<Rightarrow> ('h, 'u) response_parts" where
  "parts_of r =
     \<lparr>status_code = hr_status r, headers = hr_headers r, url = hr_url r, elapsed = 0,
      num_retries = 0, retry_history = [], http_version = hr_version r,
      cookies = map_of (rev (hr_cookies r)), encoding_override = None\<rparr>"

text \<open>\<^verbatim>\<open>Response::bytes\<close>: every chunk in one buffer, or the error that ended the body.\<close>

fun net_bytes :: "net \<Rightarrow> reqwest_error + bytes" where
  "net_bytes [] = Inr []"
| "net_bytes (Data b # n) = (case net_bytes n of Inl e \<Rightarrow> Inl e | Inr bs \<Rightarrow> Inr (b @ bs))"
| "net_bytes (Fail e # n) = Inl e"

lemma net_bytes_data: "net_bytes (map Data bs) = Inr (concat bs)"
  by (induction bs) auto

lemma net_bytes_fail: "net_bytes (map Data bs @ Fail e # n) = Inl e"
  by (induction bs) auto


section \<open>Pending and buffered responses\<close>

record ('h, 'u) pending =
  parts :: "('h, 'u) response_parts"
  response :: net

definition pending_new :: "('h, 'u) http_response \<Rightarrow> ('h, 'u) pending" where
  "pending_new r = \<lparr>parts = parts_of r, response = hr_body r\<rparr>"

definition with_retries :: "u32 \<Rightarrow> history \<Rightarrow> ('h, 'u) pending \<Rightarrow> ('h, 'u) pending" where
  "with_retries n hist p = p\<lparr>parts := (parts p)\<lparr>num_retries := n, retry_history := hist\<rparr>\<rparr>"

record ('h, 'u) buffered =
  b_parts :: "('h, 'u) response_parts"
  b_body :: bytes

definition pending_read :: "('h, 'u) pending \<Rightarrow> rqx_error + ('h, 'u) buffered" where
  "pending_read p =
     (case net_bytes (response p) of
        Inl e \<Rightarrow> Inl (from_reqwest e)
      | Inr bs \<Rightarrow> Inr \<lparr>b_parts = parts p, b_body = bs\<rparr>)"

text \<open>\<^verbatim>\<open>drain\<close> reads the body for its effect on the connection and ignores what it was.\<close>

definition pending_drain :: "('h, 'u) pending \<Rightarrow> unit" where
  "pending_drain p = (case net_bytes (response p) of _ \<Rightarrow> ())"

definition into_parts :: "('h, 'u) pending \<Rightarrow> ('h, 'u) response_parts \<times> net" where
  "into_parts p = (parts p, response p)"


section \<open>Status\<close>

definition is_informational :: "('h, 'u) response_parts \<Rightarrow> bool" where
  "is_informational p \<longleftrightarrow> 100 \<le> status_code p \<and> status_code p < 200"

definition is_success :: "('h, 'u) response_parts \<Rightarrow> bool" where
  "is_success p \<longleftrightarrow> 200 \<le> status_code p \<and> status_code p < 300"

definition is_redirect :: "('h, 'v) header_map \<Rightarrow> ('h, 'u) response_parts \<Rightarrow> bool" where
  "is_redirect hm p \<longleftrightarrow>
     300 \<le> status_code p \<and> status_code p < 400 \<and> headers_contains hm ''location'' (headers p)"

definition is_client_error :: "('h, 'u) response_parts \<Rightarrow> bool" where
  "is_client_error p \<longleftrightarrow> 400 \<le> status_code p \<and> status_code p < 500"

definition is_server_error :: "('h, 'u) response_parts \<Rightarrow> bool" where
  "is_server_error p \<longleftrightarrow> 500 \<le> status_code p \<and> status_code p < 600"

definition is_error :: "('h, 'u) response_parts \<Rightarrow> bool" where
  "is_error p \<longleftrightarrow> 400 \<le> status_code p \<and> status_code p < 600"

lemmas status_defs =
  is_informational_def is_success_def is_redirect_def is_client_error_def is_server_error_def
  is_error_def

definition status_kind :: "u16 \<Rightarrow> string" where
  "status_kind code =
     (let n = code div 100 in
      if n = 1 then ''Informational response''
      else if n = 3 then ''Redirect response''
      else if n = 4 then ''Client error''
      else if n = 5 then ''Server error''
      else ''Invalid status code'')"

definition status_error ::
  "('h, 'v) header_map \<Rightarrow> (u16 \<Rightarrow> string option) \<Rightarrow> ('u \<Rightarrow> string) \<Rightarrow>
     ('h, 'u) response_parts \<Rightarrow> rqx_error option" where
  "status_error hm reason show_url p =
     (if is_success p then None
      else
        (let code = status_code p;
             shown = show_nat (unat code);
             phrase = (case reason code of Some r \<Rightarrow> r | None \<Rightarrow> []);
             line = status_kind code @ '' '' @ QUOTE @ shown @ '' '' @ phrase @ QUOTE @
               '' for url '' @ QUOTE @ show_url (url p) @ QUOTE @ NEWLINE;
             location =
               (case hm_get hm ''location'' (headers p) of
                  Some v \<Rightarrow>
                    if code \<in> {301, 302, 303, 307, 308} then
                      ''Redirect location: '' @ QUOTE @ ustr_string (utf8_lossy (hm_bytes hm v)) @
                        QUOTE @ NEWLINE
                    else []
                | None \<Rightarrow> [])
         in Some (HTTPStatusError (line @ location @
              ''For more information check: https://developer.mozilla.org/en-US/docs/Web/HTTP/Status/''
              @ shown))))"


section \<open>Encoding and text\<close>

record 'e encodings =
  enc_for_label :: "string \<Rightarrow> 'e option"
  enc_name :: "'e \<Rightarrow> string"
  enc_utf8 :: 'e
  enc_decode :: "'e \<Rightarrow> bytes \<Rightarrow> ustr"
  mime_charset :: "string \<Rightarrow> string option"

definition content_type :: "('h, 'v) header_map \<Rightarrow> ('h, 'u) response_parts \<Rightarrow> string option" where
  "content_type hm p = get_first hm ''content-type'' (headers p)"

definition detect_encoding ::
  "('h, 'v) header_map \<Rightarrow> 'e encodings \<Rightarrow> ('h, 'u) response_parts \<Rightarrow> 'e option" where
  "detect_encoding hm en p =
     Option.bind (Option.bind (content_type hm p) (mime_charset en)) (enc_for_label en)"

definition encoding ::
  "('h, 'v) header_map \<Rightarrow> 'e encodings \<Rightarrow> ('h, 'u) response_parts \<Rightarrow> string" where
  "encoding hm en p =
     (case encoding_override p of
        Some e \<Rightarrow> e
      | None \<Rightarrow>
          (case detect_encoding hm en p of
             Some e \<Rightarrow> map ascii_lower (enc_name en e)
           | None \<Rightarrow> ''utf-8''))"

definition resolved_encoding ::
  "('h, 'v) header_map \<Rightarrow> 'e encodings \<Rightarrow> ('h, 'u) response_parts \<Rightarrow> 'e" where
  "resolved_encoding hm en p =
     (case encoding_override p of
        Some label \<Rightarrow> (case enc_for_label en label of Some e \<Rightarrow> e | None \<Rightarrow> enc_utf8 en)
      | None \<Rightarrow>
          (case detect_encoding hm en p of Some e \<Rightarrow> e | None \<Rightarrow> enc_utf8 en))"

definition parts_text ::
  "('h, 'v) header_map \<Rightarrow> 'e encodings \<Rightarrow> ('h, 'u) response_parts \<Rightarrow> bytes \<Rightarrow> ustr" where
  "parts_text hm en p body = enc_decode en (resolved_encoding hm en p) body"

definition set_encoding :: "string \<Rightarrow> ('h, 'u) response_parts \<Rightarrow> ('h, 'u) response_parts" where
  "set_encoding v p = p\<lparr>encoding_override := Some v\<rparr>"


section \<open>JSON\<close>

text \<open>What the code reads of a \<^verbatim>\<open>serde_json::Error\<close>.\<close>

record serde_error =
  se_line :: nat
  se_column :: nat
  se_text :: string

text \<open>\<^verbatim>\<open>body.split(|b| *b == b'\n')\<close>: always at least one line.\<close>

fun byte_lines :: "bytes \<Rightarrow> bytes list" where
  "byte_lines [] = [[]]"
| "byte_lines (b # bs) =
     (if b = 10 then [] # byte_lines bs
      else (case byte_lines bs of l # ls \<Rightarrow> (b # l) # ls | [] \<Rightarrow> [[b]]))"

definition error_offset :: "bytes \<Rightarrow> serde_error \<Rightarrow> nat" where
  "error_offset body e =
     (if se_line e = 0 then 0
      else min (sum_list (map (\<lambda>l. length l + 1) (take (se_line e - 1) (byte_lines body)))
                + (se_column e - 1)) (length body))"

definition strip_suffix :: "string \<Rightarrow> string \<Rightarrow> string option" where
  "strip_suffix suf s =
     (if length suf \<le> length s \<and> drop (length s - length suf) s = suf
      then Some (take (length s - length suf) s) else None)"

definition json_decode_error ::
  "('h, 'v) header_map \<Rightarrow> ('h, 'u) response_parts \<Rightarrow> bytes \<Rightarrow> serde_error \<Rightarrow> rqx_error" where
  "json_decode_error hm p body e =
     (let doc = utf8_lossy body;
          pos = length (utf8_lossy (take (error_offset body e) body));
          position = '' at line '' @ show_nat (se_line e) @ '' column '' @ show_nat (se_column e);
          reason = (case strip_suffix position (se_text e) of Some r \<Rightarrow> r | None \<Rightarrow> se_text e);
          ct = (case content_type hm p of Some c \<Rightarrow> c | None \<Rightarrow> ''<none>'');
          message = ''response is not JSON (HTTP '' @ show_nat (unat (status_code p)) @
            '', content-type: '' @ ct @ ''): '' @ reason
      in JSONDecodeError \<lparr>jde_message = message, jde_doc = doc, jde_pos = pos\<rparr>)"

definition parts_json ::
  "('h, 'v) header_map \<Rightarrow> (bytes \<Rightarrow> serde_error + json) \<Rightarrow> ('h, 'u) response_parts \<Rightarrow> bytes \<Rightarrow>
     rqx_error + json" where
  "parts_json hm parse p body =
     (case parse body of Inr v \<Rightarrow> Inr v | Inl e \<Rightarrow> Inl (json_decode_error hm p body e))"

definition buffered_text ::
  "('h, 'v) header_map \<Rightarrow> 'e encodings \<Rightarrow> ('h, 'u) buffered \<Rightarrow> ustr" where
  "buffered_text hm en r = parts_text hm en (b_parts r) (b_body r)"

definition buffered_json ::
  "('h, 'v) header_map \<Rightarrow> (bytes \<Rightarrow> serde_error + json) \<Rightarrow> ('h, 'u) buffered \<Rightarrow> rqx_error + json" where
  "buffered_json hm parse r = parts_json hm parse (b_parts r) (b_body r)"


section \<open>The Python response\<close>

text \<open>
  A \<^verbatim>\<open>PyOnceLock\<close> cache: empty, or the object made the first time.  \<^verbatim>\<open>get_or_init\<close>
  makes it only once.
\<close>

definition get_or_init :: "'a \<Rightarrow> 'a option \<Rightarrow> 'a option \<times> 'a" where
  "get_or_init new c = (case c of Some x \<Rightarrow> (c, x) | None \<Rightarrow> (Some new, new))"

record ('h, 'u) py_response =
  pr_inner :: "('h, 'u) buffered"
  pr_content :: "bytes option"
  pr_headers :: "'h option"
  pr_url :: "'u option"

definition py_response_from :: "('h, 'u) buffered \<Rightarrow> ('h, 'u) py_response" where
  "py_response_from b = \<lparr>pr_inner = b, pr_content = None, pr_headers = None, pr_url = None\<rparr>"

definition pr_get_headers :: "('h, 'u) py_response \<Rightarrow> ('h, 'u) py_response \<times> 'h" where
  "pr_get_headers r =
     (case get_or_init (headers (b_parts (pr_inner r))) (pr_headers r) of
        (c, x) \<Rightarrow> (r\<lparr>pr_headers := c\<rparr>, x))"

definition pr_get_url :: "('h, 'u) py_response \<Rightarrow> ('h, 'u) py_response \<times> 'u" where
  "pr_get_url r =
     (case get_or_init (url (b_parts (pr_inner r))) (pr_url r) of
        (c, x) \<Rightarrow> (r\<lparr>pr_url := c\<rparr>, x))"

definition pr_get_content :: "('h, 'u) py_response \<Rightarrow> ('h, 'u) py_response \<times> bytes" where
  "pr_get_content r =
     (case get_or_init (b_body (pr_inner r)) (pr_content r) of
        (c, x) \<Rightarrow> (r\<lparr>pr_content := c\<rparr>, x))"

definition pr_set_encoding :: "string \<Rightarrow> ('h, 'u) py_response \<Rightarrow> ('h, 'u) py_response" where
  "pr_set_encoding v r =
     r\<lparr>pr_inner := (pr_inner r)\<lparr>b_parts := set_encoding v (b_parts (pr_inner r))\<rparr>\<rparr>"

definition pr_text ::
  "('h, 'v) header_map \<Rightarrow> 'e encodings \<Rightarrow> ('h, 'u) py_response \<Rightarrow> ustr" where
  "pr_text hm en r = buffered_text hm en (pr_inner r)"

definition to_py_result :: "rqx_error + json \<Rightarrow> py_rqx_error + py_tree" where
  "to_py_result r =
     (case r of
        Inl e \<Rightarrow> Inl (Core e)
      | Inr v \<Rightarrow> (case value_to_py v of Inl e \<Rightarrow> Inl (Py e) | Inr t \<Rightarrow> Inr t))"

definition pr_json ::
  "('h, 'v) header_map \<Rightarrow> (bytes \<Rightarrow> serde_error + json) \<Rightarrow> ('h, 'u) py_response \<Rightarrow>
     py_rqx_error + py_tree" where
  "pr_json hm parse r = to_py_result (buffered_json hm parse (pr_inner r))"

text \<open>
  \<^verbatim>\<open>raise_for_status\<close>: the response itself, or the exception with the response set as its
  \<^verbatim>\<open>response\<close> attribute.
\<close>

definition raise_for_status ::
  "('h, 'v) header_map \<Rightarrow> (u16 \<Rightarrow> string option) \<Rightarrow> ('u \<Rightarrow> string) \<Rightarrow>
     ('r \<Rightarrow> ('h, 'u) response_parts) \<Rightarrow> 'r \<Rightarrow> (py_err \<times> 'r) + 'r" where
  "raise_for_status hm reason show_url parts_of_r r =
     (case status_error hm reason show_url (parts_of_r r) of
        None \<Rightarrow> Inr r
      | Some e \<Rightarrow> Inl (into_py_err (Core e), r))"


section \<open>What they promise\<close>

lemma error_offset_le: "error_offset body e \<le> length body"
  by (simp add: error_offset_def)

text \<open>C39. The position a JSON error reports counts characters of the document it carries: it
  never exceeds the document's length, whatever the body's bytes and whatever line and column the
  parser named; and for a body that is UTF-8 text it is exactly the number of characters before
  the reported byte offset, when that offset begins a character.\<close>

theorem json_error_position:
  "\<exists>je. json_decode_error hm p body e = JSONDecodeError je \<and>
     jde_doc je = utf8_lossy body \<and> jde_pos je \<le> length (jde_doc je) \<and>
     (\<forall>s k. list_all scalar s \<and> body = utf8_encode s \<and> k \<le> length s \<and>
        error_offset body e = byte_len (take k s) \<longrightarrow> jde_doc je = s \<and> jde_pos je = k)"
proof -
  have "utf8_lossy (take (byte_len (take k s)) (utf8_encode s)) = take k s"
    if "list_all scalar s" for k s
  proof -
    have "utf8_encode s = utf8_encode (take k s) @ utf8_encode (drop k s)"
      by (metis append_take_drop_id utf8_encode_append)
    then have "take (byte_len (take k s)) (utf8_encode s) = utf8_encode (take k s)"
      by (metis append_eq_conv_conj length_utf8_encode)
    moreover have "list_all scalar (take k s)"
      using that by (auto simp: list_all_iff dest: in_set_takeD)
    ultimately show ?thesis by (simp add: utf8_lossy_encode)
  qed
  then show ?thesis
    by (auto simp: json_decode_error_def Let_def utf8_lossy_prefix utf8_lossy_encode)
qed

theorem json_error_position_witness:
  "\<exists>je. json_decode_error assoc_headers
      \<lparr>status_code = 200, headers = [], url = (), elapsed = 0, num_retries = 0, retry_history = [],
       http_version = ''HTTP/1.1'', cookies = Map.empty, encoding_override = None\<rparr>
      (utf8_encode [0xE9, 10, 0x20AC, 63]) \<lparr>se_line = 2, se_column = 4, se_text = ''x''\<rparr> =
      JSONDecodeError je \<and> jde_pos je = 3"
proof -
  let ?p = "\<lparr>status_code = 200, headers = [], url = (), elapsed = 0, num_retries = 0, retry_history = [],
       http_version = ''HTTP/1.1'', cookies = Map.empty, encoding_override = None\<rparr> ::
       ((string \<times> string) list, unit) response_parts"
  let ?s = "[0xE9, 10, 0x20AC, 63] :: ustr"
  let ?e = "\<lparr>se_line = 2, se_column = 4, se_text = ''x''\<rparr>"
  have off: "error_offset (utf8_encode ?s) ?e = byte_len (take 3 ?s)"
    by (simp add: error_offset_def utf8_encode_def utf8_char_def len_utf8_def)
  have "list_all scalar ?s" by (simp add: scalar_def)
  moreover obtain je where je: "json_decode_error assoc_headers ?p (utf8_encode ?s) ?e = JSONDecodeError je"
    "\<forall>s k. list_all scalar s \<and> utf8_encode ?s = utf8_encode s \<and> k \<le> length s \<and>
        error_offset (utf8_encode ?s) ?e = byte_len (take k s) \<longrightarrow> jde_doc je = s \<and> jde_pos je = k"
    using json_error_position [of assoc_headers ?p "utf8_encode ?s" ?e] by blast
  ultimately have "jde_pos je = 3" using off by (metis length_Cons list.size(3) numeral_3_eq_3
      le_add2 plus_1_eq_Suc Suc_le_mono le0)
  with je(1) show ?thesis by blast
qed

text \<open>\<^verbatim>\<open>raise_for_status\<close> returns the response exactly for a 2xx status; otherwise it
  raises \<^verbatim>\<open>HTTPStatusError\<close> with that same response attached.\<close>

theorem raise_for_status_outcome:
  "(case raise_for_status hm reason show_url f r of
      Inr r' \<Rightarrow> r' = r \<and> is_success (f r)
    | Inl (e, r') \<Rightarrow> r' = r \<and> \<not> is_success (f r) \<and> exc_class e = CHTTPStatusError)"
  by (auto simp: raise_for_status_def status_error_def Let_def new_err_def)

text \<open>Of the five classes of status at most one holds, an error is a client or a server error,
  and \<^verbatim>\<open>is_redirect\<close> is the one class that asks for more than the number: a
  \<^verbatim>\<open>Location\<close> header.\<close>

theorem status_classes:
  "length (filter (\<lambda>b. b) [is_informational p, is_success p, is_redirect hm p, is_client_error p,
      is_server_error p]) \<le> 1 \<and>
   (is_error p \<longleftrightarrow> is_client_error p \<or> is_server_error p) \<and>
   (is_redirect hm p \<longleftrightarrow> unat (status_code p) div 100 = 3 \<and>
      headers_contains hm ''location'' (headers p))"
  by (auto simp: status_defs word_less_nat_alt word_le_nat_alt)

end
