(* ===== verification/Rqx_Stream.thy ===== *)
theory Rqx_Stream
  imports Rqx_Iter Rqx_Response
begin

text \<open>
  Stream responses: \<^verbatim>\<open>rqx-core/src/streaming/body.rs\<close> and the response classes of
  \<^verbatim>\<open>rqx/src/stream.rs\<close>.

  A \<^verbatim>\<open>LiveStream\<close> is shared by the response and its iterator, so the live streams are a
  store and a body or an iterator holds an index into it.  The interpreter runs the methods of a
  sync response one at a time: each is one function on the store and the response.  The
  asynchronous response differs in \<^verbatim>\<open>aread\<close>, whose body is out of the response while it
  awaits the network; its calls are the steps of a transition relation.
\<close>

type_synonym handle = nat
type_synonym streams = "live list"

datatype body = Live net | Streaming handle | Buffered bytes

text \<open>\<^verbatim>\<open>Body::close\<close>, \<^verbatim>\<open>close_blocking\<close> and \<^verbatim>\<open>is_closed\<close>.\<close>

fun body_close :: "body \<Rightarrow> streams \<Rightarrow> streams" where
  "body_close (Streaming i) ls = ls[i := live_close (ls ! i)]"
| "body_close (Live _) ls = ls"
| "body_close (Buffered _) ls = ls"

fun body_is_closed :: "(handle \<Rightarrow> bool) \<Rightarrow> body \<Rightarrow> streams \<Rightarrow> bool" where
  "body_is_closed locked (Streaming i) ls = live_is_closed (locked i) (ls ! i)"
| "body_is_closed locked (Live _) ls = False"
| "body_is_closed locked (Buffered _) ls = False"


section \<open>The sync response\<close>

record ('h, 'u) stream_response =
  sr_parts :: "('h, 'u) response_parts"
  sr_body :: "body option"
  sr_content :: "bytes option"
  sr_headers :: "'h option"
  sr_url :: "'u option"

definition sr_from_pending :: "('h, 'u) pending \<Rightarrow> ('h, 'u) stream_response" where
  "sr_from_pending p =
     (case into_parts p of (ps, n) \<Rightarrow>
        \<lparr>sr_parts = ps, sr_body = Some (Live n), sr_content = None, sr_headers = None, sr_url = None\<rparr>)"

definition closed_exc :: py_err where
  "closed_exc = new_err CStreamClosed ''response closed''"

definition consumed_exc :: py_err where
  "consumed_exc = new_err CStreamConsumed ''response already consumed''"

definition buffered_exc :: py_err where
  "buffered_exc = new_err CStreamConsumed
     ''response already read into memory; use .content, .text or .json()''"

definition not_read_exc :: "string \<Rightarrow> py_err" where
  "not_read_exc how = new_err CResponseNotRead (''response not read; call '' @ how @ ''() first'')"

lemmas stream_excs = closed_exc_def consumed_exc_def buffered_exc_def not_read_exc_def

definition checked_chunk_size :: "nat option \<Rightarrow> py_err + nat option" where
  "checked_chunk_size n =
     (if n = Some 0 then Inl (new_err PyValueError ''chunk_size must be at least 1'') else Inr n)"

definition sr_start_stream ::
  "('h, 'u) stream_response \<Rightarrow> streams \<Rightarrow> ('h, 'u) stream_response \<times> streams \<times> (py_err + handle)"
  where
  "sr_start_stream r ls =
     (case sr_body r of
        Some (Live n) \<Rightarrow>
          (r\<lparr>sr_body := Some (Streaming (length ls))\<rparr>, ls @ [live_new n], Inr (length ls))
      | Some (Streaming i) \<Rightarrow> (r, ls, Inl consumed_exc)
      | Some (Buffered b) \<Rightarrow> (r, ls, Inl buffered_exc)
      | None \<Rightarrow> (r, ls, Inl closed_exc))"

text \<open>An iterator: its handle on the stream and its own state.\<close>

record 'it body_iter =
  bit_stream :: handle
  bit_state :: 'it

definition open_iter ::
  "'it \<Rightarrow> ('h, 'u) stream_response \<Rightarrow> streams \<Rightarrow>
     ('h, 'u) stream_response \<times> streams \<times> (py_err + 'it body_iter)" where
  "open_iter it r ls =
     (case sr_start_stream r ls of (r', ls', q) \<Rightarrow>
        (r', ls', map_sum id (\<lambda>i. \<lparr>bit_stream = i, bit_state = it\<rparr>) q))"

definition sr_iter_bytes ::
  "nat option \<Rightarrow> ('h, 'u) stream_response \<Rightarrow> streams \<Rightarrow>
     ('h, 'u) stream_response \<times> streams \<times> (py_err + byte_iter body_iter)" where
  "sr_iter_bytes chunk_size r ls =
     (case checked_chunk_size chunk_size of
        Inl e \<Rightarrow> (r, ls, Inl e)
      | Inr n \<Rightarrow> open_iter (byte_start n) r ls)"

definition sr_iter_text ::
  "('h, 'v) header_map \<Rightarrow> 'e encodings \<Rightarrow> ('e \<Rightarrow> 'd decoder) \<Rightarrow> nat option \<Rightarrow>
     ('h, 'u) stream_response \<Rightarrow> streams \<Rightarrow>
     ('h, 'u) stream_response \<times> streams \<times> (py_err + 'd text_iter body_iter)" where
  "sr_iter_text hm en dec chunk_size r ls =
     (case checked_chunk_size chunk_size of
        Inl e \<Rightarrow> (r, ls, Inl e)
      | Inr n \<Rightarrow> open_iter (text_start (dec (resolved_encoding hm en (sr_parts r))) n) r ls)"

definition sr_iter_lines ::
  "('h, 'v) header_map \<Rightarrow> 'e encodings \<Rightarrow> ('e \<Rightarrow> 'd decoder) \<Rightarrow>
     ('h, 'u) stream_response \<Rightarrow> streams \<Rightarrow>
     ('h, 'u) stream_response \<times> streams \<times> (py_err + 'd line_iter body_iter)" where
  "sr_iter_lines hm en dec r ls =
     open_iter (line_start (dec (resolved_encoding hm en (sr_parts r)))) r ls"

text \<open>One call of an iterator's \<^verbatim>\<open>__next__\<close>.\<close>

definition iter_step ::
  "('it, 'p) iter_ops \<Rightarrow> 'it body_iter \<Rightarrow> streams \<Rightarrow>
     ('it body_iter \<times> streams \<times> (rqx_error + 'p option)) option" where
  "iter_step ops it ls =
     map_option (\<lambda>(l, st, q). (it\<lparr>bit_state := st\<rparr>, ls[bit_stream it := l], q))
       (iter_next ops (ls ! bit_stream it) (bit_state it))"

definition sr_close ::
  "('h, 'u) stream_response \<Rightarrow> streams \<Rightarrow> ('h, 'u) stream_response \<times> streams" where
  "sr_close r ls =
     (case sr_body r of
        Some b \<Rightarrow> (r\<lparr>sr_body := None\<rparr>, body_close b ls)
      | None \<Rightarrow> (r, ls))"

definition sr_get_content ::
  "('h, 'u) stream_response \<Rightarrow> ('h, 'u) stream_response \<times> (py_err + bytes)" where
  "sr_get_content r =
     (case sr_body r of
        Some (Buffered b) \<Rightarrow>
          (case get_or_init b (sr_content r) of (c, x) \<Rightarrow> (r\<lparr>sr_content := c\<rparr>, Inr x))
      | Some _ \<Rightarrow> (r, Inl (not_read_exc ''read''))
      | None \<Rightarrow> (r, Inl closed_exc))"

text \<open>
  \<^verbatim>\<open>read\<close>.  \<open>rt\<close> is the failure of \<^verbatim>\<open>RUNTIME.block_on\<close> itself, when the runtime
  could not be built or is shut down; the body is already out of the response then, as it is when
  the network fails.
\<close>

definition sr_read ::
  "py_err option \<Rightarrow> ('h, 'u) stream_response \<Rightarrow> ('h, 'u) stream_response \<times> (py_rqx_error + bytes)" where
  "sr_read rt r =
     (let finish = (\<lambda>r'. case sr_get_content r' of (r'', q) \<Rightarrow> (r'', map_sum Py id q)) in
      case sr_body r of
        Some (Live n) \<Rightarrow>
          (case rt of
             Some e \<Rightarrow> (r\<lparr>sr_body := None\<rparr>, Inl (Py e))
           | None \<Rightarrow>
               (case net_bytes n of
                  Inl e \<Rightarrow> (r\<lparr>sr_body := None\<rparr>, Inl (Core (from_reqwest e)))
                | Inr bs \<Rightarrow> finish (r\<lparr>sr_body := Some (Buffered bs)\<rparr>)))
      | Some (Streaming i) \<Rightarrow> (r, Inl (Py consumed_exc))
      | Some (Buffered b) \<Rightarrow> finish r
      | None \<Rightarrow> (r, Inl (Py closed_exc)))"

definition with_buffered ::
  "string \<Rightarrow> body option \<Rightarrow> (bytes \<Rightarrow> py_rqx_error + 'a) \<Rightarrow> py_rqx_error + 'a" where
  "with_buffered how b f =
     (case b of
        Some (Buffered bs) \<Rightarrow> f bs
      | Some _ \<Rightarrow> Inl (Py (not_read_exc how))
      | None \<Rightarrow> Inl (Py closed_exc))"

definition sr_text ::
  "('h, 'v) header_map \<Rightarrow> 'e encodings \<Rightarrow> ('h, 'u) stream_response \<Rightarrow> py_rqx_error + ustr" where
  "sr_text hm en r =
     with_buffered ''read'' (sr_body r) (\<lambda>bs. Inr (parts_text hm en (sr_parts r) bs))"

definition sr_json ::
  "('h, 'v) header_map \<Rightarrow> (bytes \<Rightarrow> serde_error + json) \<Rightarrow> ('h, 'u) stream_response \<Rightarrow>
     py_rqx_error + py_tree" where
  "sr_json hm parse r =
     with_buffered ''read'' (sr_body r) (\<lambda>bs. to_py_result (parts_json hm parse (sr_parts r) bs))"

definition sr_get_headers ::
  "('h, 'u) stream_response \<Rightarrow> ('h, 'u) stream_response \<times> 'h" where
  "sr_get_headers r =
     (case get_or_init (headers (sr_parts r)) (sr_headers r) of (c, x) \<Rightarrow> (r\<lparr>sr_headers := c\<rparr>, x))"

definition sr_get_url :: "('h, 'u) stream_response \<Rightarrow> ('h, 'u) stream_response \<times> 'u" where
  "sr_get_url r =
     (case get_or_init (url (sr_parts r)) (sr_url r) of (c, x) \<Rightarrow> (r\<lparr>sr_url := c\<rparr>, x))"

definition sr_set_encoding :: "string \<Rightarrow> ('h, 'u) stream_response \<Rightarrow> ('h, 'u) stream_response" where
  "sr_set_encoding v r = r\<lparr>sr_parts := set_encoding v (sr_parts r)\<rparr>"

definition sr_is_closed :: "(handle \<Rightarrow> bool) \<Rightarrow> ('h, 'u) stream_response \<Rightarrow> streams \<Rightarrow> bool" where
  "sr_is_closed locked r ls =
     (case sr_body r of None \<Rightarrow> True | Some b \<Rightarrow> body_is_closed locked b ls)"

definition sr_is_consumed :: "('h, 'u) stream_response \<Rightarrow> bool" where
  "sr_is_consumed r \<longleftrightarrow> (case sr_body r of Some (Live _) \<Rightarrow> False | _ \<Rightarrow> True)"



section \<open>The asynchronous response\<close>

text \<open>
  The body slot is shared with the futures of \<^verbatim>\<open>aread\<close>.  \<open>as_reading\<close> holds the
  bodies those futures are awaiting; every other method is one critical section.
\<close>

record ('h, 'u) async_response =
  as_parts :: "('h, 'u) response_parts"
  as_body :: "body option"
  as_content :: "bytes option"
  as_headers :: "'h option"
  as_url :: "'u option"
  as_reading :: "net list"
  as_streams :: streams

definition as_from_pending :: "('h, 'u) pending \<Rightarrow> ('h, 'u) async_response" where
  "as_from_pending p =
     (case into_parts p of (ps, n) \<Rightarrow>
        \<lparr>as_parts = ps, as_body = Some (Live n), as_content = None, as_headers = None, as_url = None,
          as_reading = [], as_streams = []\<rparr>)"

definition as_start_stream ::
  "('h, 'u) async_response \<Rightarrow> ('h, 'u) async_response \<times> (py_err + handle)" where
  "as_start_stream r =
     (case as_body r of
        Some (Live n) \<Rightarrow>
          (r\<lparr>as_body := Some (Streaming (length (as_streams r))),
             as_streams := as_streams r @ [live_new n]\<rparr>, Inr (length (as_streams r)))
      | Some (Streaming i) \<Rightarrow> (r, Inl consumed_exc)
      | Some (Buffered b) \<Rightarrow> (r, Inl buffered_exc)
      | None \<Rightarrow> (r, Inl closed_exc))"

text \<open>
  \<^verbatim>\<open>aread\<close> up to its await: it returns at once, or leaves with the live body and nothing
  in the slot (\<open>None\<close>).
\<close>

definition aread_take ::
  "('h, 'u) async_response \<Rightarrow> ('h, 'u) async_response \<times> (py_rqx_error + bytes) option" where
  "aread_take r =
     (case as_body r of
        Some (Live n) \<Rightarrow> (r\<lparr>as_body := None, as_reading := as_reading r @ [n]\<rparr>, None)
      | Some (Buffered b) \<Rightarrow> (r, Some (Inr b))
      | Some (Streaming i) \<Rightarrow> (r, Some (Inl (Py consumed_exc)))
      | None \<Rightarrow> (r, Some (Inl (Py closed_exc))))"

text \<open>\<^verbatim>\<open>aread\<close> after its await, for the \<open>k\<close>th waiting future.\<close>

definition remove_nth :: "nat \<Rightarrow> 'a list \<Rightarrow> 'a list" where
  "remove_nth k xs = take k xs @ drop (Suc k) xs"

definition aread_store ::
  "nat \<Rightarrow> ('h, 'u) async_response \<Rightarrow> ('h, 'u) async_response \<times> (py_rqx_error + bytes)" where
  "aread_store k r =
     (let r' = r\<lparr>as_reading := remove_nth k (as_reading r)\<rparr> in
      case net_bytes (as_reading r ! k) of
        Inl e \<Rightarrow> (r', Inl (Core (from_reqwest e)))
      | Inr bs \<Rightarrow> (r'\<lparr>as_body := Some (Buffered bs)\<rparr>, Inr bs))"

text \<open>\<^verbatim>\<open>take_body\<close>, and \<^verbatim>\<open>aclose\<close>, which closes what it took.\<close>

definition take_body :: "('h, 'u) async_response \<Rightarrow> ('h, 'u) async_response \<times> body option" where
  "take_body r = (r\<lparr>as_body := None\<rparr>, as_body r)"

definition aclose :: "('h, 'u) async_response \<Rightarrow> ('h, 'u) async_response" where
  "aclose r =
     (case take_body r of
        (r', Some b) \<Rightarrow> r'\<lparr>as_streams := body_close b (as_streams r')\<rparr>
      | (r', None) \<Rightarrow> r')"

definition as_get_content ::
  "('h, 'u) async_response \<Rightarrow> ('h, 'u) async_response \<times> (py_err + bytes)" where
  "as_get_content r =
     (case as_body r of
        Some (Buffered b) \<Rightarrow>
          (case get_or_init b (as_content r) of (c, x) \<Rightarrow> (r\<lparr>as_content := c\<rparr>, Inr x))
      | Some _ \<Rightarrow> (r, Inl (not_read_exc ''aread''))
      | None \<Rightarrow> (r, Inl closed_exc))"

definition as_text ::
  "('h, 'v) header_map \<Rightarrow> 'e encodings \<Rightarrow> ('h, 'u) async_response \<Rightarrow> py_rqx_error + ustr" where
  "as_text hm en r =
     with_buffered ''aread'' (as_body r) (\<lambda>bs. Inr (parts_text hm en (as_parts r) bs))"

definition as_json ::
  "('h, 'v) header_map \<Rightarrow> (bytes \<Rightarrow> serde_error + json) \<Rightarrow> ('h, 'u) async_response \<Rightarrow>
     py_rqx_error + py_tree" where
  "as_json hm parse r =
     with_buffered ''aread'' (as_body r) (\<lambda>bs. to_py_result (parts_json hm parse (as_parts r) bs))"

definition as_get_headers :: "('h, 'u) async_response \<Rightarrow> ('h, 'u) async_response \<times> 'h" where
  "as_get_headers r =
     (case get_or_init (headers (as_parts r)) (as_headers r) of (c, x) \<Rightarrow> (r\<lparr>as_headers := c\<rparr>, x))"

definition as_get_url :: "('h, 'u) async_response \<Rightarrow> ('h, 'u) async_response \<times> 'u" where
  "as_get_url r = (case get_or_init (url (as_parts r)) (as_url r) of (c, x) \<Rightarrow> (r\<lparr>as_url := c\<rparr>, x))"

definition as_set_encoding :: "string \<Rightarrow> ('h, 'u) async_response \<Rightarrow> ('h, 'u) async_response" where
  "as_set_encoding v r = r\<lparr>as_parts := set_encoding v (as_parts r)\<rparr>"

definition as_is_closed :: "(handle \<Rightarrow> bool) \<Rightarrow> ('h, 'u) async_response \<Rightarrow> bool" where
  "as_is_closed locked r =
     (case as_body r of None \<Rightarrow> True | Some b \<Rightarrow> body_is_closed locked b (as_streams r))"

definition as_is_consumed :: "('h, 'u) async_response \<Rightarrow> bool" where
  "as_is_consumed r \<longleftrightarrow> (case as_body r of Some (Live _) \<Rightarrow> False | _ \<Rightarrow> True)"

text \<open>
  Any interleaving of the response's calls, of its iterators' reads, and of the ends of
  the reads under way, a cancelled one included.
\<close>

inductive as_step :: "('h, 'u) async_response \<Rightarrow> ('h, 'u) async_response \<Rightarrow> bool" where
  step_stream: "as_start_stream r = (r', q) \<Longrightarrow> as_step r r'"
| step_take: "aread_take r = (r', q) \<Longrightarrow> as_step r r'"
| step_store: "k < length (as_reading r) \<Longrightarrow> aread_store k r = (r', q) \<Longrightarrow> as_step r r'"
| step_cancel: "k < length (as_reading r) \<Longrightarrow>
     as_step r (r\<lparr>as_reading := remove_nth k (as_reading r)\<rparr>)"
| step_close: "as_step r (aclose r)"
| step_content: "as_get_content r = (r', q) \<Longrightarrow> as_step r r'"
| step_iter: "i < length (as_streams r) \<Longrightarrow>
     as_step r (r\<lparr>as_streams := (as_streams r)[i := fst (live_next (as_streams r ! i))]\<rparr>)"
| step_encoding: "as_step r (as_set_encoding v r)"
| step_headers: "as_step r (fst (as_get_headers r))"
| step_url: "as_step r (fst (as_get_url r))"

inductive as_reach :: "('h, 'u) pending \<Rightarrow> ('h, 'u) async_response \<Rightarrow> bool" for p where
  as_reach_init: "as_reach p (as_from_pending p)"
| as_reach_step: "as_reach p r \<Longrightarrow> as_step r r' \<Longrightarrow> as_reach p r'"

text \<open>
  The body has one owner: the slot, one waiting read, the streams, or nobody; and every buffer
  ever kept is the whole body.
\<close>

definition as_owned :: "net \<Rightarrow> ('h, 'u) async_response \<Rightarrow> bool" where
  "as_owned n r \<longleftrightarrow>
     (if as_streams r \<noteq> [] then as_reading r = [] \<and> length (as_streams r) = 1 \<and>
        (as_body r = None \<or> as_body r = Some (Streaming 0)) \<and> as_content r = None
      else
        (as_reading r = [] \<or> as_reading r = [n]) \<and>
        (case as_body r of
           None \<Rightarrow> True
         | Some (Live m) \<Rightarrow> m = n \<and> as_reading r = [] \<and> as_content r = None
         | Some (Streaming i) \<Rightarrow> False
         | Some (Buffered b) \<Rightarrow> net_bytes n = Inr b \<and> as_reading r = []) \<and>
        (as_reading r \<noteq> [] \<longrightarrow> as_content r = None) \<and>
        (case as_content r of None \<Rightarrow> True | Some b \<Rightarrow> net_bytes n = Inr b))"

lemmas as_defs =
  as_from_pending_def as_start_stream_def aread_take_def aread_store_def take_body_def aclose_def
  as_get_content_def into_parts_def get_or_init_def remove_nth_def Let_def

lemma as_owned_step: "as_step r r' \<Longrightarrow> as_owned n r \<Longrightarrow> as_owned n r'"
proof (induction rule: as_step.induct)
  case (step_stream r r' q)
  then show ?case
    by (auto simp: as_defs as_owned_def split: option.splits body.splits if_splits)
next
  case (step_take r r' q)
  then show ?case
    by (auto simp: as_defs as_owned_def split: option.splits body.splits if_splits)
next
  case (step_store k r r' q)
  then show ?case
    by (auto simp: as_defs as_owned_def split: option.splits body.splits if_splits sum.splits)
next
  case (step_cancel k r)
  then show ?case
    by (auto simp: as_defs as_owned_def split: option.splits body.splits if_splits)
next
  case (step_close r)
  then show ?case
    by (auto simp: as_defs as_owned_def split: option.splits body.splits if_splits)
next
  case (step_content r r' q)
  then show ?case
    by (auto simp: as_defs as_owned_def split: option.splits body.splits if_splits)
next
  case (step_iter i r)
  then show ?case by (auto simp: as_owned_def)
next
  case (step_encoding r v)
  then show ?case by (auto simp: as_owned_def as_set_encoding_def split: option.splits body.splits)
next
  case (step_headers r)
  then show ?case by (auto simp: as_owned_def as_get_headers_def split: prod.split option.splits body.splits)
next
  case (step_url r)
  then show ?case by (auto simp: as_owned_def as_get_url_def split: prod.split option.splits body.splits)
qed

lemma as_owned_reach: "as_reach p r \<Longrightarrow> as_owned (response p) r"
proof (induction rule: as_reach.induct)
  case as_reach_init
  show ?case by (simp add: as_owned_def as_defs)
next
  case (as_reach_step r r')
  then show ?case using as_owned_step by blast
qed


text \<open>C3. Whatever order a response's coroutines run in, its body has one owner: it is never
  both streamed and read, two reads never wait on it at once, and everything ever buffered,
  returned by \<^verbatim>\<open>aread\<close> or cached by \<^verbatim>\<open>.content\<close> is the whole body as the network
  delivered it.\<close>

theorem async_body_single_owner:
  assumes "as_reach p r"
  shows "(as_streams r \<noteq> [] \<longrightarrow> as_reading r = []) \<and>
    length (as_streams r) + length (as_reading r) \<le> 1 \<and>
    (\<forall>b. as_body r = Some (Buffered b) \<longrightarrow> net_bytes (response p) = Inr b) \<and>
    (\<forall>b r'. as_get_content r = (r', Inr b) \<longrightarrow> net_bytes (response p) = Inr b) \<and>
    (\<forall>k b r'. k < length (as_reading r) \<and> aread_store k r = (r', Inr b) \<longrightarrow>
       net_bytes (response p) = Inr b)"
  using as_owned_reach [OF assms]
  by (auto simp: as_owned_def as_defs split: if_splits option.splits body.splits sum.splits)

theorem async_body_single_owner_witness:
  "net_bytes [Data [1], Data [2]] = Inr [1, 2]"
proof -
  define q :: "(unit, unit) pending" where
    "q = \<lparr>parts = \<lparr>status_code = 200, headers = (), url = (), elapsed = 0, num_retries = 0,
       retry_history = [], http_version = [], cookies = Map.empty, encoding_override = None\<rparr>,
      response = [Data [1], Data [2]]\<rparr>"
  define r where "r = fst (aread_take (as_from_pending q))"
  have "as_step (as_from_pending q) r"
    unfolding r_def by (rule step_take [where q = None]) (simp add: as_defs q_def)
  then have "as_reach q r" by (rule as_reach_step [OF as_reach_init])
  moreover have "0 < length (as_reading r)" "snd (aread_store 0 r) = Inr [1, 2]"
    by (simp_all add: r_def q_def as_defs)
  ultimately have "net_bytes (response q) = Inr [1, 2]"
    using async_body_single_owner by (metis prod.collapse)
  then show ?thesis by (simp add: q_def)
qed

text \<open>C38. An \<^verbatim>\<open>aclose\<close> that runs while an \<^verbatim>\<open>aread\<close> awaits the network closes
  nothing: it finds the slot empty, and the read then puts the buffered body back, so the closed
  response is open again and serves its content.\<close>

theorem aclose_overtaken_by_aread:
  assumes "as_body r = Some (Live n)" and "as_reading r = []" and "as_content r = None"
    and "net_bytes n = Inr b"
  shows "let r1 = aclose (fst (aread_take r)); r2 = fst (aread_store 0 r1) in
    as_is_closed locked r1 \<and> \<not> as_is_closed locked r2 \<and> snd (as_get_content r2) = Inr b"
  using assms by (simp add: as_defs as_is_closed_def)

theorem aclose_overtaken_by_aread_witness:
  "\<exists>r :: (unit, unit) async_response. as_is_closed (\<lambda>_. False) (aclose (fst (aread_take r))) \<and>
     snd (as_get_content (fst (aread_store 0 (aclose (fst (aread_take r)))))) = Inr [7]"
proof -
  define q :: "(unit, unit) pending" where
    "q = \<lparr>parts = \<lparr>status_code = 200, headers = (), url = (), elapsed = 0, num_retries = 0,
       retry_history = [], http_version = [], cookies = Map.empty, encoding_override = None\<rparr>,
      response = [Data [7]]\<rparr>"
  show ?thesis
    using aclose_overtaken_by_aread [of "as_from_pending q" "[Data [7]]" "[7]" "\<lambda>_. False"]
    by (auto simp: as_from_pending_def into_parts_def q_def Let_def)
qed


section \<open>The sync response's protocol\<close>

datatype call = IterBytes "nat option" | IterText "nat option" | IterLines | Read "py_err option"
  | Content | Close

datatype outcome = Opened handle | Got bytes | Ended | Refused py_err

definition read_outcome :: "py_rqx_error + bytes \<Rightarrow> outcome" where
  "read_outcome q = (case q of Inl e \<Rightarrow> Refused (into_py_err e) | Inr b \<Rightarrow> Got b)"

definition open_outcome :: "py_err + 'it body_iter \<Rightarrow> outcome" where
  "open_outcome q = (case q of Inl e \<Rightarrow> Refused e | Inr it \<Rightarrow> Opened (bit_stream it))"

fun sr_call ::
  "('h, 'v) header_map \<Rightarrow> 'e encodings \<Rightarrow> ('e \<Rightarrow> 'd decoder) \<Rightarrow> call \<Rightarrow>
     ('h, 'u) stream_response \<Rightarrow> streams \<Rightarrow> ('h, 'u) stream_response \<times> streams \<times> outcome" where
  "sr_call hm en dec (IterBytes n) r ls =
     (case sr_iter_bytes n r ls of (r', ls', q) \<Rightarrow> (r', ls', open_outcome q))"
| "sr_call hm en dec (IterText n) r ls =
     (case sr_iter_text hm en dec n r ls of (r', ls', q) \<Rightarrow> (r', ls', open_outcome q))"
| "sr_call hm en dec IterLines r ls =
     (case sr_iter_lines hm en dec r ls of (r', ls', q) \<Rightarrow> (r', ls', open_outcome q))"
| "sr_call hm en dec (Read rt) r ls =
     (case sr_read rt r of (r', q) \<Rightarrow> (r', ls, read_outcome q))"
| "sr_call hm en dec Content r ls =
     (case sr_get_content r of (r', q) \<Rightarrow> (r', ls, read_outcome (map_sum Py id q)))"
| "sr_call hm en dec Close r ls =
     (case sr_close r ls of (r', ls') \<Rightarrow> (r', ls', Ended))"

fun sr_run ::
  "('h, 'v) header_map \<Rightarrow> 'e encodings \<Rightarrow> ('e \<Rightarrow> 'd decoder) \<Rightarrow> call list \<Rightarrow>
     ('h, 'u) stream_response \<Rightarrow> streams \<Rightarrow> outcome list" where
  "sr_run hm en dec [] r ls = []"
| "sr_run hm en dec (c # cs) r ls =
     (case sr_call hm en dec c r ls of (r', ls', out) \<Rightarrow> out # sr_run hm en dec cs r' ls')"

text \<open>
  The protocol a caller can rely on: once an iterator is handed out, no bytes and no second
  iterator; once bytes are returned, only those bytes and no iterator; once closed, only refusals
  that say so (or that the chunk size was 0).
\<close>

fun may_follow :: "outcome \<Rightarrow> outcome \<Rightarrow> bool" where
  "may_follow (Opened i) out = (case out of Opened _ \<Rightarrow> False | Got _ \<Rightarrow> False | _ \<Rightarrow> True)"
| "may_follow (Got b) out = (case out of Opened _ \<Rightarrow> False | Got b' \<Rightarrow> b' = b | _ \<Rightarrow> True)"
| "may_follow Ended out =
     (case out of
        Opened _ \<Rightarrow> False | Got _ \<Rightarrow> False | Ended \<Rightarrow> True
      | Refused e \<Rightarrow> exc_class e = CStreamClosed \<or> exc_class e = PyValueError)"
| "may_follow (Refused e) out = True"

text \<open>What the state of a response allows its next outcomes to be.\<close>

definition allows :: "('h, 'u) stream_response \<Rightarrow> outcome \<Rightarrow> bool" where
  "allows r out \<longleftrightarrow>
     (case sr_body r of
        Some (Live n) \<Rightarrow> True
      | Some (Streaming i) \<Rightarrow> may_follow (Opened i) out
      | Some (Buffered b) \<Rightarrow> may_follow (Got b) out
      | None \<Rightarrow> may_follow Ended out)"

definition sr_ok :: "('h, 'u) stream_response \<Rightarrow> bool" where
  "sr_ok r \<longleftrightarrow>
     (case sr_body r of
        Some (Buffered b) \<Rightarrow> sr_content r = None \<or> sr_content r = Some b
      | Some _ \<Rightarrow> sr_content r = None
      | None \<Rightarrow> True)"

lemmas sr_defs =
  sr_iter_bytes_def sr_iter_text_def sr_iter_lines_def open_iter_def sr_start_stream_def
  sr_read_def sr_get_content_def sr_close_def checked_chunk_size_def get_or_init_def
  read_outcome_def open_outcome_def stream_excs

lemma allows_simps:
  "sr_body r = Some (Live n) \<Longrightarrow> allows r out"
  "sr_body r = Some (Streaming i) \<Longrightarrow> allows r out \<longleftrightarrow> may_follow (Opened 0) out"
  "sr_body r = Some (Buffered b) \<Longrightarrow> allows r out \<longleftrightarrow> may_follow (Got b) out"
  "sr_body r = None \<Longrightarrow> allows r out \<longleftrightarrow> may_follow Ended out"
  by (simp_all add: allows_def split: outcome.splits)

lemma sr_open_ok:
  assumes "open_iter it r ls = (r', ls', q)" "sr_ok r"
  shows "sr_ok r' \<and> allows r (open_outcome q) \<and>
    (\<forall>out'. allows r' out' \<longrightarrow> allows r out' \<and> may_follow (open_outcome q) out')"
proof (cases "sr_body r")
  case None
  with assms show ?thesis by (auto simp: sr_defs allows_simps)
next
  case (Some b)
  with assms show ?thesis
    by (cases b) (auto simp: sr_defs allows_simps sr_ok_def split: outcome.splits)
qed

lemma sr_checked_ok:
  assumes "(case checked_chunk_size n of Inl e \<Rightarrow> (r, ls, Inl e) | Inr m \<Rightarrow> open_iter (f m) r ls) = (r', ls', q)"
    "sr_ok r"
  shows "sr_ok r' \<and> allows r (open_outcome q) \<and>
    (\<forall>out'. allows r' out' \<longrightarrow> allows r out' \<and> may_follow (open_outcome q) out')"
proof (cases "n = Some 0")
  case True
  with assms show ?thesis
    by (auto simp: checked_chunk_size_def open_outcome_def allows_def new_err_class
        split: option.splits body.splits)
next
  case False
  with assms sr_open_ok [of "f n" r ls r' ls' q] show ?thesis by (simp add: checked_chunk_size_def)
qed

lemma sr_content_ok:
  assumes "sr_get_content r = (r', q)" "sr_ok r"
  shows "sr_ok r' \<and> allows r (read_outcome (map_sum Py id q)) \<and> sr_body r' = sr_body r \<and>
    (\<forall>b. sr_body r = Some (Buffered b) \<longrightarrow> q = Inr b) \<and>
    (\<forall>out'. allows r' out' \<longrightarrow> allows r out' \<and> may_follow (read_outcome (map_sum Py id q)) out')"
proof (cases "sr_body r")
  case None
  with assms show ?thesis by (auto simp: sr_defs allows_simps)
next
  case (Some b)
  with assms show ?thesis
    by (cases b) (auto simp: sr_defs allows_simps sr_ok_def split: option.splits)
qed

lemma sr_read_ok:
  assumes "sr_read rt r = (r', q)" "sr_ok r"
  shows "sr_ok r' \<and> allows r (read_outcome q) \<and>
    (\<forall>out'. allows r' out' \<longrightarrow> allows r out' \<and> may_follow (read_outcome q) out')"
proof (cases "sr_body r")
  case None
  with assms show ?thesis by (auto simp: sr_defs allows_simps)
next
  case (Some b)
  with assms show ?thesis
    by (cases b) (auto simp: sr_defs allows_simps sr_ok_def Let_def split: option.splits sum.splits)
qed

lemma sr_close_ok:
  assumes "sr_close r ls = (r', ls')" "sr_ok r"
  shows "sr_ok r' \<and> allows r Ended \<and>
    (\<forall>out'. allows r' out' \<longrightarrow> allows r out' \<and> may_follow Ended out')"
proof (cases "sr_body r")
  case None
  with assms show ?thesis by (auto simp: sr_close_def allows_simps)
next
  case (Some b)
  with assms show ?thesis
    by (cases b) (auto simp: sr_close_def allows_simps sr_ok_def split: outcome.splits)
qed

lemma sr_call_ok:
  assumes "sr_call hm en dec c r ls = (r', ls', out)" "sr_ok r"
  shows "sr_ok r' \<and> allows r out \<and> (\<forall>out'. allows r' out' \<longrightarrow> allows r out' \<and> may_follow out out')"
proof (cases c)
  case (IterBytes n)
  with assms(1) obtain q where "sr_iter_bytes n r ls = (r', ls', q)" "out = open_outcome q"
    by (auto split: prod.splits)
  with sr_checked_ok assms(2) show ?thesis unfolding sr_iter_bytes_def by fast
next
  case (IterText n)
  with assms(1) obtain q where "sr_iter_text hm en dec n r ls = (r', ls', q)" "out = open_outcome q"
    by (auto split: prod.splits)
  with sr_checked_ok assms(2) show ?thesis unfolding sr_iter_text_def by fast
next
  case IterLines
  with assms(1) obtain q where "sr_iter_lines hm en dec r ls = (r', ls', q)" "out = open_outcome q"
    by (auto split: prod.splits)
  with sr_open_ok assms(2) show ?thesis unfolding sr_iter_lines_def by fast
next
  case (Read rt)
  with assms(1) obtain q where "sr_read rt r = (r', q)" "out = read_outcome q"
    by (auto split: prod.splits)
  with sr_read_ok assms(2) show ?thesis by fast
next
  case Content
  with assms(1) obtain q where "sr_get_content r = (r', q)" "out = read_outcome (map_sum Py id q)"
    by (auto split: prod.splits)
  with sr_content_ok assms(2) show ?thesis by fast
next
  case Close
  with assms(1) have "sr_close r ls = (r', ls')" "out = Ended"
    by (auto split: prod.splits)
  with sr_close_ok assms(2) show ?thesis by fast
qed

lemma sr_run_allowed:
  "sr_ok r \<Longrightarrow> out \<in> set (sr_run hm en dec cs r ls) \<Longrightarrow> allows r out"
proof (induction cs arbitrary: r ls)
  case Nil
  then show ?case by simp
next
  case (Cons c cs)
  obtain r' ls' o1 where c: "sr_call hm en dec c r ls = (r', ls', o1)" by (metis prod_cases3)
  from Cons sr_call_ok [OF c Cons.prems(1)] c show ?case by auto
qed

text \<open>C24. Over any sequence of calls on a sync stream response, the body is handed out once:
  one iterator, or one buffer that every later \<^verbatim>\<open>read\<close> and \<^verbatim>\<open>content\<close> repeats, never
  both; and after \<^verbatim>\<open>close\<close> every call is refused with \<^verbatim>\<open>StreamClosed\<close>.\<close>

theorem stream_consumed_once:
  "sorted_wrt may_follow (sr_run hm en dec cs (sr_from_pending p) ls)"
proof -
  have "sorted_wrt may_follow (sr_run hm en dec cs r ls)" if "sr_ok r" for r ls
    using that
  proof (induction cs arbitrary: r ls)
    case Nil
    then show ?case by simp
  next
    case (Cons c cs)
    obtain r' ls' o1 where c: "sr_call hm en dec c r ls = (r', ls', o1)" by (metis prod_cases3)
    have ok: "sr_ok r'" and follow: "\<And>out'. allows r' out' \<Longrightarrow> may_follow o1 out'"
      using sr_call_ok [OF c Cons.prems] by blast+
    have "may_follow o1 x" if "x \<in> set (sr_run hm en dec cs r' ls')" for x
      using follow sr_run_allowed [OF ok that] .
    with Cons.IH [OF ok] c show ?case by simp
  qed
  moreover have "sr_ok (sr_from_pending p)"
    by (simp add: sr_ok_def sr_from_pending_def into_parts_def)
  ultimately show ?thesis by blast
qed

text \<open>Closing a response ends the iterator that reads it: unless the iterator had already
  seen the end of the body, its next step raises \<^verbatim>\<open>StreamClosed\<close> whatever it still had
  buffered, without touching the network, and every other stream is left alone.\<close>

theorem close_ends_iterator:
  assumes "sr_body r = Some (Streaming i)" and "i < length ls" and "bit_stream it = i"
    and "\<not> it_finished ops (bit_state it)"
  shows "\<exists>r' ls'. sr_close r ls = (r', ls') \<and> sr_is_closed locked r' ls' \<and>
    iter_step ops it ls' = Some (it, ls', Inl closed_error) \<and>
    (\<forall>j. j \<noteq> i \<longrightarrow> ls' ! j = ls ! j)"
proof -
  have "iter_next ops (live_close (ls ! i)) (bit_state it) =
      Some (live_close (ls ! i), bit_state it, Inl closed_error)"
    using assms(4) by (simp add: iter_next.simps live_close_def mark_closed_def check_open_def)
  with assms show ?thesis
    by (auto simp: sr_close_def sr_is_closed_def iter_step_def)
qed

theorem close_ends_iterator_witness:
  "\<exists>r' ls'. sr_close (fst (sr_iter_bytes None (sr_from_pending
        \<lparr>parts = \<lparr>status_code = 200, headers = (), url = (), elapsed = 0, num_retries = 0,
           retry_history = [], http_version = [], cookies = Map.empty, encoding_override = None\<rparr>,
         response = [Data [1]]\<rparr>) [])) [live_new [Data [1]]] = (r', ls') \<and>
    iter_step byte_ops \<lparr>bit_stream = 0, bit_state = byte_start None\<rparr> ls' =
      Some (\<lparr>bit_stream = 0, bit_state = byte_start None\<rparr>, ls', Inl closed_error)"
  using close_ends_iterator [of "fst (sr_iter_bytes None (sr_from_pending
        \<lparr>parts = \<lparr>status_code = 200, headers = (), url = (), elapsed = 0, num_retries = 0,
           retry_history = [], http_version = [], cookies = Map.empty, encoding_override = None\<rparr>,
         response = [Data [1]]\<rparr>) [])" 0 "[live_new [Data [1]]]"
      "\<lparr>bit_stream = 0, bit_state = byte_start None\<rparr>" byte_ops "\<lambda>_. False"]
  by (force simp: sr_defs sr_from_pending_def into_parts_def)

lemma concat_filter_nonempty: "concat (filter (\<lambda>p. p \<noteq> []) xs) = concat xs"
  by (induction xs) auto

lemma length_pieces_of: "length (pieces_of n [] bs e) \<le> length bs + length (concat bs)"
proof (cases n)
  case None
  then show ?thesis by (simp add: pieces_of_def le_add1 [THEN le_trans [OF length_filter_le]])
next
  case (Some k)
  have "length (filter (\<lambda>p. length p = k) (chop k (concat bs))) \<le> length (concat bs)"
    using length_filter_le length_chop [of k "concat bs"] by (rule le_trans)
  with Some length_chop [of k "concat bs"] show ?thesis by (simp add: pieces_of_def Let_def)
qed

text \<open>C25. Reading a body into memory and iterating over it agree: \<^verbatim>\<open>read\<close> returns exactly
  the concatenation of the pieces that \<^verbatim>\<open>iter_bytes\<close> yields, whatever the chunk size; and
  when the body breaks off, both raise the same error.\<close>

theorem read_agrees_with_iteration:
  assumes "n \<noteq> Some 0" and "length bs + length (concat bs) < fuel"
    and "tail = [] \<or> (\<exists>x. tail = [Fail x])"
  shows "\<exists>ps q. iter_collect fuel byte_ops (live_new (map Data bs @ tail)) (byte_start n) = Some (ps, q) \<and>
    snd (sr_read None (sr_from_pending \<lparr>parts = pp, response = map Data bs @ tail\<rparr>)) =
      (case q of None \<Rightarrow> Inr (concat ps) | Some e \<Rightarrow> Inl (Core e))"
proof -
  have all: "concat (pieces_of n [] bs True) = concat bs"
    using assms(1) by (cases n) (auto simp: pieces_of_def concat_chop concat_filter_nonempty)
  have "length (pieces_of n [] bs (tail = [])) < fuel"
    using le_less_trans [OF length_pieces_of assms(2)] .
  then have it: "iter_collect fuel byte_ops (live_new (map Data bs @ tail)) (byte_start n) =
      Some (pieces_of n [] bs (tail = []),
        case tail of Fail x # _ \<Rightarrow> Some (from_reqwest x) | _ \<Rightarrow> None)"
    using byte_it.collect_open [of "byte_start n" "live_new (map Data bs @ tail)" bs tail fuel]
      assms(1,3) by simp
  show ?thesis
    using assms(3) all
    by (auto simp: it sr_defs sr_from_pending_def into_parts_def Let_def net_bytes_data net_bytes_fail)
qed

theorem read_agrees_with_iteration_witness:
  "\<exists>ps q. iter_collect 9 byte_ops (live_new (map Data [[1, 2], [3]] @ [])) (byte_start (Some 2)) = Some (ps, q) \<and>
    snd (sr_read None (sr_from_pending \<lparr>parts = (undefined :: (unit, unit) response_parts),
        response = map Data [[1, 2], [3]] @ []\<rparr>)) =
      (case q of None \<Rightarrow> Inr (concat ps) | Some e \<Rightarrow> Inl (Core e))"
  by (rule read_agrees_with_iteration) simp_all

end
