(* ===== verification/Rqx_Query.thy ===== *)
theory Rqx_Query
  imports Rqx_Json Rqx_Utf8 "HOL-Library.Char_ord" "HOL-Library.List_Lexorder"
    "HOL-Library.Product_Lexorder" "HOL-Library.Multiset"
begin

text \<open>
  Query parameters: \<^verbatim>\<open>rqx-core/src/query_params.rs\<close>, an ordered multi-dict kept as a list
  of pairs, and \<^verbatim>\<open>rqx/src/query_params.rs\<close>, its Python class and the \<^verbatim>\<open>params=\<close>
  argument.

  The percent-encoding of the \<^verbatim>\<open>url\<close> crate is not part of the repository: its parser and
  serializer are the arguments \<open>form_parse\<close> and \<open>form_serialize\<close>.
\<close>

type_synonym pairs = "(string \<times> string) list"


section \<open>The pairs\<close>

datatype scalar_value = SBool bool | SString string | SInt int | SFloat fl

text \<open>\<^verbatim>\<open>impl Display for ScalarValue\<close>; \<open>show_float\<close> is the display of an \<^verbatim>\<open>f64\<close>.\<close>

fun scalar_display :: "(fl \<Rightarrow> string) \<Rightarrow> scalar_value \<Rightarrow> string" where
  "scalar_display show_float (SBool b) = (if b then ''true'' else ''false'')"
| "scalar_display show_float (SString s) = s"
| "scalar_display show_float (SInt i) = show_int i"
| "scalar_display show_float (SFloat f) = show_float f"

definition qp_scalar :: "(fl \<Rightarrow> string) \<Rightarrow> scalar_value option \<Rightarrow> string" where
  "qp_scalar show_float v = (case v of Some x \<Rightarrow> scalar_display show_float x | None \<Rightarrow> [])"

text \<open>\<^verbatim>\<open>rposition\<close>: the last index whose key is \<open>key\<close>.\<close>

fun rposition :: "string \<Rightarrow> pairs \<Rightarrow> nat option" where
  "rposition key [] = None"
| "rposition key ((k, v) # ps) =
     (case rposition key ps of
        Some i \<Rightarrow> Some (Suc i)
      | None \<Rightarrow> if k = key then Some 0 else None)"

definition insert_at :: "nat \<Rightarrow> 'a \<Rightarrow> 'a list \<Rightarrow> 'a list" where
  "insert_at i x xs = take i xs @ x # drop i xs"

definition qp_push :: "string \<Rightarrow> string \<Rightarrow> pairs \<Rightarrow> pairs" where
  "qp_push key val ps =
     (case rposition key ps of
        Some i \<Rightarrow> insert_at (i + 1) (key, val) ps
      | None \<Rightarrow> ps @ [(key, val)])"

definition qp_contains :: "string \<Rightarrow> pairs \<Rightarrow> bool" where
  "qp_contains key ps \<longleftrightarrow> list_ex (\<lambda>(k, _). k = key) ps"

definition qp_get :: "string \<Rightarrow> pairs \<Rightarrow> string option" where
  "qp_get key ps = map_option snd (find (\<lambda>(k, _). k = key) ps)"

definition qp_get_list :: "string \<Rightarrow> pairs \<Rightarrow> string list" where
  "qp_get_list key ps = map snd (filter (\<lambda>(k, _). k = key) ps)"

fun keys_loop :: "string list \<Rightarrow> pairs \<Rightarrow> string list" where
  "keys_loop keys [] = keys"
| "keys_loop keys ((k, _) # ps) =
     keys_loop (if k \<in> set keys then keys else keys @ [k]) ps"

definition qp_keys :: "pairs \<Rightarrow> string list" where
  "qp_keys ps = keys_loop [] ps"

definition qp_first_items :: "pairs \<Rightarrow> (string \<times> string) list" where
  "qp_first_items ps =
     map (\<lambda>key. (key, case qp_get key ps of Some v \<Rightarrow> v | None \<Rightarrow> [])) (qp_keys ps)"

fun set_loop :: "string \<Rightarrow> string \<Rightarrow> bool \<Rightarrow> pairs \<Rightarrow> pairs" where
  "set_loop key val replaced [] = (if replaced then [] else [(key, val)])"
| "set_loop key val replaced ((k, v) # ps) =
     (if k \<noteq> key then (k, v) # set_loop key val replaced ps
      else if \<not> replaced then (key, val) # set_loop key val True ps
      else set_loop key val replaced ps)"

definition qp_set :: "string \<Rightarrow> string \<Rightarrow> pairs \<Rightarrow> pairs" where
  "qp_set key val ps = set_loop key val False ps"

definition qp_add :: "string \<Rightarrow> string \<Rightarrow> pairs \<Rightarrow> pairs" where
  "qp_add key val ps = qp_push key val ps"

definition qp_remove :: "string \<Rightarrow> pairs \<Rightarrow> pairs" where
  "qp_remove key ps = filter (\<lambda>(k, _). k \<noteq> key) ps"

text \<open>\<^verbatim>\<open>merge\<close>: the first loop, which yields the keys it took from \<open>other\<close>, then the
  second.\<close>

fun merge_loop :: "pairs \<Rightarrow> string list \<Rightarrow> pairs \<Rightarrow> pairs \<times> string list" where
  "merge_loop other taken [] = ([], taken)"
| "merge_loop other taken ((key, val) # ps) =
     (if \<not> qp_contains key other then
        (case merge_loop other taken ps of (out, t) \<Rightarrow> ((key, val) # out, t))
      else if key \<notin> set taken then
        (case merge_loop other (taken @ [key]) ps of
           (out, t) \<Rightarrow> (map (Pair key) (qp_get_list key other) @ out, t))
      else merge_loop other taken ps)"

definition qp_merge :: "pairs \<Rightarrow> pairs \<Rightarrow> pairs" where
  "qp_merge ps other =
     (case merge_loop other [] ps of
        (out, taken) \<Rightarrow> out @ filter (\<lambda>(k, _). k \<notin> set taken) other)"

fun push_all :: "pairs \<Rightarrow> pairs \<Rightarrow> pairs" where
  "push_all [] ps = ps"
| "push_all ((k, v) # new) ps = push_all new (qp_push k v ps)"

definition qp_parse :: "(string \<Rightarrow> pairs) \<Rightarrow> string \<Rightarrow> pairs" where
  "qp_parse form_parse query = push_all (form_parse query) []"

definition qp_from_items ::
  "(fl \<Rightarrow> string) \<Rightarrow> (string \<times> scalar_value option list) list \<Rightarrow> pairs" where
  "qp_from_items show_float items =
     push_all (concat (map (\<lambda>(k, vs). map (\<lambda>v. (k, qp_scalar show_float v)) vs) items)) []"

definition qp_display :: "(pairs \<Rightarrow> string) \<Rightarrow> pairs \<Rightarrow> string" where
  "qp_display form_serialize ps = form_serialize ps"

definition qp_sorted :: "pairs \<Rightarrow> pairs" where
  "qp_sorted ps = sort ps"

definition qp_eq :: "pairs \<Rightarrow> pairs \<Rightarrow> bool" where
  "qp_eq a b \<longleftrightarrow> qp_sorted a = qp_sorted b"

text \<open>\<open>hasher\<close> is what the standard hasher makes of a list of pairs.\<close>

definition qp_hash :: "(pairs \<Rightarrow> 'a) \<Rightarrow> pairs \<Rightarrow> 'a" where
  "qp_hash hasher ps = hasher (qp_sorted ps)"


section \<open>The Python side\<close>

text \<open>\<^verbatim>\<open>PyScalarValue::extract\<close>: \<open>str\<close> is Python's \<^verbatim>\<open>str(obj)\<close>.\<close>

definition py_scalar :: "(py_obj \<Rightarrow> py_err + string) \<Rightarrow> py_obj \<Rightarrow> py_err + scalar_value" where
  "py_scalar str v =
     (case v of
        OBool b \<Rightarrow> Inr (SBool b)
      | OStr s \<Rightarrow> Inr (SString s)
      | OBadStr e \<Rightarrow> Inl e
      | OInt i \<Rightarrow>
          if - (2 ^ 63) \<le> i \<and> i < 2 ^ 63 then Inr (SInt i) else map_sum id SString (str v)
      | OFloat f \<Rightarrow> map_sum id SString (str v)
      | _ \<Rightarrow> Inl (new_err PyTypeError
          (''params values must be str, int, float, bool, or None, got '' @ type_name v)))"

text \<open>\<^verbatim>\<open>Option<PyScalarValue>\<close>: \<^verbatim>\<open>None\<close> is no value.\<close>

definition param_scalar ::
  "(py_obj \<Rightarrow> py_err + string) \<Rightarrow> py_obj \<Rightarrow> py_err + scalar_value option" where
  "param_scalar str v = (if v = ONone then Inr None else map_sum id Some (py_scalar str v))"

definition param_key :: "py_obj \<Rightarrow> py_err + string" where
  "param_key k =
     (case k of
        OStr s \<Rightarrow> Inr s
      | OBadStr e \<Rightarrow> Inl e
      | _ \<Rightarrow> Inl (new_err PyTypeError (''params keys must be str, got '' @ type_name k)))"

fun param_scalars ::
  "(py_obj \<Rightarrow> py_err + string) \<Rightarrow> py_obj list \<Rightarrow> py_err + scalar_value option list" where
  "param_scalars str [] = Inr []"
| "param_scalars str (v # vs) =
     (case param_scalar str v of
        Inl e \<Rightarrow> Inl e
      | Inr x \<Rightarrow> (case param_scalars str vs of Inl e \<Rightarrow> Inl e | Inr xs \<Rightarrow> Inr (x # xs)))"

definition param_values ::
  "heap \<Rightarrow> (py_obj \<Rightarrow> py_err + string) \<Rightarrow> py_obj \<Rightarrow> py_err + scalar_value option list" where
  "param_values h str v =
     (case v of
        OList xs \<Rightarrow> param_scalars str (map h xs)
      | OTuple xs \<Rightarrow> param_scalars str (map h xs)
      | _ \<Rightarrow> (case param_scalar str v of Inl e \<Rightarrow> Inl e | Inr x \<Rightarrow> Inr [x]))"

fun param_items ::
  "heap \<Rightarrow> (py_obj \<Rightarrow> py_err + string) \<Rightarrow> (py_err + py_obj \<times> py_obj) list \<Rightarrow>
     py_err + (string \<times> scalar_value option list) list" where
  "param_items h str [] = Inr []"
| "param_items h str (Inl e # items) = Inl e"
| "param_items h str (Inr (k, v) # items) =
     (case param_key k of
        Inl e \<Rightarrow> Inl e
      | Inr key \<Rightarrow>
          (case param_values h str v of
             Inl e \<Rightarrow> Inl e
           | Inr vs \<Rightarrow>
               (case param_items h str items of
                  Inl e \<Rightarrow> Inl e
                | Inr rest \<Rightarrow> Inr ((key, vs) # rest))))"

definition params_from_items ::
  "heap \<Rightarrow> (py_obj \<Rightarrow> py_err + string) \<Rightarrow> (fl \<Rightarrow> string) \<Rightarrow> (py_err + py_obj \<times> py_obj) list \<Rightarrow>
     py_err + pairs" where
  "params_from_items h str show_float items =
     map_sum id (qp_from_items show_float) (param_items h str items)"

text \<open>The \<^verbatim>\<open>params=\<close> argument: what the object offers, in the order it is asked.\<close>

datatype params_arg =
    RqxParams pairs
  | ParamStr string
  | ParamBytes bytes
  | ParamDict "(py_obj \<times> py_obj) list"
  | ParamItems "py_err + (py_err + py_obj \<times> py_obj) list"
  | ParamIter "(py_err + py_obj \<times> py_obj) list"
  | ParamOther string

fun params_extract ::
  "heap \<Rightarrow> (py_obj \<Rightarrow> py_err + string) \<Rightarrow> (fl \<Rightarrow> string) \<Rightarrow> (string \<Rightarrow> pairs) \<Rightarrow> params_arg \<Rightarrow>
     py_err + pairs" where
  "params_extract h str show_float form_parse (RqxParams ps) = Inr ps"
| "params_extract h str show_float form_parse (ParamStr s) = Inr (qp_parse form_parse s)"
| "params_extract h str show_float form_parse (ParamBytes b) =
     Inr (qp_parse form_parse (ustr_string (utf8_lossy b)))"
| "params_extract h str show_float form_parse (ParamDict items) =
     params_from_items h str show_float (map Inr items)"
| "params_extract h str show_float form_parse (ParamItems r) =
     (case r of Inl e \<Rightarrow> Inl e | Inr items \<Rightarrow> params_from_items h str show_float items)"
| "params_extract h str show_float form_parse (ParamIter items) =
     params_from_items h str show_float items"
| "params_extract h str show_float form_parse (ParamOther t) =
     Inl (new_err PyTypeError
       (''params must be a mapping, a sequence of pairs, str, or bytes, got '' @ t))"

text \<open>\<^verbatim>\<open>QueryParams(params, **kwargs)\<close>: keyword arguments count only without \<open>params\<close>.\<close>

definition py_params_new :: "pairs option \<Rightarrow> pairs option \<Rightarrow> pairs" where
  "py_params_new params kwargs =
     (case params of Some p \<Rightarrow> p | None \<Rightarrow> (case kwargs of Some p \<Rightarrow> p | None \<Rightarrow> []))"

definition py_params_merge :: "pairs option \<Rightarrow> pairs \<Rightarrow> pairs" where
  "py_params_merge other ps = (case other of Some p \<Rightarrow> qp_merge ps p | None \<Rightarrow> ps)"

definition py_params_getitem :: "string \<Rightarrow> pairs \<Rightarrow> py_err + string" where
  "py_params_getitem key ps =
     (case qp_get key ps of Some v \<Rightarrow> Inr v | None \<Rightarrow> Inl (new_err PyKeyError key))"

definition py_params_len :: "pairs \<Rightarrow> nat" where
  "py_params_len ps = length (qp_keys ps)"

definition immutable :: "string \<Rightarrow> py_err" where
  "immutable action = new_err PyRuntimeError
     (''QueryParams are immutable since 0.18.0. Use `q = q.'' @ action @ ''` to create an updated copy.'')"



section \<open>The dictionary behind the pairs\<close>

text \<open>
  The contract: an insertion-ordered dictionary of non-empty value lists, and the pairs are its
  listing.
\<close>

type_synonym odict = "(string \<times> string list) list"

definition flat :: "odict \<Rightarrow> pairs" where
  "flat d = concat (map (\<lambda>(k, vs). map (Pair k) vs) d)"

definition odict_ok :: "odict \<Rightarrow> bool" where
  "odict_ok d \<longleftrightarrow> distinct (map fst d) \<and> (\<forall>(k, vs) \<in> set d. vs \<noteq> [])"

fun dict_append :: "string \<Rightarrow> string \<Rightarrow> odict \<Rightarrow> odict" where
  "dict_append k v [] = [(k, [v])]"
| "dict_append k v ((k', vs) # d) =
     (if k = k' then (k, vs @ [v]) # d else (k', vs) # dict_append k v d)"

definition dict_remove :: "string \<Rightarrow> odict \<Rightarrow> odict" where
  "dict_remove k d = filter (\<lambda>(k', _). k' \<noteq> k) d"

fun dict_update :: "odict \<Rightarrow> odict \<Rightarrow> odict" where
  "dict_update d [] = d"
| "dict_update d ((k, vs) # e) = dict_update (map_insert k vs d) e"

definition dict_values :: "string \<Rightarrow> odict \<Rightarrow> string list" where
  "dict_values k d = (case map_of d k of None \<Rightarrow> [] | Some vs \<Rightarrow> vs)"

definition grouped :: "pairs \<Rightarrow> bool" where
  "grouped ps \<longleftrightarrow> (\<exists>d. odict_ok d \<and> ps = flat d)"

lemma flat_simps [simp]:
  "flat [] = []" "flat ((k, vs) # d) = map (Pair k) vs @ flat d" "flat (d @ e) = flat d @ flat e"
  by (simp_all add: flat_def)

lemma odict_ok_Nil [simp]: "odict_ok []"
  by (simp add: odict_ok_def)

lemma odict_ok_Cons:
  "odict_ok ((k, vs) # d) \<longleftrightarrow> vs \<noteq> [] \<and> k \<notin> fst ` set d \<and> odict_ok d"
  by (auto simp: odict_ok_def)

lemma fst_pairs [simp]: "fst ` Pair k ` A = (if A = {} then {} else {k})"
  by (auto simp: image_image)

lemma flat_keys: "odict_ok d \<Longrightarrow> fst ` set (flat d) = fst ` set d"
proof (induction d)
  case Nil
  then show ?case by simp
next
  case (Cons p d)
  then show ?case by (cases p) (simp add: odict_ok_Cons image_Un)
qed

lemma flat_no_key: "k \<notin> fst ` set d \<Longrightarrow> k \<notin> fst ` set (flat d)"
proof (induction d)
  case Nil
  then show ?case by simp
next
  case (Cons p d)
  then show ?case by (cases p) (simp add: image_Un)
qed

lemma map_insert_keys: "fst ` set (map_insert k v m) = insert k (fst ` set m)"
  by (induction k v m rule: map_insert.induct) (simp_all add: insert_commute)

lemma map_insert_ok: "odict_ok d \<Longrightarrow> vs \<noteq> [] \<Longrightarrow> odict_ok (map_insert k vs d)"
  by (induction k vs d rule: map_insert.induct)
     (auto simp: odict_ok_Cons map_insert_keys simp del: fst_pairs)

lemma dict_append_keys: "fst ` set (dict_append k v d) = insert k (fst ` set d)"
  by (induction k v d rule: dict_append.induct) (simp_all add: insert_commute)

lemma dict_append_ok: "odict_ok d \<Longrightarrow> odict_ok (dict_append k v d)"
proof (induction d)
  case Nil
  then show ?case by (simp add: odict_ok_def)
next
  case (Cons p d)
  then show ?case
    by (cases p) (simp add: odict_ok_Cons dict_append_keys)
qed

lemma dict_remove_ok: "odict_ok d \<Longrightarrow> odict_ok (dict_remove k d)"
  by (auto simp: odict_ok_def dict_remove_def distinct_map_filter)

lemma dict_update_ok: "odict_ok d \<Longrightarrow> odict_ok e \<Longrightarrow> odict_ok (dict_update d e)"
proof (induction e arbitrary: d)
  case Nil
  then show ?case by simp
next
  case (Cons p e)
  then show ?case by (cases p) (simp add: odict_ok_Cons map_insert_ok)
qed

text \<open>Appending to a key.\<close>

lemma rposition_None: "rposition k ps = None \<longleftrightarrow> k \<notin> fst ` set ps"
  by (induction ps) (auto split: option.splits)

lemma rposition_append:
  "rposition k (ps @ qs) =
     (case rposition k qs of Some i \<Rightarrow> Some (length ps + i) | None \<Rightarrow> rposition k ps)"
  by (induction ps) (auto split: option.splits)

lemma qp_push_last: "k \<notin> fst ` set qs \<Longrightarrow> qp_push k v (ps @ (k, w) # qs) = ps @ (k, w) # (k, v) # qs"
  by (simp add: qp_push_def rposition_append rposition_None [THEN iffD2] insert_at_def)

lemma qp_push_new: "k \<notin> fst ` set ps \<Longrightarrow> qp_push k v ps = ps @ [(k, v)]"
  by (simp add: qp_push_def rposition_None [THEN iffD2])

lemma dict_append_split:
  "k \<notin> fst ` set d1 \<Longrightarrow> dict_append k v (d1 @ (k, vs) # d2) = d1 @ (k, vs @ [v]) # d2"
  by (induction d1) auto

lemma dict_append_new: "k \<notin> fst ` set d \<Longrightarrow> dict_append k v d = d @ [(k, [v])]"
  by (induction d) auto

lemma odict_split:
  assumes "odict_ok d"
  obtains "k \<notin> fst ` set d"
  | d1 ws w d2 where "d = d1 @ (k, ws @ [w]) # d2" "k \<notin> fst ` set d1" "k \<notin> fst ` set d2"
proof (cases "k \<in> fst ` set d")
  case True
  then obtain vs where "(k, vs) \<in> set d" by force
  then obtain d1 d2 where d: "d = d1 @ (k, vs) # d2" by (meson split_list)
  with assms have "vs \<noteq> []" "k \<notin> fst ` set d1" "k \<notin> fst ` set d2"
    by (auto simp: odict_ok_def)
  then show ?thesis using that(2) d by (metis rev_exhaust)
qed (use that in blast)

lemma push_refines: "odict_ok d \<Longrightarrow> qp_push k v (flat d) = flat (dict_append k v d)"
proof (erule odict_split [where k = k])
  assume "k \<notin> fst ` set d"
  then show ?thesis by (simp add: qp_push_new flat_no_key dict_append_new)
next
  fix d1 ws w d2 assume d: "d = d1 @ (k, ws @ [w]) # d2" "k \<notin> fst ` set d1" "k \<notin> fst ` set d2"
  then show ?thesis
    using qp_push_last [of k "flat d2" v "flat d1 @ map (Pair k) ws" w]
    by (simp add: flat_no_key dict_append_split)
qed

lemma push_all_grouped: "grouped ps \<Longrightarrow> grouped (push_all new ps)"
proof (induction new arbitrary: ps)
  case Nil
  then show ?case by simp
next
  case (Cons p new)
  obtain k v where "p = (k, v)" by (cases p)
  moreover from Cons.prems have "grouped (qp_push k v ps)"
    by (metis grouped_def push_refines dict_append_ok)
  ultimately show ?case using Cons.IH by simp
qed

text \<open>Assigning, removing and looking up.\<close>

lemma set_loop_absent: "k \<notin> fst ` set ps \<Longrightarrow> set_loop k v r (ps @ qs) = ps @ set_loop k v r qs"
  by (induction ps) auto

lemma set_loop_same: "set_loop k v True (map (Pair k) vs @ qs) = set_loop k v True qs"
  by (induction vs) auto

lemma set_refines: "odict_ok d \<Longrightarrow> qp_set k v (flat d) = flat (map_insert k [v] d)"
proof (induction d)
  case Nil
  then show ?case by (simp add: qp_set_def)
next
  case (Cons p d)
  obtain k' vs where p: "p = (k', vs)" by (cases p)
  from Cons.prems p have ok: "vs \<noteq> []" "k' \<notin> fst ` set d" "odict_ok d" by (auto simp: odict_ok_Cons)
  show ?case
  proof (cases "k' = k")
    case True
    with ok obtain w ws where vs: "vs = w # ws" by (cases vs) auto
    have "set_loop k v True (flat d) = flat d"
      using set_loop_absent [of k "flat d" v True "[]"] ok(2) True by (simp add: flat_no_key)
    with True p vs show ?thesis by (simp add: qp_set_def set_loop_same)
  next
    case False
    then have "set_loop k v False (map (Pair k') vs @ flat d) = map (Pair k') vs @ set_loop k v False (flat d)"
      by (intro set_loop_absent) auto
    with False p Cons.IH ok show ?thesis by (auto simp: qp_set_def)
  qed
qed

lemma remove_refines: "qp_remove k (flat d) = flat (dict_remove k d)"
  by (induction d) (auto simp: qp_remove_def dict_remove_def filter_empty_conv intro!: filter_True)

lemma get_list_no_key: "k \<notin> fst ` set ps \<Longrightarrow> qp_get_list k ps = []"
  by (induction ps) (auto simp: qp_get_list_def)

lemma get_list_append [simp]: "qp_get_list k (ps @ qs) = qp_get_list k ps @ qp_get_list k qs"
  by (simp add: qp_get_list_def)

lemma get_list_same [simp]: "qp_get_list k (map (Pair k') vs) = (if k = k' then vs else [])"
  by (induction vs) (auto simp: qp_get_list_def)

lemma get_list_refines: "odict_ok d \<Longrightarrow> qp_get_list k (flat d) = dict_values k d"
proof (induction d)
  case Nil
  then show ?case by (simp add: qp_get_list_def dict_values_def)
next
  case (Cons p d)
  then show ?case
    by (cases p) (auto simp: odict_ok_Cons dict_values_def get_list_no_key flat_no_key)
qed

lemma contains_iff: "qp_contains k ps \<longleftrightarrow> k \<in> fst ` set ps"
  by (force simp: qp_contains_def list_ex_iff)

lemma get_first_of_list: "qp_get k ps = (case qp_get_list k ps of [] \<Rightarrow> None | v # _ \<Rightarrow> Some v)"
  by (induction ps) (auto simp: qp_get_def qp_get_list_def)

lemma keys_loop_skip: "set (map fst ps) \<subseteq> set keys \<Longrightarrow> keys_loop keys (ps @ qs) = keys_loop keys qs"
  by (induction ps) auto

lemma keys_refines: "odict_ok d \<Longrightarrow> qp_keys (flat d) = map fst d"
proof -
  assume "odict_ok d"
  then have "set keys \<inter> fst ` set d = {} \<Longrightarrow> keys_loop keys (flat d) = keys @ map fst d" for keys
  proof (induction d arbitrary: keys)
    case Nil
    then show ?case by simp
  next
    case (Cons p d)
    obtain k vs where p: "p = (k, vs)" by (cases p)
    with Cons.prems obtain w ws where vs: "vs = w # ws" by (cases vs) (auto simp: odict_ok_Cons)
    have "keys_loop (keys @ [k]) (map (Pair k) ws @ flat d) = keys_loop (keys @ [k]) (flat d)"
      by (rule keys_loop_skip) auto
    moreover have "keys_loop (keys @ [k]) (flat d) = (keys @ [k]) @ map fst d"
      by (rule Cons.IH) (use Cons.prems p in \<open>auto simp: odict_ok_Cons\<close>)
    ultimately show ?case using Cons.prems p vs by auto
  qed
  then show ?thesis by (simp add: qp_keys_def)
qed


text \<open>Merging.\<close>

definition overridden :: "pairs \<Rightarrow> odict \<Rightarrow> odict" where
  "overridden other d =
     map (\<lambda>(k, vs). (k, if qp_contains k other then qp_get_list k other else vs)) d"

lemma merge_loop_block:
  assumes "vs \<noteq> []" "k \<notin> set taken"
  shows "merge_loop other taken (map (Pair k) vs @ ps) =
    (if qp_contains k other then
       (case merge_loop other (taken @ [k]) ps of (out, t) \<Rightarrow> (map (Pair k) (qp_get_list k other) @ out, t))
     else (case merge_loop other taken ps of (out, t) \<Rightarrow> (map (Pair k) vs @ out, t)))"
proof -
  have same: "qp_contains k other \<Longrightarrow> k \<in> set t \<Longrightarrow>
      merge_loop other t (map (Pair k) ws @ ps) = merge_loop other t ps" for t ws
    by (induction ws) auto
  have keep: "\<not> qp_contains k other \<Longrightarrow> merge_loop other taken (map (Pair k) ws @ ps) =
      (case merge_loop other taken ps of (out, t) \<Rightarrow> (map (Pair k) ws @ out, t))" for ws
    by (induction ws) (auto split: prod.splits)
  from assms(1) obtain w ws where "vs = w # ws" by (cases vs) auto
  then show ?thesis using assms(2) same [of "taken @ [k]" ws] keep [of vs] by auto
qed

lemma merge_loop_flat:
  "odict_ok d \<Longrightarrow> set taken \<inter> fst ` set d = {} \<Longrightarrow>
     merge_loop other taken (flat d) =
       (flat (overridden other d), taken @ filter (\<lambda>k. qp_contains k other) (map fst d))"
proof (induction d arbitrary: taken)
  case Nil
  then show ?case by (simp add: overridden_def)
next
  case (Cons p d)
  obtain k vs where p: "p = (k, vs)" by (cases p)
  from Cons.prems p have ok: "vs \<noteq> []" "k \<notin> set taken" "k \<notin> fst ` set d" "odict_ok d"
    by (auto simp: odict_ok_Cons)
  have "set (taken @ [k]) \<inter> fst ` set d = {}" "set taken \<inter> fst ` set d = {}"
    using Cons.prems p ok by auto
  with Cons.IH [OF ok(4)] p ok show ?case
    by (simp add: merge_loop_block overridden_def)
qed

lemma dict_update_eq:
  "odict_ok d \<Longrightarrow> odict_ok e \<Longrightarrow>
     dict_update d e = overridden (flat e) d @ filter (\<lambda>(k, _). k \<notin> fst ` set d) e"
proof (induction e arbitrary: d)
  case Nil
  then show ?case by (induction d) (auto simp: overridden_def qp_contains_def)
next
  case (Cons p e)
  obtain k vs where p: "p = (k, vs)" by (cases p)
  from Cons.prems p have ok: "vs \<noteq> []" "k \<notin> fst ` set e" "odict_ok e" by (auto simp: odict_ok_Cons)
  have new: "qp_contains k' (flat (p # e)) \<longleftrightarrow> k' = k \<or> qp_contains k' (flat e)" for k'
    using p ok by (simp add: contains_iff image_Un)
  have vals: "qp_get_list k' (flat (p # e)) = (if k' = k then vs else qp_get_list k' (flat e))" for k'
    using p ok by (simp add: get_list_no_key flat_no_key)
  have nope: "\<not> qp_contains k (flat e)" using ok by (simp add: contains_iff flat_no_key)
  have "overridden (flat e) (map_insert k vs d) =
      overridden (flat (p # e)) d @ (if k \<in> fst ` set d then [] else [(k, vs)])"
    using Cons.prems(1)
  proof (induction d)
    case Nil
    then show ?case using nope by (simp add: overridden_def)
  next
    case (Cons q d)
    have "overridden (flat e) d = overridden (flat (p # e)) d" if "k \<notin> fst ` set d"
      using that unfolding overridden_def
      by (intro map_cong refl) (force simp: new vals simp del: flat_simps)
    with Cons nope show ?case
      by (cases q) (auto simp: overridden_def odict_ok_Cons new vals simp del: flat_simps)
  qed
  moreover have "filter (\<lambda>(k', _). k' \<notin> fst ` set (map_insert k vs d)) e =
      filter (\<lambda>(k', _). k' \<notin> fst ` set d) e"
    using ok(2) by (intro filter_cong) (auto simp: map_insert_keys image_iff)
  ultimately show ?case
    using Cons.IH [OF map_insert_ok [OF Cons.prems(1) ok(1), of k] ok(3)] p by simp
qed

lemma merge_refines:
  assumes "odict_ok d" "odict_ok e"
  shows "qp_merge (flat d) (flat e) = flat (dict_update d e)"
proof -
  have "filter (\<lambda>(k, _). k \<notin> set (filter (\<lambda>k. qp_contains k (flat e)) (map fst d))) (flat e) =
      filter (\<lambda>(k, _). k \<notin> fst ` set d) (flat e)"
    by (intro filter_cong) (auto simp: contains_iff image_iff)
  also have "\<dots> = flat (filter (\<lambda>(k, _). k \<notin> fst ` set d) e)"
  proof (induction e)
    case Nil
    then show ?case by simp
  next
    case (Cons p e)
    then show ?case by (cases p) (simp add: filter_map comp_def)
  qed
  finally show ?thesis
    using merge_loop_flat [OF assms(1), of "[]" "flat e"] dict_update_eq [OF assms]
    by (simp add: qp_merge_def)
qed

lemma dict_values_simps:
  "dict_values k (map_insert k' vs d) = (if k = k' then vs else dict_values k d)"
  "dict_values k (dict_append k' v d) = (if k = k' then dict_values k d @ [v] else dict_values k d)"
  "dict_values k (dict_remove k' d) = (if k = k' then [] else dict_values k d)"
proof -
  show "dict_values k (map_insert k' vs d) = (if k = k' then vs else dict_values k d)"
    by (simp add: dict_values_def map_insert_lookup)
  show "dict_values k (dict_append k' v d) = (if k = k' then dict_values k d @ [v] else dict_values k d)"
    by (induction k' v d rule: dict_append.induct) (auto simp: dict_values_def)
  show "dict_values k (dict_remove k' d) = (if k = k' then [] else dict_values k d)"
    by (induction d) (auto simp: dict_values_def dict_remove_def)
qed

lemma dict_values_update:
  "odict_ok e \<Longrightarrow> dict_values k (dict_update d e) =
     (if dict_values k e = [] then dict_values k d else dict_values k e)"
proof (induction e arbitrary: d)
  case Nil
  then show ?case by (simp add: dict_values_def)
next
  case (Cons p e)
  obtain k' vs where p: "p = (k', vs)" by (cases p)
  from Cons.prems p have ok: "vs \<noteq> []" "k' \<notin> fst ` set e" "odict_ok e" by (auto simp: odict_ok_Cons)
  then have "dict_values k' e = []"
    by (simp add: dict_values_def map_of_eq_None_iff [THEN iffD2])
  with Cons.IH [OF ok(3)] p ok(1) show ?case
    by (auto simp: dict_values_simps) (auto simp: dict_values_def)
qed


section \<open>The contract of a multi-dict\<close>

locale multi_dict =
  fixes ok :: "'m \<Rightarrow> bool"
    and vals :: "'k \<Rightarrow> 'm \<Rightarrow> 'v list"
    and assign :: "'k \<Rightarrow> 'v \<Rightarrow> 'm \<Rightarrow> 'm"
    and extend :: "'k \<Rightarrow> 'v \<Rightarrow> 'm \<Rightarrow> 'm"
    and discard :: "'k \<Rightarrow> 'm \<Rightarrow> 'm"
    and override :: "'m \<Rightarrow> 'm \<Rightarrow> 'm"
  assumes keep: "ok m \<Longrightarrow> ok (assign k v m)" "ok m \<Longrightarrow> ok (extend k v m)" "ok m \<Longrightarrow> ok (discard k m)"
      "ok m \<Longrightarrow> ok m' \<Longrightarrow> ok (override m m')"
    and vals_assign: "ok m \<Longrightarrow> vals k' (assign k v m) = (if k' = k then [v] else vals k' m)"
    and vals_extend: "ok m \<Longrightarrow> vals k' (extend k v m) = (if k' = k then vals k' m @ [v] else vals k' m)"
    and vals_discard: "ok m \<Longrightarrow> vals k' (discard k m) = (if k' = k then [] else vals k' m)"
    and vals_override: "ok m \<Longrightarrow> ok m' \<Longrightarrow>
      vals k' (override m m') = (if vals k' m' = [] then vals k' m else vals k' m')"
begin

lemma assign_then_extend: "ok m \<Longrightarrow> vals k (extend k w (assign k v m)) = [v, w]"
  by (simp add: vals_assign vals_extend keep)

lemma override_assoc:
  "ok a \<Longrightarrow> ok b \<Longrightarrow> ok c \<Longrightarrow>
     vals k (override (override a b) c) = vals k (override a (override b c))"
  by (simp add: vals_override keep)

lemma override_self: "ok a \<Longrightarrow> vals k (override a a) = vals k a"
  by (simp add: vals_override)

lemma discard_override:
  "ok a \<Longrightarrow> ok b \<Longrightarrow> vals k (override (discard k a) b) = vals k b"
  by (simp add: vals_override vals_discard keep)

end

interpretation query: multi_dict grouped qp_get_list qp_set qp_add qp_remove qp_merge
proof
  fix m m' :: pairs and k k' v :: string
  assume m: "grouped m"
  then obtain d where d: "odict_ok d" "m = flat d" by (auto simp: grouped_def)
  have ins: "odict_ok (map_insert k [v] d)" and app: "odict_ok (dict_append k v d)"
    and rem: "odict_ok (dict_remove k d)"
    using d(1) by (simp_all add: map_insert_ok dict_append_ok dict_remove_ok)
  show "grouped (qp_set k v m)" "grouped (qp_add k v m)" "grouped (qp_remove k m)"
    using d ins app rem unfolding grouped_def qp_add_def
    by (metis set_refines, metis push_refines, metis remove_refines)
  show "qp_get_list k' (qp_set k v m) = (if k' = k then [v] else qp_get_list k' m)"
    using d ins by (simp add: set_refines get_list_refines dict_values_simps)
  show "qp_get_list k' (qp_add k v m) = (if k' = k then qp_get_list k' m @ [v] else qp_get_list k' m)"
    using d app by (simp add: qp_add_def push_refines get_list_refines dict_values_simps)
  show "qp_get_list k' (qp_remove k m) = (if k' = k then [] else qp_get_list k' m)"
    using d rem by (simp add: remove_refines get_list_refines dict_values_simps)
  assume "grouped m'"
  then obtain e where e: "odict_ok e" "m' = flat e" by (auto simp: grouped_def)
  then show "grouped (qp_merge m m')"
    using d unfolding grouped_def by (metis merge_refines dict_update_ok)
  show "qp_get_list k' (qp_merge m m') =
      (if qp_get_list k' m' = [] then qp_get_list k' m else qp_get_list k' m')"
    using d e by (simp add: merge_refines get_list_refines dict_update_ok dict_values_update)
qed


section \<open>Properties\<close>

text \<open>C19. The list of pairs is a faithful representation of an insertion-ordered dictionary of
  value lists: every operation on the listing is the listing of the dictionary's operation, the
  keys are its keys in insertion order, and a lookup is its lookup.\<close>

theorem query_refines_dict:
  assumes "odict_ok d" and "odict_ok e"
  shows "qp_add k v (flat d) = flat (dict_append k v d) \<and>
    qp_set k v (flat d) = flat (map_insert k [v] d) \<and>
    qp_remove k (flat d) = flat (dict_remove k d) \<and>
    qp_merge (flat d) (flat e) = flat (dict_update d e) \<and>
    qp_keys (flat d) = map fst d \<and>
    qp_get_list k (flat d) = dict_values k d \<and>
    (qp_contains k (flat d) \<longleftrightarrow> k \<in> fst ` set d)"
  using assms
  by (simp add: qp_add_def push_refines set_refines remove_refines merge_refines keys_refines
      get_list_refines contains_iff flat_keys)

theorem query_refines_dict_witness:
  "qp_merge [(''a'', ''1''), (''a'', ''2''), (''b'', ''3'')] [(''b'', ''4''), (''b'', ''5''), (''c'', ''6'')] =
     [(''a'', ''1''), (''a'', ''2''), (''b'', ''4''), (''b'', ''5''), (''c'', ''6'')]"
  using query_refines_dict [of "[(''a'', [''1'', ''2'']), (''b'', [''3''])]"
      "[(''b'', [''4'', ''5'']), (''c'', [''6''])]"]
  by (simp add: odict_ok_def)

text \<open>Every \<^verbatim>\<open>QueryParams\<close> that can be built keeps the values of a key together:
  parsing, building from items, adding, setting, removing and merging all do.\<close>

theorem query_always_grouped:
  "grouped (qp_parse form_parse q) \<and> grouped (qp_from_items show_float items) \<and>
   (grouped ps \<and> grouped qs \<longrightarrow>
      grouped (qp_add k v ps) \<and> grouped (qp_set k v ps) \<and> grouped (qp_remove k ps) \<and>
      grouped (qp_merge ps qs))"
proof -
  have "grouped []" unfolding grouped_def by (rule exI [of _ "[]"]) simp
  then show ?thesis
    by (simp add: qp_parse_def qp_from_items_def push_all_grouped query.keep)
qed

theorem query_always_grouped_witness:
  "grouped (qp_merge (qp_parse (\<lambda>_. [(''a'', ''1''), (''b'', ''2''), (''a'', ''3'')]) []) [])"
proof -
  have g: "grouped (qp_parse (\<lambda>_. [(''a'', ''1''), (''b'', ''2''), (''a'', ''3'')]) [])" and e: "grouped []"
    using query_always_grouped [of "\<lambda>_. [(''a'', ''1''), (''b'', ''2''), (''a'', ''3'')]" "[]"]
      query_always_grouped [of "\<lambda>_. []" "[]"]
    by (simp_all add: qp_parse_def)
  with query_always_grouped show ?thesis by blast
qed

text \<open>What \<^verbatim>\<open>merge\<close> answers does not depend on how merges are nested, and merging
  parameters into themselves changes no lookup: for a key the later operand carries, all its
  values win, for any other key none of them do.\<close>

theorem query_merge_lookup:
  assumes "grouped a" and "grouped b" and "grouped c"
  shows "qp_get_list k (qp_merge a b) =
      (if qp_contains k b then qp_get_list k b else qp_get_list k a) \<and>
    qp_get_list k (qp_merge (qp_merge a b) c) = qp_get_list k (qp_merge a (qp_merge b c)) \<and>
    qp_get_list k (qp_merge a a) = qp_get_list k a"
proof -
  have "qp_contains k b \<longleftrightarrow> qp_get_list k b \<noteq> []"
    by (force simp: contains_iff qp_get_list_def filter_empty_conv)
  with assms show ?thesis
    by (simp add: query.vals_override query.override_assoc query.override_self del: if_not_P)
qed

theorem query_merge_lookup_witness:
  "qp_get_list ''a'' (qp_merge (qp_merge [(''a'', ''1''), (''a'', ''2'')] [(''b'', ''3'')]) [(''a'', ''4'')]) =
   qp_get_list ''a'' (qp_merge [(''a'', ''1''), (''a'', ''2'')] (qp_merge [(''b'', ''3'')] [(''a'', ''4'')]))"
proof -
  have g: "grouped [(''a'', ''1''), (''a'', ''2'')]" "grouped [(''b'', ''3'')]" "grouped [(''a'', ''4'')]"
    unfolding grouped_def odict_ok_def
    by (rule exI [of _ "[(''a'', [''1'', ''2''])]"], simp)
       (rule exI [of _ "[(''b'', [''3''])]"], simp, rule exI [of _ "[(''a'', [''4''])]"], simp)
  from query_merge_lookup [OF g, of "''a''"] show ?thesis by blast
qed

lemma sort_eq_mset: "sort xs = sort ys \<longleftrightarrow> mset xs = mset ys"
  by (metis mset_sort properties_for_sort sorted_sort)

text \<open>Equality of query parameters ignores order and nothing else, is an equivalence, and
  equal parameters hash equally whatever the hasher.\<close>

theorem query_eq_hash:
  "(qp_eq a b \<longleftrightarrow> mset a = mset b) \<and>
   (qp_eq a b \<longrightarrow> qp_hash hasher a = qp_hash hasher b) \<and>
   (qp_eq a b \<longrightarrow> mset (qp_get_list k a) = mset (qp_get_list k b))"
proof -
  have "mset (qp_get_list k ps) = image_mset snd (filter_mset (\<lambda>(k', _). k' = k) (mset ps))" for ps
    by (simp add: qp_get_list_def)
  moreover have "qp_eq a b \<longleftrightarrow> mset a = mset b"
    by (simp add: qp_eq_def qp_sorted_def sort_eq_mset)
  moreover have "qp_eq a b \<Longrightarrow> qp_hash hasher a = qp_hash hasher b"
    by (simp add: qp_eq_def qp_hash_def)
  ultimately show ?thesis by simp
qed

theorem query_eq_hash_witness:
  "qp_hash (map fst) [(''b'', ''1''), (''a'', ''2'')] = qp_hash (map fst) [(''a'', ''2''), (''b'', ''1'')]"
  using query_eq_hash [of "[(''b'', ''1''), (''a'', ''2'')]" "[(''a'', ''2''), (''b'', ''1'')]" "map fst"]
  by simp

text \<open>Printing and parsing again gives back the same parameters, in the same order, when the
  form parser inverts the form serializer on their pairs.\<close>

theorem query_display_parse:
  assumes "grouped ps" and "form_parse (form_serialize ps) = ps"
  shows "qp_parse form_parse (qp_display form_serialize ps) = ps"
proof -
  obtain d where d: "odict_ok d" "ps = flat d" using assms(1) by (auto simp: grouped_def)
  have block: "push_all (map (Pair k) vs) (flat e @ map (Pair k) us) = flat e @ map (Pair k) (us @ vs)"
    if "k \<notin> fst ` set e" for k vs us and e :: odict
  proof (induction vs arbitrary: us)
    case Nil
    then show ?case by simp
  next
    case (Cons v vs)
    have "qp_push k v (flat e @ map (Pair k) us) = flat e @ map (Pair k) (us @ [v])"
    proof (cases us rule: rev_cases)
      case Nil
      then show ?thesis using that by (simp add: qp_push_new flat_no_key)
    next
      case (snoc ws w)
      then show ?thesis using qp_push_last [of k "[]" v "flat e @ map (Pair k) ws" w] by simp
    qed
    with Cons [of "us @ [v]"] show ?case by simp
  qed
  have append: "push_all (new @ more) qs = push_all more (push_all new qs)" for new more qs
    by (induction new arbitrary: qs) auto
  have "odict_ok (e @ d) \<Longrightarrow> push_all (flat d) (flat e) = flat (e @ d)" for e
  proof (induction d arbitrary: e)
    case Nil
    then show ?case by simp
  next
    case (Cons p d)
    obtain k vs where p: "p = (k, vs)" by (cases p)
    with Cons.prems have "k \<notin> fst ` set e" by (auto simp: odict_ok_def)
    then have "push_all (map (Pair k) vs) (flat e) = flat (e @ [p])"
      using block [of k e vs "[]"] p by simp
    with Cons.IH [of "e @ [p]"] Cons.prems p show ?case by (simp add: append)
  qed
  from this [of "[]"] d assms(2) show ?thesis by (simp add: qp_parse_def qp_display_def)
qed

theorem query_display_parse_witness:
  "qp_parse (\<lambda>s. if s = ''a=1&a=2'' then [(''a'', ''1''), (''a'', ''2'')] else [])
     (qp_display (\<lambda>ps. if ps = [(''a'', ''1''), (''a'', ''2'')] then ''a=1&a=2'' else [])
       [(''a'', ''1''), (''a'', ''2'')]) = [(''a'', ''1''), (''a'', ''2'')]"
proof (rule query_display_parse)
  show "grouped [(''a'', ''1''), (''a'', ''2'')]"
    unfolding grouped_def odict_ok_def by (rule exI [of _ "[(''a'', [''1'', ''2''])]"]) simp
qed simp

end
