(* ===== verification/Rqx_Url.thy ===== *)
theory Rqx_Url
  imports Rqx_Query
begin

text \<open>
  URLs: \<^verbatim>\<open>rqx-core/src/url/reference.rs\<close>, \<^verbatim>\<open>url/components.rs\<close>
  and \<^verbatim>\<open>url/base_url.rs\<close>.

  The parsers are other crates': \<open>ul\<close> is the \<^verbatim>\<open>url::Url\<close> type with the methods the
  code calls, \<open>il\<close> the relative references of \<^verbatim>\<open>iri-string\<close>, its percent-encoders,
  \<^verbatim>\<open>idna\<close> and \<^verbatim>\<open>percent-encoding\<close>.
\<close>

datatype url_host = Domain string | Ipv4 "32 word" | Ipv6 "128 word"

text \<open>\<^verbatim>\<open>url::ParseError\<close>: the one case the code tells apart, and the display of any other.\<close>

datatype parse_error = RelativeUrlWithoutBase | OtherError string

record 'u url_lib =
  u_parse :: "string \<Rightarrow> parse_error + 'u"
  u_str :: "'u \<Rightarrow> string"
  u_scheme :: "'u \<Rightarrow> string"
  u_username :: "'u \<Rightarrow> string"
  u_password :: "'u \<Rightarrow> string option"
  u_host :: "'u \<Rightarrow> url_host option"
  u_host_str :: "'u \<Rightarrow> string option"
  u_port :: "'u \<Rightarrow> u16 option"
  u_port_or_known_default :: "'u \<Rightarrow> u16 option"
  u_path :: "'u \<Rightarrow> string"
  u_query :: "'u \<Rightarrow> string option"
  u_fragment :: "'u \<Rightarrow> string option"
  u_has_authority :: "'u \<Rightarrow> bool"
  u_join :: "'u \<Rightarrow> string \<Rightarrow> string + 'u"
  u_set_path :: "string \<Rightarrow> 'u \<Rightarrow> 'u"
  u_set_query :: "string option \<Rightarrow> 'u \<Rightarrow> 'u"
  u_origin :: "'u \<Rightarrow> (string \<times> url_host \<times> u16) option"

text \<open>An opaque origin (\<open>None\<close>) is equal to no other, not even one of the same URL.\<close>

definition origin_eq :: "'u url_lib \<Rightarrow> 'u \<Rightarrow> 'u \<Rightarrow> bool" where
  "origin_eq ul a b \<longleftrightarrow> u_origin ul a \<noteq> None \<and> u_origin ul a = u_origin ul b"

record rel_authority =
  ra_userinfo :: "string option"
  ra_host :: string
  ra_port :: "string option"

record 'r iri_lib =
  r_new :: "string \<Rightarrow> string + 'r"
  r_str :: "'r \<Rightarrow> string"
  r_authority :: "'r \<Rightarrow> rel_authority option"
  r_authority_str :: "'r \<Rightarrow> string option"
  r_path :: "'r \<Rightarrow> string"
  r_query :: "'r \<Rightarrow> string option"
  r_fragment :: "'r \<Rightarrow> string option"
  enc_path :: "string \<Rightarrow> string"
  enc_query :: "string \<Rightarrow> string"
  enc_fragment :: "string \<Rightarrow> string"
  mask_password :: "string \<Rightarrow> string option"
  domain_to_unicode :: "string \<Rightarrow> string option"
  percent_decode_lossy :: "string \<Rightarrow> string"

datatype ('u, 'r) url_reference = Absolute 'u | Relative 'r


section \<open>String operations of the standard library\<close>

definition starts_with :: "string \<Rightarrow> string \<Rightarrow> bool" where
  "starts_with pre s \<longleftrightarrow> take (length pre) s = pre"

definition strip_prefix :: "string \<Rightarrow> string \<Rightarrow> string option" where
  "strip_prefix pre s = (if starts_with pre s then Some (drop (length pre) s) else None)"

definition ends_with :: "string \<Rightarrow> string \<Rightarrow> bool" where
  "ends_with suf s \<longleftrightarrow> length suf \<le> length s \<and> drop (length s - length suf) s = suf"

function trim_start :: "string \<Rightarrow> string \<Rightarrow> string" where
  "trim_start pat s =
     (if pat \<noteq> [] \<and> starts_with pat s then trim_start pat (drop (length pat) s) else s)"
  by pat_completeness auto
termination
proof (relation "measure (\<lambda>(pat, s). length s)")
  fix pat s assume "pat \<noteq> [] \<and> starts_with pat s"
  then have "s \<noteq> []" "pat \<noteq> []" by (auto simp: starts_with_def)
  then show "((pat, drop (length pat) s), pat, s) \<in> measure (\<lambda>(pat, s). length s)"
    by (cases s; cases pat) auto
qed simp

declare trim_start.simps [simp del]

definition trim_end_char :: "char \<Rightarrow> string \<Rightarrow> string" where
  "trim_end_char c s = rev (dropWhile (\<lambda>x. x = c) (rev s))"

fun split_once :: "char \<Rightarrow> string \<Rightarrow> (string \<times> string) option" where
  "split_once c [] = None"
| "split_once c (x # xs) =
     (if x = c then Some ([], xs) else map_option (\<lambda>(a, b). (x # a, b)) (split_once c xs))"

lemma split_once_Some: "split_once c s = Some (a, b) \<Longrightarrow> s = a @ c # b \<and> c \<notin> set a"
  by (induction s arbitrary: a) (auto split: if_splits)

lemma split_once_None: "split_once c s = None \<longleftrightarrow> c \<notin> set s"
  by (induction s) auto

definition or_empty :: "string option \<Rightarrow> string" where
  "or_empty s = (case s of Some x \<Rightarrow> x | None \<Rightarrow> [])"

text \<open>\<^verbatim>\<open>str::parse::<u16>\<close>: an optional \<open>+\<close>, then digits only, in range.\<close>

definition parse_u16 :: "string \<Rightarrow> u16 option" where
  "parse_u16 s =
     (let t = (case s of CHR ''+'' # r \<Rightarrow> r | _ \<Rightarrow> s);
          is_digit = (\<lambda>c. 48 \<le> (of_char c :: nat) \<and> (of_char c :: nat) \<le> 57);
          n = foldl (\<lambda>acc c. acc * 10 + (of_char c - 48)) (0::nat) t
      in if t \<noteq> [] \<and> list_all is_digit t \<and> n < 65536 then Some (of_nat n) else None)"


section \<open>Parsing\<close>

definition url_invalid :: "string \<Rightarrow> string \<Rightarrow> rqx_error" where
  "url_invalid input e = InvalidURL (''invalid URL '' @ debug_str input @ '': '' @ e)"

definition parse_error_display :: "parse_error \<Rightarrow> string" where
  "parse_error_display e =
     (case e of RelativeUrlWithoutBase \<Rightarrow> ''relative URL without a base'' | OtherError m \<Rightarrow> m)"

definition encode_path :: "'r iri_lib \<Rightarrow> string \<Rightarrow> string" where
  "encode_path il input =
     (let (head, fragment) = (case split_once CHR ''#'' input of
            Some (h, f) \<Rightarrow> (h, Some f) | None \<Rightarrow> (input, None));
          (path, query) = (case split_once CHR ''?'' head of
            Some (p, q) \<Rightarrow> (p, Some q) | None \<Rightarrow> (head, None))
      in enc_path il path
         @ (case query of Some q \<Rightarrow> ''?'' @ enc_query il q | None \<Rightarrow> [])
         @ (case fragment of Some f \<Rightarrow> ''#'' @ enc_fragment il f | None \<Rightarrow> []))"

definition encode_relative :: "'u url_lib \<Rightarrow> 'r iri_lib \<Rightarrow> string \<Rightarrow> string" where
  "encode_relative ul il input =
     (case strip_prefix ''//'' input of
        None \<Rightarrow> encode_path il input
      | Some rest \<Rightarrow>
          (case (u_parse ul (''ftp:'' @ input), u_parse ul (''ws:'' @ input)) of
             (Inr ftp, Inr ws) \<Rightarrow>
               (let parsed = (if u_port ul ftp = None \<and> u_port ul ws \<noteq> None then ws else ftp);
                    encoded = trim_start '':'' (trim_start (u_scheme ul parsed) (u_str ul parsed))
                in if list_ex (\<lambda>c. c \<in> {CHR ''/'', CHR ''?'', CHR ''#''}) rest then encoded
                   else trim_end_char CHR ''/'' encoded)
           | _ \<Rightarrow> encode_path il input))"

definition parse_relative ::
  "'u url_lib \<Rightarrow> 'r iri_lib \<Rightarrow> string \<Rightarrow> rqx_error + ('u, 'r) url_reference" where
  "parse_relative ul il input =
     (case r_new il input of
        Inr r \<Rightarrow> Inr (Relative r)
      | Inl _ \<Rightarrow>
          (case r_new il (encode_relative ul il input) of
             Inr r \<Rightarrow> Inr (Relative r)
           | Inl e \<Rightarrow> Inl (url_invalid input e)))"

definition url_parse ::
  "'u url_lib \<Rightarrow> 'r iri_lib \<Rightarrow> string \<Rightarrow> rqx_error + ('u, 'r) url_reference" where
  "url_parse ul il input =
     (case u_parse ul input of
        Inr u \<Rightarrow> Inr (Absolute u)
      | Inl RelativeUrlWithoutBase \<Rightarrow> parse_relative ul il input
      | Inl (OtherError m) \<Rightarrow> Inl (url_invalid input (parse_error_display (OtherError m))))"


section \<open>Components\<close>



definition is_absolute :: "'u url_lib \<Rightarrow> ('u, 'r) url_reference \<Rightarrow> bool" where
  "is_absolute ul x \<longleftrightarrow> (case x of Absolute u \<Rightarrow> u_host ul u \<noteq> None | Relative _ \<Rightarrow> False)"

definition url_authority :: "'r iri_lib \<Rightarrow> ('u, 'r) url_reference \<Rightarrow> rel_authority option" where
  "url_authority il x = (case x of Absolute _ \<Rightarrow> None | Relative r \<Rightarrow> r_authority il r)"

definition url_scheme :: "'u url_lib \<Rightarrow> ('u, 'r) url_reference \<Rightarrow> string" where
  "url_scheme ul x = (case x of Absolute u \<Rightarrow> u_scheme ul u | Relative _ \<Rightarrow> [])"

definition url_userinfo :: "'r iri_lib \<Rightarrow> ('u, 'r) url_reference \<Rightarrow> string \<times> string" where
  "url_userinfo il x =
     (case Option.bind (url_authority il x) ra_userinfo of
        None \<Rightarrow> ([], [])
      | Some ui \<Rightarrow> (case split_once CHR '':'' ui of Some p \<Rightarrow> p | None \<Rightarrow> (ui, [])))"

definition url_username :: "'u url_lib \<Rightarrow> 'r iri_lib \<Rightarrow> ('u, 'r) url_reference \<Rightarrow> string" where
  "url_username ul il x =
     (case x of Absolute u \<Rightarrow> u_username ul u | Relative _ \<Rightarrow> fst (url_userinfo il x))"

definition url_password :: "'u url_lib \<Rightarrow> 'r iri_lib \<Rightarrow> ('u, 'r) url_reference \<Rightarrow> string" where
  "url_password ul il x =
     (case x of Absolute u \<Rightarrow> or_empty (u_password ul u) | Relative _ \<Rightarrow> snd (url_userinfo il x))"

definition encoded_host :: "'u url_lib \<Rightarrow> 'r iri_lib \<Rightarrow> ('u, 'r) url_reference \<Rightarrow> string" where
  "encoded_host ul il x =
     (case x of
        Absolute u \<Rightarrow> or_empty (u_host_str ul u)
      | Relative _ \<Rightarrow> (case url_authority il x of Some a \<Rightarrow> ra_host a | None \<Rightarrow> []))"

definition url_host_name :: "'u url_lib \<Rightarrow> 'r iri_lib \<Rightarrow> ('u, 'r) url_reference \<Rightarrow> string" where
  "url_host_name ul il x =
     (let h = encoded_host ul il x in
      case Option.bind (strip_prefix ''['' h)
          (\<lambda>t. if ends_with '']'' t then Some (butlast t) else None) of
        Some literal \<Rightarrow> literal
      | None \<Rightarrow>
          if h = [] then []
          else (case domain_to_unicode il h of Some s \<Rightarrow> s | None \<Rightarrow> h))"

definition url_port :: "'u url_lib \<Rightarrow> 'r iri_lib \<Rightarrow> ('u, 'r) url_reference \<Rightarrow> u16 option" where
  "url_port ul il x =
     (case x of
        Absolute u \<Rightarrow> u_port ul u
      | Relative _ \<Rightarrow> Option.bind (Option.bind (url_authority il x) ra_port) parse_u16)"

definition encoded_path :: "'u url_lib \<Rightarrow> 'r iri_lib \<Rightarrow> ('u, 'r) url_reference \<Rightarrow> string" where
  "encoded_path ul il x = (case x of Absolute u \<Rightarrow> u_path ul u | Relative r \<Rightarrow> r_path il r)"

definition encoded_path_or_root :: "'u url_lib \<Rightarrow> 'r iri_lib \<Rightarrow> ('u, 'r) url_reference \<Rightarrow> string" where
  "encoded_path_or_root ul il x =
     (let p = encoded_path ul il x in if p = [] then ''/'' else p)"

definition url_path :: "'u url_lib \<Rightarrow> 'r iri_lib \<Rightarrow> ('u, 'r) url_reference \<Rightarrow> string" where
  "url_path ul il x = percent_decode_lossy il (encoded_path_or_root ul il x)"

definition url_query :: "'u url_lib \<Rightarrow> 'r iri_lib \<Rightarrow> ('u, 'r) url_reference \<Rightarrow> string" where
  "url_query ul il x =
     or_empty (case x of Absolute u \<Rightarrow> u_query ul u | Relative r \<Rightarrow> r_query il r)"

definition raw_path :: "'u url_lib \<Rightarrow> 'r iri_lib \<Rightarrow> ('u, 'r) url_reference \<Rightarrow> string" where
  "raw_path ul il x =
     (let raw = encoded_path_or_root ul il x; q = url_query ul il x in
      if q = [] then raw else raw @ ''?'' @ q)"

definition url_params ::
  "(string \<Rightarrow> pairs) \<Rightarrow> 'u url_lib \<Rightarrow> 'r iri_lib \<Rightarrow> ('u, 'r) url_reference \<Rightarrow> pairs" where
  "url_params form_parse ul il x = qp_parse form_parse (url_query ul il x)"

definition url_fragment :: "'u url_lib \<Rightarrow> 'r iri_lib \<Rightarrow> ('u, 'r) url_reference \<Rightarrow> string" where
  "url_fragment ul il x =
     or_empty (case x of Absolute u \<Rightarrow> u_fragment ul u | Relative r \<Rightarrow> r_fragment il r)"

definition url_display :: "'u url_lib \<Rightarrow> 'r iri_lib \<Rightarrow> ('u, 'r) url_reference \<Rightarrow> string" where
  "url_display ul il x = (case x of Absolute u \<Rightarrow> u_str ul u | Relative r \<Rightarrow> r_str il r)"

definition url_eq ::
  "'u url_lib \<Rightarrow> 'r iri_lib \<Rightarrow> ('u, 'r) url_reference \<Rightarrow> ('u, 'r) url_reference \<Rightarrow> bool" where
  "url_eq ul il a b \<longleftrightarrow> url_display ul il a = url_display ul il b"

definition url_hash ::
  "'u url_lib \<Rightarrow> 'r iri_lib \<Rightarrow> (string \<Rightarrow> 'a) \<Rightarrow> ('u, 'r) url_reference \<Rightarrow> 'a" where
  "url_hash ul il hasher a = hasher (url_display ul il a)"

definition masked :: "'u url_lib \<Rightarrow> 'r iri_lib \<Rightarrow> ('u, 'r) url_reference \<Rightarrow> string" where
  "masked ul il x =
     (let s = url_display ul il x in case mask_password il s of Some m \<Rightarrow> m | None \<Rightarrow> s)"

datatype component_value = VStr string | VBytes bytes | VInt u16 | VPairs pairs

definition component_display :: "(pairs \<Rightarrow> string) \<Rightarrow> component_value \<Rightarrow> string" where
  "component_display form_serialize v =
     (case v of
        VStr s \<Rightarrow> s
      | VBytes b \<Rightarrow> ustr_string (utf8_lossy b)
      | VInt n \<Rightarrow> show_nat (unat n)
      | VPairs ps \<Rightarrow> qp_display form_serialize ps)"

definition component_type_name :: "component_value \<Rightarrow> string" where
  "component_type_name v =
     (case v of VStr _ \<Rightarrow> ''str'' | VBytes _ \<Rightarrow> ''bytes'' | VInt _ \<Rightarrow> ''int'' | VPairs _ \<Rightarrow> ''QueryPairs'')"

record url_components =
  c_scheme :: "string option"
  c_username :: "string option"
  c_password :: "string option"
  c_host :: "string option"
  c_port :: "u16 option option"
  c_path :: "string option"
  c_query :: "string option"
  c_fragment :: "string option"

definition no_components :: url_components where
  "no_components =
     \<lparr>c_scheme = None, c_username = None, c_password = None, c_host = None, c_port = None,
      c_path = None, c_query = None, c_fragment = None\<rparr>"

definition field_str :: "(pairs \<Rightarrow> string) \<Rightarrow> component_value option \<Rightarrow> string option" where
  "field_str form_serialize v =
     Some (case v of Some x \<Rightarrow> component_display form_serialize x | None \<Rightarrow> [])"

definition field_u16 :: "component_value option \<Rightarrow> rqx_error + u16 option" where
  "field_u16 v =
     (case v of
        None \<Rightarrow> Inr None
      | Some (VInt n) \<Rightarrow> Inr (Some n)
      | Some x \<Rightarrow> Inl (InvalidURL
          (''Component value must be u16 for u16 field, but got '' @ component_type_name x)))"

definition with_component ::
  "(pairs \<Rightarrow> string) \<Rightarrow> string \<Rightarrow> component_value option \<Rightarrow> url_components \<Rightarrow>
     rqx_error + url_components" where
  "with_component form_serialize key v c =
     (let f = field_str form_serialize v in
      if key = ''scheme'' then Inr (c\<lparr>c_scheme := f\<rparr>)
      else if key = ''username'' then Inr (c\<lparr>c_username := f\<rparr>)
      else if key = ''password'' then Inr (c\<lparr>c_password := f\<rparr>)
      else if key = ''host'' then Inr (c\<lparr>c_host := f\<rparr>)
      else if key = ''port'' then
        (case field_u16 v of Inl e \<Rightarrow> Inl e | Inr p \<Rightarrow> Inr (c\<lparr>c_port := Some p\<rparr>))
      else if key = ''path'' then Inr (c\<lparr>c_path := f\<rparr>)
      else if key = ''query'' then Inr (c\<lparr>c_query := f\<rparr>)
      else if key = ''fragment'' then Inr (c\<lparr>c_fragment := f\<rparr>)
      else if key = ''params'' then Inr (c\<lparr>c_query := f\<rparr>)
      else Inl (UnknownKeyword (QUOTE @ key @ QUOTE @ '' is an invalid keyword argument for URL()'')))"

text \<open>The keyword arguments, in the order the hash map happens to yield them.\<close>

fun components_loop ::
  "(pairs \<Rightarrow> string) \<Rightarrow> (string \<times> component_value option) list \<Rightarrow> url_components \<Rightarrow>
     rqx_error + url_components" where
  "components_loop form_serialize [] c = Inr c"
| "components_loop form_serialize ((k, v) # kvs) c =
     (case with_component form_serialize k v c of
        Inl e \<Rightarrow> Inl e
      | Inr c' \<Rightarrow> components_loop form_serialize kvs c')"

definition components_from_map ::
  "(pairs \<Rightarrow> string) \<Rightarrow> (string \<times> component_value option) list \<Rightarrow> rqx_error + url_components" where
  "components_from_map form_serialize kvs = components_loop form_serialize kvs no_components"


section \<open>Composing and resolving\<close>

definition pick :: "'a option \<Rightarrow> 'a \<Rightarrow> 'a" where
  "pick o1 d = (case o1 of Some x \<Rightarrow> x | None \<Rightarrow> d)"

definition assemble ::
  "string \<Rightarrow> string \<Rightarrow> string \<Rightarrow> string \<Rightarrow> u16 option \<Rightarrow> string \<Rightarrow> string \<Rightarrow> string \<Rightarrow> string" where
  "assemble scheme username password host port path query fragment =
     (if host = [] then []
      else (if scheme = [] then [] else scheme @ '':'') @ ''//'' @
        (if username = [] \<and> password = [] then []
         else username @ (if password = [] then [] else '':'' @ password) @ ''@'') @
        host @ (case port of Some p \<Rightarrow> '':'' @ show_nat (unat p) | None \<Rightarrow> []) @
        (if path \<noteq> [] \<and> \<not> starts_with ''/'' path then ''/'' else [])) @
     path @ (if query = [] then [] else ''?'' @ query) @
     (if fragment = [] then [] else ''#'' @ fragment)"

definition compose ::
  "'u url_lib \<Rightarrow> 'r iri_lib \<Rightarrow> ('u, 'r) url_reference option \<Rightarrow> url_components \<Rightarrow>
     rqx_error + ('u, 'r) url_reference" where
  "compose ul il base c =
     (let current = (\<lambda>read. case base of Some b \<Rightarrow> read b | None \<Rightarrow> []) in
      url_parse ul il
        (assemble (pick (c_scheme c) (current (url_scheme ul)))
           (pick (c_username c) (current (url_username ul il)))
           (pick (c_password c) (current (url_password ul il)))
           (pick (c_host c) (current (encoded_host ul il)))
           (pick (c_port c) (Option.bind base (url_port ul il)))
           (pick (c_path c) (current (encoded_path ul il)))
           (pick (c_query c) (current (url_query ul il)))
           (pick (c_fragment c) (current (url_fragment ul il)))))"

definition with_params ::
  "'u url_lib \<Rightarrow> 'r iri_lib \<Rightarrow> (pairs \<Rightarrow> string) \<Rightarrow> pairs \<Rightarrow> ('u, 'r) url_reference \<Rightarrow>
     rqx_error + ('u, 'r) url_reference" where
  "with_params ul il form_serialize ps x =
     compose ul il (Some x) (no_components\<lparr>c_query := Some (qp_display form_serialize ps)\<rparr>)"

definition copy_with ::
  "'u url_lib \<Rightarrow> 'r iri_lib \<Rightarrow> (pairs \<Rightarrow> string) \<Rightarrow> (string \<times> component_value option) list \<Rightarrow>
     ('u, 'r) url_reference \<Rightarrow> rqx_error + ('u, 'r) url_reference" where
  "copy_with ul il form_serialize kwargs x =
     (if kwargs = [] then Inr x
      else (case components_from_map form_serialize kwargs of
              Inl e \<Rightarrow> Inl e
            | Inr c \<Rightarrow> compose ul il (Some x) c))"

definition copy_set_param where
  "copy_set_param ul il form_parse form_serialize show_float key v x =
     with_params ul il form_serialize
       (qp_set key (qp_scalar show_float v) (url_params form_parse ul il x)) x"

definition copy_add_param where
  "copy_add_param ul il form_parse form_serialize show_float key v x =
     with_params ul il form_serialize
       (qp_add key (qp_scalar show_float v) (url_params form_parse ul il x)) x"

definition copy_remove_param where
  "copy_remove_param ul il form_parse form_serialize key x =
     with_params ul il form_serialize (qp_remove key (url_params form_parse ul il x)) x"

definition copy_merge_params where
  "copy_merge_params ul il form_parse form_serialize ps x =
     (case ps of
        Some p \<Rightarrow> with_params ul il form_serialize (qp_merge (url_params form_parse ul il x) p) x
      | None \<Rightarrow> Inr x)"

definition ANCHOR :: string where "ANCHOR = ''http://rqx.invalid''"

definition join_relative ::
  "'u url_lib \<Rightarrow> 'r iri_lib \<Rightarrow> 'r \<Rightarrow> string \<Rightarrow> rqx_error + ('u, 'r) url_reference" where
  "join_relative ul il r other =
     (if \<not> isl (u_parse ul other) \<or> starts_with ''//'' other then url_parse ul il other
      else
        (let path = r_path il r;
             anchored_base = ANCHOR @ ''/'' @ trim_start ''/'' path @
               (case r_query il r of Some q \<Rightarrow> ''?'' @ q | None \<Rightarrow> []) in
         case u_parse ul anchored_base of
           Inl e \<Rightarrow> Inl (url_invalid (r_str il r) (parse_error_display e))
         | Inr anchored \<Rightarrow>
             (case u_join ul anchored other of
                Inl e \<Rightarrow> Inl (url_invalid other e)
              | Inr joined \<Rightarrow>
                  (let full = u_str ul joined; tail = pick (strip_prefix ANCHOR full) full in
                   url_parse ul il
                     (case r_authority_str il r of
                        Some a \<Rightarrow> ''//'' @ a @ tail
                      | None \<Rightarrow>
                          if starts_with ''/'' path \<or> starts_with ''/'' other then tail
                          else trim_start ''/'' tail)))))"

definition url_join ::
  "'u url_lib \<Rightarrow> 'r iri_lib \<Rightarrow> ('u, 'r) url_reference \<Rightarrow> string \<Rightarrow>
     rqx_error + ('u, 'r) url_reference" where
  "url_join ul il x other =
     (if other = [] then Inr x
      else (case x of
              Absolute u \<Rightarrow>
                (case u_join ul u other of
                   Inl e \<Rightarrow> Inl (url_invalid other e)
                 | Inr v \<Rightarrow> Inr (Absolute v))
            | Relative r \<Rightarrow> join_relative ul il r other))"


section \<open>The base URL\<close>

definition with_trailing_slash :: "'u url_lib \<Rightarrow> 'u \<Rightarrow> 'u" where
  "with_trailing_slash ul u =
     (if ends_with ''/'' (u_path ul u) then u else u_set_path ul (u_path ul u @ ''/'') u)"

definition base_url_new ::
  "'u url_lib \<Rightarrow> 'r iri_lib \<Rightarrow> ('u, 'r) url_reference \<Rightarrow> rqx_error + 'u" where
  "base_url_new ul il x =
     (case x of
        Absolute u \<Rightarrow> Inr (with_trailing_slash ul u)
      | Relative _ \<Rightarrow> Inl (InvalidURL (''invalid base_url '' @ [CHR 0x22] @ url_display ul il x @
          [CHR 0x22] @ '': relative URL without a base'')))"

definition base_url_join ::
  "'u url_lib \<Rightarrow> 'r iri_lib \<Rightarrow> 'u \<Rightarrow> ('u, 'r) url_reference \<Rightarrow> rqx_error + 'u" where
  "base_url_join ul il base x =
     (case u_join ul base (trim_start ''/'' (raw_path ul il x)) of
        Inr u \<Rightarrow> Inr u
      | Inl e \<Rightarrow> Inl (InvalidURL (''could not join base_url with '' @ [CHR 0x22] @
          url_display ul il x @ [CHR 0x22] @ '': '' @ e)))"

end
