(* ===== verification/Rqx_Retry.thy ===== *)
theory Rqx_Retry
  imports Rqx_Response
begin

text \<open>
  Retries: \<^verbatim>\<open>rqx-core/src/retry.rs\<close>, the constructor of \<^verbatim>\<open>rqx/src/retry.rs\<close> and the
  state machine \<^verbatim>\<open>Transport::send_with_retries\<close> of \<^verbatim>\<open>rqx-core/src/transport.rs\<close>.

  What is outside the program -- the HTTP client, the clock, the random generator, the timer and
  the draining of a body -- is the argument \<open>env\<close>: functions on a state of the world that
  every effect threads.  \<^verbatim>\<open>i32\<close> values are \<open>int\<close>; the counters stay between 0 and the
  configured caps, so they never wrap.
\<close>

datatype failure_kind = FConnect | FRead | FStatus

definition kind_of_error :: "reqwest_error \<Rightarrow> failure_kind" where
  "kind_of_error e = (if is_connect e then FConnect else FRead)"

record retry_counts =
  n_total :: int
  n_connect :: int
  n_read :: int
  n_status :: int

definition no_retries :: retry_counts where
  "no_retries = \<lparr>n_total = 0, n_connect = 0, n_read = 0, n_status = 0\<rparr>"

fun record_retry :: "failure_kind \<Rightarrow> retry_counts \<Rightarrow> retry_counts" where
  "record_retry FConnect c = c\<lparr>n_total := n_total c + 1, n_connect := n_connect c + 1\<rparr>"
| "record_retry FRead c = c\<lparr>n_total := n_total c + 1, n_read := n_read c + 1\<rparr>"
| "record_retry FStatus c = c\<lparr>n_total := n_total c + 1, n_status := n_status c + 1\<rparr>"

record retry =
  rt_total :: int
  rt_connect :: int
  rt_read :: int
  rt_status :: int
  rt_backoff_factor :: fl
  rt_backoff_max :: fl
  rt_backoff_jitter :: fl
  rt_status_forcelist :: "u16 set"
  rt_allowed_methods :: "string set"
  rt_respect_retry_after :: bool
  rt_raise_on_status :: bool
  rt_total_timeout :: "fl option"

definition DEFAULT_TOTAL_RETRIES :: int where "DEFAULT_TOTAL_RETRIES = 3"
definition DEFAULT_BACKOFF_FACTOR :: fl where "DEFAULT_BACKOFF_FACTOR = Fin 0"
definition DEFAULT_BACKOFF_MAX :: fl where "DEFAULT_BACKOFF_MAX = Fin 120"
definition DEFAULT_BACKOFF_JITTER :: fl where "DEFAULT_BACKOFF_JITTER = Fin 0"
definition DEFAULT_ALLOWED_METHODS :: "string set" where
  "DEFAULT_ALLOWED_METHODS = {''DELETE'', ''GET'', ''HEAD'', ''OPTIONS'', ''PUT''}"

definition unwrap_or :: "'a option \<Rightarrow> 'a \<Rightarrow> 'a" where
  "unwrap_or x d = (case x of Some v \<Rightarrow> v | None \<Rightarrow> d)"

definition retry_new ::
  "int option \<Rightarrow> int option \<Rightarrow> int option \<Rightarrow> int option \<Rightarrow> fl option \<Rightarrow> fl option \<Rightarrow> fl option \<Rightarrow>
     u16 set option \<Rightarrow> string set option \<Rightarrow> bool option \<Rightarrow> bool option \<Rightarrow> fl option \<Rightarrow> retry" where
  "retry_new tot connect read status factor bmax jitter forcelist methods respect raise timeout =
     (let default_total = unwrap_or tot DEFAULT_TOTAL_RETRIES in
      \<lparr>rt_total = default_total,
       rt_connect = unwrap_or connect default_total,
       rt_read = unwrap_or read default_total,
       rt_status = unwrap_or status default_total,
       rt_backoff_factor = unwrap_or factor DEFAULT_BACKOFF_FACTOR,
       rt_backoff_max = unwrap_or bmax DEFAULT_BACKOFF_MAX,
       rt_backoff_jitter = unwrap_or jitter DEFAULT_BACKOFF_JITTER,
       rt_status_forcelist = unwrap_or forcelist {},
       rt_allowed_methods = unwrap_or methods DEFAULT_ALLOWED_METHODS,
       rt_respect_retry_after = unwrap_or respect True,
       rt_raise_on_status = unwrap_or raise True,
       rt_total_timeout = timeout\<rparr>)"

fun cap_of :: "failure_kind \<Rightarrow> retry \<Rightarrow> int" where
  "cap_of FConnect r = rt_connect r"
| "cap_of FRead r = rt_read r"
| "cap_of FStatus r = rt_status r"

fun used_of :: "failure_kind \<Rightarrow> retry_counts \<Rightarrow> int" where
  "used_of FConnect c = n_connect c"
| "used_of FRead c = n_read c"
| "used_of FStatus c = n_status c"

definition allows_another :: "retry \<Rightarrow> failure_kind \<Rightarrow> retry_counts \<Rightarrow> bool" where
  "allows_another r kind used \<longleftrightarrow>
     (if rt_total r \<le> n_total used then False else used_of kind used < cap_of kind r)"

lemma record_retry_total [simp]: "n_total (record_retry kind c) = n_total c + 1"
  by (cases kind) auto

lemma allows_another_total: "allows_another r kind used \<Longrightarrow> n_total used < rt_total r"
  by (auto simp: allows_another_def split: if_splits)


section \<open>Requests and the outside world\<close>

text \<open>
  A \<^verbatim>\<open>reqwest::Request\<close>.  Only a body that is a stream cannot be cloned; the client never
  builds one.
\<close>

datatype request_payload = Payload bytes | OneShot

record ('h, 'u) http_request =
  rq_method :: string
  rq_url :: 'u
  rq_headers :: 'h
  rq_body :: "request_payload option"
  rq_timeout :: "real option"

definition try_clone :: "('h, 'u) http_request \<Rightarrow> ('h, 'u) http_request option" where
  "try_clone q = (if rq_body q = Some OneShot then None else Some q)"

record ('w, 'h, 'u) net_env =
  ne_execute :: "('h, 'u) http_request \<Rightarrow> 'w \<Rightarrow> 'w \<times> (reqwest_error + ('h, 'u) http_response)"
  ne_now :: "'w \<Rightarrow> 'w \<times> nat"
  ne_random :: "'w \<Rightarrow> 'w \<times> fl"
  ne_sleep :: "real \<Rightarrow> 'w \<Rightarrow> 'w"
  ne_drain :: "net \<Rightarrow> 'w \<Rightarrow> 'w"

text \<open>\<open>ne_now\<close> is \<^verbatim>\<open>Instant::now\<close> in nanoseconds.\<close>

definition as_secs_f64 :: "nat \<Rightarrow> fl" where
  "as_secs_f64 ns =
     fl_add f64 (round_fl f64 (of_nat (ns div 1000000000))) (round_fl f64 (of_nat (ns mod 1000000000) / 1000000000))"

definition as_millis :: "nat \<Rightarrow> nat" where
  "as_millis ns = ns div 1000000"


section \<open>Parsing a \<open>Retry-After\<close> header\<close>

definition is_ascii_digit :: "char \<Rightarrow> bool" where
  "is_ascii_digit c \<longleftrightarrow> 48 \<le> (of_char c :: nat) \<and> (of_char c :: nat) \<le> 57"

definition digits_value :: "string \<Rightarrow> nat" where
  "digits_value s = foldl (\<lambda>acc c. acc * 10 + (of_char c - 48)) 0 s"

text \<open>
  \<^verbatim>\<open>str::parse::<f32>\<close>: a sign, then \<open>inf\<close>, \<open>infinity\<close> or \<open>nan\<close> in any case, or
  digits with an optional point and an optional exponent; the nearest value.
\<close>

definition parse_exponent :: "string \<Rightarrow> int option" where
  "parse_exponent s =
     (case s of
        [] \<Rightarrow> Some 0
      | c # r \<Rightarrow>
          if c = CHR ''e'' \<or> c = CHR ''E'' then
            (let (neg, ds) = (case r of
                 CHR ''-'' # ds \<Rightarrow> (True, ds) | CHR ''+'' # ds \<Rightarrow> (False, ds) | _ \<Rightarrow> (False, r))
             in if ds \<noteq> [] \<and> list_all is_ascii_digit ds
                then Some (if neg then - int (digits_value ds) else int (digits_value ds))
                else None)
          else None)"

definition parse_decimal :: "string \<Rightarrow> real option" where
  "parse_decimal s =
     (let whole = takeWhile is_ascii_digit s;
          r = dropWhile is_ascii_digit s;
          (frac, r') = (case r of
             CHR ''.'' # t \<Rightarrow> (takeWhile is_ascii_digit t, dropWhile is_ascii_digit t) | _ \<Rightarrow> ([], r))
      in if whole = [] \<and> frac = [] then None
         else (case parse_exponent r' of
                 None \<Rightarrow> None
               | Some e \<Rightarrow>
                   Some (of_nat (digits_value (whole @ frac)) * 10 powi (e - int (length frac)))))"

definition parse_fl :: "fmt \<Rightarrow> string \<Rightarrow> fl option" where
  "parse_fl m s =
     (let (neg, t) = (case s of
          CHR ''-'' # t \<Rightarrow> (True, t) | CHR ''+'' # t \<Rightarrow> (False, t) | _ \<Rightarrow> (False, s));
          lower = map ascii_lower t;
          sign = (\<lambda>x. if neg then fl_neg x else x)
      in if lower = ''inf'' \<or> lower = ''infinity'' then Some (sign PInf)
         else if lower = ''nan'' then Some NaN
         else map_option (\<lambda>x. sign (round_fl m x)) (parse_decimal t))"


section \<open>Backing off\<close>

definition retry_after ::
  "('h, 'v) header_map \<Rightarrow> retry \<Rightarrow> ('h, 'u) http_response option \<Rightarrow> fl" where
  "retry_after hm r current =
     (if rt_respect_retry_after r then
        unwrap_or
          (Option.bind (Option.bind current (\<lambda>resp. get_first hm ''retry-after'' (hr_headers resp)))
            (parse_fl f32))
          (Fin 0)
      else Fin 0)"

text \<open>The computed backoff; the random number is drawn only when there is jitter.\<close>

definition base_backoff :: "retry \<Rightarrow> nat \<Rightarrow> fl" where
  "base_backoff r attempt = fl_mul f32 (rt_backoff_factor r) (fl_powi2 f32 (attempt - 1))"

definition jittered :: "retry \<Rightarrow> fl \<Rightarrow> fl \<Rightarrow> fl" where
  "jittered r base u =
     (let jitter = fl_add f32 (fl_mul f32 u (Fin 2)) (Fin (- 1)) in
      fl_max (fl_mul f32 base (fl_add f32 (Fin 1) (fl_mul f32 jitter (rt_backoff_jitter r)))) (Fin 0))"

definition backoff_time :: "retry \<Rightarrow> fl \<Rightarrow> fl \<Rightarrow> fl" where
  "backoff_time r calculated after = fl_min (fl_max calculated after) (rt_backoff_max r)"

definition pause ::
  "('w, 'h, 'u) net_env \<Rightarrow> ('h, 'v) header_map \<Rightarrow> retry \<Rightarrow> nat \<Rightarrow> ('h, 'u) http_response option \<Rightarrow>
     'w \<Rightarrow> 'w option" where
  "pause env hm r attempt current w =
     (let base = base_backoff r attempt;
          (w1, calculated) =
            (if fl_less (Fin 0) (rt_backoff_jitter r)
             then (case ne_random env w of (w1, u) \<Rightarrow> (w1, jittered r base u))
             else (w, base))
      in map_option (\<lambda>d. ne_sleep env d w1)
           (duration_from_secs (backoff_time r calculated (retry_after hm r current))))"


section \<open>The retry loop\<close>

datatype ('h, 'u) attempt_result =
    Finished "rqx_error + ('h, 'u) pending"
  | Unfinished failure_kind "('h, 'u) http_response option" history

text \<open>From draining the previous response to classifying this attempt's outcome.\<close>

definition attempt_once ::
  "('w, 'h, 'u) net_env \<Rightarrow> retry \<Rightarrow> ('h, 'u) http_request \<Rightarrow> retry_counts \<Rightarrow> history \<Rightarrow>
     ('h, 'u) http_response option \<Rightarrow> 'w \<Rightarrow> 'w \<times> ('h, 'u) attempt_result" where
  "attempt_once env r q used hist current w =
     (let retryable = rq_method q \<in> rt_allowed_methods r;
          w1 = (case current of Some old \<Rightarrow> ne_drain env (hr_body old) w | None \<Rightarrow> w);
          (w2, t0) = ne_now env w1
      in case try_clone q of
           None \<Rightarrow>
             (w2, Finished (Inl (RequestError ''Streaming request bodies cannot be replayed'')))
         | Some q' \<Rightarrow>
             (case ne_execute env q' w2 of
                (w3, Inr resp) \<Rightarrow>
                  if \<not> retryable then (w3, Finished (Inr (pending_new resp)))
                  else
                    (let (w4, t1) = ne_now env w3;
                         hist' = (if 0 < n_total used
                           then hist @ [(show_nat (unat (hr_status resp)), as_millis (t1 - t0))] else hist)
                     in if hr_status resp \<notin> rt_status_forcelist r
                        then (w4, Finished (Inr (with_retries (word_of_int (n_total used)) hist'
                          (pending_new resp))))
                        else (w4, Unfinished FStatus (Some resp) hist'))
              | (w3, Inl e) \<Rightarrow>
                  if \<not> retryable then (w3, Finished (Inl (from_reqwest e)))
                  else
                    (let (w4, t1) = ne_now env w3;
                         hist' = (if 0 < n_total used
                           then hist @ [(error_display (from_reqwest e), as_millis (t1 - t0))] else hist)
                     in (w4, Unfinished (kind_of_error e) None hist'))))"

definition exhausted :: "retry_counts \<Rightarrow> string" where
  "exhausted used =
     ''max retries exceeded after '' @ show_int (n_total used) @ '' retries ('' @
     show_int (n_connect used) @ '' connect, '' @ show_int (n_read used) @ '' read, '' @
     show_int (n_status used) @ '' status)''"

definition give_up ::
  "retry \<Rightarrow> retry_counts \<Rightarrow> history \<Rightarrow> ('h, 'u) http_response option \<Rightarrow>
     rqx_error + ('h, 'u) pending" where
  "give_up r used hist current =
     (case current of
        Some cr \<Rightarrow>
          if hr_status cr \<in> rt_status_forcelist r \<and> rt_raise_on_status r
          then Inl (MaxRetriesExceeded (exhausted used))
          else Inr (with_retries (word_of_int (n_total used)) hist (pending_new cr))
      | None \<Rightarrow> Inl (MaxRetriesExceeded (exhausted used)))"

definition total_timeout :: "retry \<Rightarrow> fl" where
  "total_timeout r = unwrap_or (rt_total_timeout r) PInf"

text \<open>
  The loop.  \<open>None\<close> is a panic of \<^verbatim>\<open>Duration::from_secs_f32\<close>; \<open>show_float\<close> prints the
  \<^verbatim>\<open>f64\<close> of the timeout message.  Going round needs a retry left under \<open>total\<close>, which
  bounds it.
\<close>

function retry_loop ::
  "('w, 'h, 'u) net_env \<Rightarrow> ('h, 'v) header_map \<Rightarrow> (fl \<Rightarrow> string) \<Rightarrow> retry \<Rightarrow>
     ('h, 'u) http_request \<Rightarrow> nat \<Rightarrow> retry_counts \<Rightarrow> history \<Rightarrow> ('h, 'u) http_response option \<Rightarrow> 'w \<Rightarrow>
     ('w \<times> (rqx_error + ('h, 'u) pending)) option" where
  "retry_loop env hm show_float r q start used hist current w =
     (case ne_now env w of (w1, t) \<Rightarrow>
        if fl_less (total_timeout r) (as_secs_f64 (t - start)) then
          Some (w1, Inl (MaxRetriesExceeded (''total timeout of '' @ show_float (total_timeout r) @
            ''s exceeded after '' @ show_int (n_total used) @ '' retries'')))
        else
          (case (if 0 < n_total used then pause env hm r (nat (n_total used)) current w1 else Some w1) of
             None \<Rightarrow> None
           | Some w2 \<Rightarrow>
               (case attempt_once env r q used hist current w2 of
                  (w3, Finished res) \<Rightarrow> Some (w3, res)
                | (w3, Unfinished kind current' hist') \<Rightarrow>
                    if \<not> allows_another r kind used then Some (w3, give_up r used hist' current')
                    else retry_loop env hm show_float r q start (record_retry kind used) hist' current' w3)))"
  by pat_completeness auto
termination
  by (relation "measure (\<lambda>(env, hm, show_float, r, q, start, used, hist, current, w).
    nat (rt_total r - n_total used))") (auto dest: allows_another_total)

declare retry_loop.simps [simp del]

definition send_with_retries ::
  "('w, 'h, 'u) net_env \<Rightarrow> ('h, 'v) header_map \<Rightarrow> (fl \<Rightarrow> string) \<Rightarrow> retry \<Rightarrow>
     ('h, 'u) http_request \<Rightarrow> 'w \<Rightarrow> ('w \<times> (rqx_error + ('h, 'u) pending)) option" where
  "send_with_retries env hm show_float r q w =
     (case ne_now env w of (w1, start) \<Rightarrow>
        retry_loop env hm show_float r q start no_retries [] None w1)"



section \<open>How long it waits\<close>

lemma round_fl_nonneg: "0 \<le> x \<Longrightarrow> fl_le (Fin 0) (round_fl m x)"
proof -
  assume x: "0 \<le> x"
  have "0 < spacing m x" by (simp add: spacing_def)
  then have "0 \<le> \<lfloor>x / spacing m x\<rfloor>" using x by simp
  then have "0 \<le> round_even (x / spacing m x)" by (auto simp: round_even_def Let_def)
  then have "0 \<le> of_int (round_even (x / spacing m x)) * spacing m x"
    using \<open>0 < spacing m x\<close> by simp
  then show ?thesis
    by (auto simp: round_fl_def Let_def dest: order_trans [of "2 ^ max_exp m" _ "- (2 ^ max_exp m)"])
qed

lemma fl_powi2_large: "128 \<le> n \<Longrightarrow> fl_powi2 f32 n = PInf"
proof (induction n)
  case (Suc n)
  show ?case
  proof (cases "n = 127")
    case True
    have "fl_powi2 f32 127 = Fin (2 ^ 127)" by (intro fl_powi2_exact) (simp_all add: f32_def)
    moreover have "(2 :: real) ^ 127 * 2 = 2 ^ max_exp f32" by (simp add: f32_def)
    then have "round_fl f32 (2 ^ 127 * 2) = PInf"
      using round_fl_overflow [of f32] by (simp add: f32_def)
    moreover have "fl_powi2 f32 (Suc 127) = fl_mul f32 (fl_powi2 f32 127) (Fin 2)"
      by (rule fl_powi2.simps)
    ultimately show ?thesis using True by (simp del: fl_powi2.simps)
  next
    case False
    with Suc show ?thesis by (simp add: inf_sign_def)
  qed
qed simp

text \<open>The one case excluded: from the 129th retry on the factor is multiplied by infinity, which zero does not stand.\<close>

definition backoff_defined :: "retry \<Rightarrow> nat \<Rightarrow> bool" where
  "backoff_defined r attempt \<longleftrightarrow> attempt \<le> 128 \<or> fl_less (Fin 0) (rt_backoff_factor r)"

lemma base_backoff_nonneg:
  assumes "fl_le (Fin 0) (rt_backoff_factor r)" "backoff_defined r attempt"
  shows "fl_le (Fin 0) (base_backoff r attempt)"
proof (cases "attempt \<le> 128")
  case True
  then have "fl_powi2 f32 (attempt - 1) = Fin (2 ^ (attempt - 1))"
    by (intro fl_powi2_exact) (simp_all add: f32_def)
  with assms(1) show ?thesis
    by (cases "rt_backoff_factor r") (auto simp: base_backoff_def inf_sign_def intro: round_fl_nonneg)
next
  case False
  then have "fl_powi2 f32 (attempt - 1) = PInf" by (intro fl_powi2_large) simp
  with False assms show ?thesis
    by (cases "rt_backoff_factor r") (auto simp: base_backoff_def backoff_defined_def inf_sign_def)
qed

lemma backoff_time_bounds:
  assumes "fl_le (Fin 0) c" "rt_backoff_max r = Fin b" "0 \<le> b"
  shows "\<exists>d. backoff_time r c after = Fin d \<and> 0 \<le> d \<and> d \<le> b"
proof -
  have "c \<noteq> NaN" using assms(1) by auto
  then have "fl_le (Fin 0) (fl_max c after)"
    using assms(1) fl_max_ge [of c after] fl_le_trans by blast
  then have "fl_le (Fin 0) (backoff_time r c after)" "fl_le (backoff_time r c after) (Fin b)"
    using assms(2,3) fl_min_ge [of "Fin 0" "fl_max c after" "Fin b"] fl_min_le [of "Fin b" "fl_max c after"]
    by (simp_all add: backoff_time_def)
  then show ?thesis by (cases "backoff_time r c after") auto
qed

lemma pause_total:
  assumes "fl_le (Fin 0) (rt_backoff_factor r)" "rt_backoff_max r = Fin b" "0 \<le> b" "b < 2 ^ 64"
    "backoff_defined r attempt"
  shows "\<exists>w'. pause env hm r attempt current w = Some w'"
proof -
  have time: "\<exists>d. duration_from_secs (backoff_time r c after) = Some d" if "fl_le (Fin 0) c" for c after
    using backoff_time_bounds [OF that assms(2,3), of after] assms(4) by auto
  have "fl_le (Fin 0) (jittered r x u)" for x u
    by (simp add: jittered_def Let_def fl_max_ge2)
  with time base_backoff_nonneg [OF assms(1,5)] show ?thesis
    by (auto simp: pause_def Let_def split: prod.splits)
qed

text \<open>C26. The wait before a retry never exceeds \<^verbatim>\<open>backoff_max\<close> and is never negative,
  whatever the random number and whatever the server's \<^verbatim>\<open>Retry-After\<close> says, so converting
  it to a \<^verbatim>\<open>Duration\<close> does not panic: for a non-negative factor, a finite cap and at most
  128 attempts.  Without jitter it is the greater of \<^verbatim>\<open>Retry-After\<close> and exactly
  \<open>factor * 2^(attempt - 1)\<close>, capped, while that product is an \<^verbatim>\<open>f32\<close>.\<close>

theorem backoff_bounded:
  assumes "fl_le (Fin 0) (rt_backoff_factor r)" and "rt_backoff_max r = Fin b" and "0 \<le> b"
    and "b < 2 ^ 64" and "0 < attempt" and "attempt \<le> 128"
  shows "\<exists>d c. 0 \<le> d \<and> d \<le> b \<and> Fin d = backoff_time r c (retry_after hm r current) \<and>
    pause env hm r attempt current w =
      Some (ne_sleep env d (if fl_less (Fin 0) (rt_backoff_jitter r) then fst (ne_random env w) else w)) \<and>
    (\<forall>x. \<not> fl_less (Fin 0) (rt_backoff_jitter r) \<and> rt_backoff_factor r = Fin x \<and>
       representable f32 x \<and> \<bar>x * 2 ^ (attempt - 1)\<bar> < 2 ^ 128 \<longrightarrow>
       c = Fin (x * 2 ^ (attempt - 1)))"
proof -
  define c where "c = (if fl_less (Fin 0) (rt_backoff_jitter r)
    then jittered r (base_backoff r attempt) (snd (ne_random env w)) else base_backoff r attempt)"
  have "fl_le (Fin 0) c"
    using base_backoff_nonneg [OF assms(1)] assms(6) fl_max_ge2 [of "Fin 0"]
    by (simp add: c_def jittered_def backoff_defined_def Let_def)
  from backoff_time_bounds [OF this assms(2,3)] obtain d where
    d: "backoff_time r c (retry_after hm r current) = Fin d" "0 \<le> d" "d \<le> b" by blast
  have "pause env hm r attempt current w =
      Some (ne_sleep env d (if fl_less (Fin 0) (rt_backoff_jitter r) then fst (ne_random env w) else w))"
    using d assms(4) by (auto simp: pause_def c_def Let_def split: prod.splits)
  moreover have "c = Fin (x * 2 ^ (attempt - 1))"
    if "\<not> fl_less (Fin 0) (rt_backoff_jitter r)" "rt_backoff_factor r = Fin x"
      "representable f32 x" "\<bar>x * 2 ^ (attempt - 1)\<bar> < 2 ^ 128" for x
  proof -
    have "fl_powi2 f32 (attempt - 1) = Fin (2 ^ (attempt - 1))"
      using assms(6) by (intro fl_powi2_exact) (simp_all add: f32_def)
    moreover have "representable f32 (x * 2 ^ (attempt - 1))"
      using that(3,4) by (intro representable_scale) (simp_all add: f32_def)
    ultimately show ?thesis using that(1,2) by (simp add: c_def base_backoff_def round_fl_exact)
  qed
  ultimately show ?thesis using d by metis
qed

text \<open>A world that only records how long it slept, for evaluating the definitions.\<close>

definition sleep_log :: "(real list, (string \<times> string) list, unit) net_env" where
  "sleep_log =
     \<lparr>ne_execute = (\<lambda>q w. (w, Inl \<lparr>is_timeout = False, is_connect = True, is_redirect_error = False,
        is_body = False, is_decode = False, err_text = [], sources = []\<rparr>)),
      ne_now = (\<lambda>w. (w, 0)), ne_random = (\<lambda>w. (w, Fin 0)), ne_sleep = (\<lambda>d w. w @ [d]),
      ne_drain = (\<lambda>n w. w)\<rparr>"

definition half_factor :: retry where
  "half_factor = retry_new None None None None (Some (Fin (1 / 2))) None None None None None None None"

theorem backoff_bounded_witness:
  "pause sleep_log assoc_headers half_factor 3 None [] = Some [2]"
proof -
  have rep: "representable f32 (1 / 2)"
    unfolding representable_def by (intro conjI exI [of _ 1] exI [of _ 148]) (simp_all add: f32_def)
  have half: "rt_backoff_factor half_factor = Fin (1 / 2)" "rt_backoff_max half_factor = Fin 120"
    "rt_backoff_jitter half_factor = Fin 0"
    "retry_after assoc_headers half_factor (None :: ((string \<times> string) list, unit) http_response option) = Fin 0"
    by (simp_all add: half_factor_def retry_new_def unwrap_or_def DEFAULT_BACKOFF_MAX_def
        DEFAULT_BACKOFF_JITTER_def retry_after_def)
  have "\<exists>d c. 0 \<le> d \<and> d \<le> 120 \<and> Fin d = backoff_time half_factor c
      (retry_after assoc_headers half_factor (None :: ((string \<times> string) list, unit) http_response option)) \<and>
    pause sleep_log assoc_headers half_factor 3 None [] =
      Some (ne_sleep sleep_log d (if fl_less (Fin 0) (rt_backoff_jitter half_factor) then fst (ne_random sleep_log []) else [])) \<and>
    (\<forall>x. \<not> fl_less (Fin 0) (rt_backoff_jitter half_factor) \<and> rt_backoff_factor half_factor = Fin x \<and>
       representable f32 x \<and> \<bar>x * 2 ^ (3 - 1)\<bar> < 2 ^ 128 \<longrightarrow> c = Fin (x * 2 ^ (3 - 1)))"
    by (rule backoff_bounded) (simp_all add: half)
  then obtain d c where d: "Fin d = backoff_time half_factor c
      (retry_after assoc_headers half_factor (None :: ((string \<times> string) list, unit) http_response option))"
    and p: "pause sleep_log assoc_headers half_factor 3 None [] =
      Some (ne_sleep sleep_log d (if fl_less (Fin 0) (rt_backoff_jitter half_factor) then fst (ne_random sleep_log []) else []))"
    and c: "\<forall>x. \<not> fl_less (Fin 0) (rt_backoff_jitter half_factor) \<and> rt_backoff_factor half_factor = Fin x \<and>
       representable f32 x \<and> \<bar>x * 2 ^ (3 - 1)\<bar> < 2 ^ 128 \<longrightarrow> c = Fin (x * 2 ^ (3 - 1))"
    by blast
  have "c = Fin 2" using c [rule_format, of "1 / 2"] half rep by simp
  with d have "d = 2" by (simp add: backoff_time_def half fl_max_def fl_min_def)
  with p show ?thesis by (simp add: half sleep_log_def)
qed

text \<open>A negative \<^verbatim>\<open>backoff_max\<close>, which the constructor accepts, makes the first retry
  panic; and with no finite cap a server's \<^verbatim>\<open>Retry-After: inf\<close> does.\<close>

theorem backoff_panics:
  assumes "(\<exists>b. rt_backoff_max r = Fin b \<and> b < 0) \<or>
    (rt_backoff_max r = PInf \<and> retry_after hm r current = PInf)"
    and "\<not> fl_less (Fin 0) (rt_backoff_jitter r)"
  shows "pause env hm r attempt current w = None"
proof -
  have "duration_from_secs (backoff_time r c (retry_after hm r current)) = None" for c
    using assms(1)
  proof
    assume "\<exists>b. rt_backoff_max r = Fin b \<and> b < 0"
    then obtain b where b: "rt_backoff_max r = Fin b" "b < 0" by blast
    have "fl_le (backoff_time r c (retry_after hm r current)) (Fin b)"
      unfolding backoff_time_def b(1) by (rule fl_min_le) simp
    with b(2) show ?thesis
      by (cases "backoff_time r c (retry_after hm r current)") auto
  next
    assume inf: "rt_backoff_max r = PInf \<and> retry_after hm r current = PInf"
    have "fl_le PInf (fl_max c PInf)" by (rule fl_max_ge2) simp
    then have "fl_max c PInf = PInf" by (cases "fl_max c PInf") auto
    with inf show ?thesis by (simp add: backoff_time_def fl_min_def)
  qed
  with assms(2) show ?thesis by (simp add: pause_def Let_def)
qed


theorem backoff_panics_witness:
  "pause sleep_log assoc_headers (half_factor\<lparr>rt_backoff_max := Fin (- 1)\<rparr>) 1 None [] = None"
  by (rule backoff_panics)
     (simp_all add: half_factor_def retry_new_def unwrap_or_def DEFAULT_BACKOFF_JITTER_def)


text \<open>
  The excluded case: with a factor of zero, the default, the computed backoff of the 129th retry is not a number,
  and a server's negative \<^verbatim>\<open>Retry-After\<close>, ignored up to then, is what is left of the maximum.
\<close>

theorem negative_retry_after_panics:
  assumes "rt_backoff_factor r = Fin 0" and "128 < attempt" and "\<not> fl_less (Fin 0) (rt_backoff_jitter r)"
    and "retry_after hm r current = Fin x" and "x < 0"
  shows "pause env hm r attempt current w = None"
proof -
  have "base_backoff r attempt = NaN"
    using fl_powi2_large [of "attempt - 1"] assms(1,2) by (simp add: base_backoff_def)
  moreover have "duration_from_secs (fl_min (Fin x) m) = None" for m
    using assms(5) by (cases m) (auto simp: fl_min_def)
  ultimately show ?thesis
    using assms(3,4) by (simp add: pause_def backoff_time_def fl_max_def Let_def)
qed


section \<open>How often it sends\<close>

text \<open>The world with a counter of the requests executed.\<close>

definition counted :: "('w, 'h, 'u) net_env \<Rightarrow> ('w \<times> nat, 'h, 'u) net_env" where
  "counted env =
     \<lparr>ne_execute = (\<lambda>q (w, n). case ne_execute env q w of (w', x) \<Rightarrow> ((w', Suc n), x)),
      ne_now = (\<lambda>(w, n). case ne_now env w of (w', t) \<Rightarrow> ((w', n), t)),
      ne_random = (\<lambda>(w, n). case ne_random env w of (w', u) \<Rightarrow> ((w', n), u)),
      ne_sleep = (\<lambda>d (w, n). (ne_sleep env d w, n)),
      ne_drain = (\<lambda>b (w, n). (ne_drain env b w, n))\<rparr>"

lemma counted_now: "ne_now (counted env) (w, n) = (w1, t) \<Longrightarrow> \<exists>w'. w1 = (w', n)"
  by (auto simp: counted_def split: prod.splits)

lemma counted_pause: "pause (counted env) hm r k cur (w, n) = Some w1 \<Longrightarrow> \<exists>w'. w1 = (w', n)"
  by (auto simp: pause_def counted_def Let_def split: prod.splits if_splits)

text \<open>What one attempt can do.\<close>

lemma attempt_counted:
  assumes "attempt_once (counted env) r q used hist cur (w, n) = (w1, res)"
  shows "\<exists>w'. (w1 = (w', n) \<and> rq_body q = Some OneShot \<and> (\<exists>m. res = Finished (Inl (RequestError m)))) \<or>
    (w1 = (w', Suc n) \<and>
      (if rq_method q \<notin> rt_allowed_methods r
       then (\<exists>x. res = Finished (Inl (from_reqwest x))) \<or> (\<exists>resp. res = Finished (Inr (pending_new resp)))
       else (\<exists>h. length h = length hist + (if 0 < n_total used then 1 else 0) \<and>
         ((\<exists>resp. hr_status resp \<notin> rt_status_forcelist r \<and>
             res = Finished (Inr (with_retries (word_of_int (n_total used)) h (pending_new resp)))) \<or>
          (\<exists>resp. hr_status resp \<in> rt_status_forcelist r \<and> res = Unfinished FStatus (Some resp) h) \<or>
          (\<exists>x. res = Unfinished (kind_of_error x) None h)))))"
proof -
  obtain wa where a: "(case cur of Some old \<Rightarrow> ne_drain (counted env) (hr_body old) (w, n) | None \<Rightarrow> (w, n)) = (wa, n)"
    by (cases cur) (auto simp: counted_def)
  obtain wb t0 where b: "ne_now (counted env) (wa, n) = ((wb, n), t0)"
    by (metis counted_now surj_pair)
  show ?thesis
  proof (cases "rq_body q = Some OneShot")
    case True
    with assms a b show ?thesis by (auto simp: attempt_once_def Let_def try_clone_def)
  next
    case False
    obtain wc x where c: "ne_execute env q wb = (wc, x)" by fastforce
    obtain wd t1 where d: "ne_now (counted env) (wc, Suc n) = ((wd, Suc n), t1)"
      by (metis counted_now surj_pair)
    from c have c': "ne_execute (counted env) q (wb, n) = ((wc, Suc n), x)" by (simp add: counted_def)
    define shown where "shown = (case x of Inr resp \<Rightarrow> show_nat (unat (hr_status resp))
      | Inl e \<Rightarrow> error_display (from_reqwest e))"
    define h where "h = (if 0 < n_total used then hist @ [(shown, as_millis (t1 - t0))] else hist)"
    have len: "length h = length hist + (if 0 < n_total used then 1 else 0)" by (simp add: h_def)
    show ?thesis
    proof (cases "rq_method q \<in> rt_allowed_methods r")
      case True
      have "(w1, res) = ((wd, Suc n),
          case x of
            Inr resp \<Rightarrow> if hr_status resp \<notin> rt_status_forcelist r
              then Finished (Inr (with_retries (word_of_int (n_total used)) h (pending_new resp)))
              else Unfinished FStatus (Some resp) h
          | Inl e \<Rightarrow> Unfinished (kind_of_error e) None h)"
        using assms a b c' d False True
        by (cases x) (auto simp: attempt_once_def Let_def try_clone_def h_def shown_def split: if_splits)
      with True len show ?thesis by (cases x) (auto split: if_splits)
    next
      case no: False
      with assms a b c' False show ?thesis
        by (cases x) (auto simp: attempt_once_def Let_def try_clone_def)
    qed
  qed
qed

definition retry_post ::
  "retry \<Rightarrow> ('h, 'u) http_request \<Rightarrow> retry_counts \<Rightarrow> history \<Rightarrow> nat \<Rightarrow>
     rqx_error + ('h, 'u) pending \<Rightarrow> bool" where
  "retry_post r q used hist sent res \<longleftrightarrow>
     sent \<le> Suc (nat (rt_total r - n_total used)) \<and>
     (if rq_method q \<notin> rt_allowed_methods r then
        sent \<le> 1 \<and>
        (\<forall>p. res = Inr p \<longrightarrow> 0 < sent \<and> num_retries (parts p) = 0 \<and> retry_history (parts p) = [])
      else
        (\<forall>e. res = Inl e \<longrightarrow> (\<exists>m. e = MaxRetriesExceeded m) \<or> rq_body q = Some OneShot) \<and>
        (\<forall>p. res = Inr p \<longrightarrow> 0 < sent \<and>
           num_retries (parts p) = word_of_int (n_total used + int sent - 1) \<and>
           length (retry_history (parts p)) + (if 0 < n_total used then 0 else 1) = length hist + sent \<and>
           (status_code (parts p) \<in> rt_status_forcelist r \<longrightarrow> \<not> rt_raise_on_status r)))"


lemma give_up_post:
  "give_up r used hist cur = res \<Longrightarrow>
     (\<forall>resp. cur = Some resp \<longrightarrow> hr_status resp \<in> rt_status_forcelist r) \<Longrightarrow>
     (\<forall>e. res = Inl e \<longrightarrow> (\<exists>m. e = MaxRetriesExceeded m)) \<and>
     (\<forall>p. res = Inr p \<longrightarrow> num_retries (parts p) = word_of_int (n_total used) \<and>
        retry_history (parts p) = hist \<and> \<not> rt_raise_on_status r)"
  by (auto simp: give_up_def with_retries_def split: option.splits if_splits)

lemma retry_loop_post:
  assumes "retry_loop (counted env) hm sf r q start used hist cur (w, n) = Some ((w', n'), res)"
    and "0 \<le> n_total used"
  shows "n \<le> n' \<and> retry_post r q used hist (n' - n) res"
  using assms
proof (induction "nat (rt_total r - n_total used)" arbitrary: used hist cur w n rule: less_induct)
  case less
  obtain w1 t where now: "ne_now (counted env) (w, n) = ((w1, n), t)" by (metis counted_now surj_pair)
  note unfold = less.prems(1) [unfolded retry_loop.simps [of "counted env" hm sf r q start used hist cur "(w, n)"] now prod.case]
  show ?case
  proof (cases "fl_less (total_timeout r) (as_secs_f64 (t - start))")
    case True
    with unfold show ?thesis by (auto simp: retry_post_def)
  next
    case False
    with unfold obtain w2 where w2: "(if 0 < n_total used
        then pause (counted env) hm r (nat (n_total used)) cur (w1, n) else Some (w1, n)) = Some (w2, n)"
      by (auto split: if_splits option.splits dest: counted_pause)
    obtain w3 m step where step: "attempt_once (counted env) r q used hist cur (w2, n) = ((w3, m), step)"
      by (metis surj_pair)
    note one = attempt_counted [OF step]
    show ?thesis
    proof (cases step)
      case (Finished x)
      with unfold False w2 step have "x = res" "n' = m" by auto
      with one Finished less.prems(2) show ?thesis
        by (auto simp: retry_post_def with_retries_def pending_new_def parts_of_def split: if_splits)
    next
      case (Unfinished kind cur' hist')
      from one Unfinished have ok: "m = Suc n" "rq_method q \<in> rt_allowed_methods r"
        "length hist' = length hist + (if 0 < n_total used then 1 else 0)"
        "\<forall>resp. cur' = Some resp \<longrightarrow> hr_status resp \<in> rt_status_forcelist r"
        by (auto split: if_splits)
      show ?thesis
      proof (cases "allows_another r kind used")
        case True
        from allows_another_total [OF True] have lt: "n_total used < rt_total r" .
        from unfold False w2 step Unfinished True have
          rec: "retry_loop (counted env) hm sf r q start (record_retry kind used) hist' cur' (w3, m) =
            Some ((w', n'), res)" by simp
        have "m \<le> n' \<and> retry_post r q (record_retry kind used) hist' (n' - m) res"
          by (rule less.hyps [OF _ rec]) (use lt less.prems(2) in auto)
        with ok lt less.prems(2) show ?thesis
          by (auto simp: retry_post_def Suc_diff_le of_nat_diff) 
      next
        case stop: False
        from unfold False w2 step Unfinished stop have "give_up r used hist' cur' = res" "n' = m"
          by auto
        with give_up_post [OF this(1) ok(4)] ok less.prems(2) show ?thesis
          by (auto simp: retry_post_def)
      qed
    qed
  qed
qed


text \<open>What the loop raises.\<close>

lemma retry_loop_errors:
  "retry_loop env hm sf r q start used hist cur w = Some (w', Inl e) \<Longrightarrow> http_error e"
proof (induction "nat (rt_total r - n_total used)" arbitrary: used hist cur w rule: less_induct)
  case less
  obtain w1 t where now: "ne_now env w = (w1, t)" by fastforce
  note unfold = less.prems [unfolded retry_loop.simps [of env hm sf r q start used hist cur w] now prod.case]
  show ?case
  proof (cases "fl_less (total_timeout r) (as_secs_f64 (t - start))")
    case True
    with unfold show ?thesis by auto
  next
    case False
    with unfold obtain w2 where w2: "(if 0 < n_total used
        then pause env hm r (nat (n_total used)) cur w1 else Some w1) = Some w2"
      by (auto split: if_splits option.splits)
    obtain w3 step where step: "attempt_once env r q used hist cur w2 = (w3, step)" by fastforce
    show ?thesis
    proof (cases step)
      case (Finished x)
      with unfold False w2 step have "x = Inl e" by auto
      with step Finished show ?thesis
        by (auto simp: attempt_once_def Let_def split: option.splits prod.splits sum.splits if_splits)
    next
      case (Unfinished kind cur' hist')
      show ?thesis
      proof (cases "allows_another r kind used")
        case True
        with unfold False w2 step Unfinished have
          "retry_loop env hm sf r q start (record_retry kind used) hist' cur' w3 = Some (w', Inl e)"
          by simp
        with less.hyps [OF _ this] allows_another_total [OF True] show ?thesis by simp
      next
        case stop: False
        with unfold False w2 step Unfinished have "give_up r used hist' cur' = Inl e" by simp
        then show ?thesis by (auto simp: give_up_def split: option.splits if_splits)
      qed
    qed
  qed
qed


section \<open>Invariants of the world\<close>

text \<open>\<open>I\<close> is kept by everything sending \<open>q\<close> can do to the world.\<close>

definition world_inv ::
  "('w, 'h, 'u) net_env \<Rightarrow> ('h, 'u) http_request \<Rightarrow> ('w \<Rightarrow> bool) \<Rightarrow> bool" where
  "world_inv env q I \<longleftrightarrow>
     (\<forall>w. I w \<longrightarrow> I (fst (ne_execute env q w)) \<and> I (fst (ne_now env w)) \<and>
        I (fst (ne_random env w)) \<and> (\<forall>d. I (ne_sleep env d w)) \<and> (\<forall>b. I (ne_drain env b w)))"

lemma world_invD:
  assumes "world_inv env q I" "I w"
  shows "ne_execute env q w = (w', x) \<Longrightarrow> I w'" "ne_now env w = (w', t) \<Longrightarrow> I w'"
    "ne_random env w = (w', u) \<Longrightarrow> I w'" "I (ne_sleep env d w)" "I (ne_drain env b w)"
  using assms unfolding world_inv_def by (metis fst_conv)+

lemma pause_inv:
  "world_inv env q I \<Longrightarrow> I w \<Longrightarrow> pause env hm r k cur w = Some w' \<Longrightarrow> I w'"
  by (auto simp: pause_def Let_def split: prod.splits if_splits dest: world_invD)

lemma attempt_inv:
  assumes "world_inv env q I" "I w" "attempt_once env r q used hist cur w = (w', res)"
  shows "I w'"
proof -
  define w1 where "w1 = (case cur of Some old \<Rightarrow> ne_drain env (hr_body old) w | None \<Rightarrow> w)"
  have "I w1" using assms(1,2) by (auto simp: w1_def world_invD(5) split: option.splits)
  moreover obtain w2 t0 where now: "ne_now env w1 = (w2, t0)" by fastforce
  ultimately have "I w2" using assms(1) by (auto dest: world_invD(2))
  obtain w3 x where ex: "ne_execute env q w2 = (w3, x)" by fastforce
  with assms(1) \<open>I w2\<close> have "I w3" by (auto dest: world_invD(1))
  obtain w4 t1 where now': "ne_now env w3 = (w4, t1)" by fastforce
  with assms(1) \<open>I w3\<close> have "I w4" by (auto dest: world_invD(2))
  have "w' \<in> {w2, w3, w4}"
    using assms(3) unfolding attempt_once_def w1_def [symmetric] Let_def now prod.case try_clone_def
    by (cases x) (auto simp: ex now' split: if_splits)
  with \<open>I w2\<close> \<open>I w3\<close> \<open>I w4\<close> show ?thesis by auto
qed

lemma retry_loop_inv:
  assumes "world_inv env q I"
  shows "I w \<Longrightarrow> retry_loop env hm sf r q start used hist cur w = Some (w', res) \<Longrightarrow> I w'"
proof (induction "nat (rt_total r - n_total used)" arbitrary: used hist cur w rule: less_induct)
  case less
  obtain w1 t where now: "ne_now env w = (w1, t)" by fastforce
  with assms less.prems(1) have "I w1" by (auto dest: world_invD(2))
  note unfold = less.prems(2) [unfolded retry_loop.simps [of env hm sf r q start used hist cur w] now prod.case]
  show ?case
  proof (cases "fl_less (total_timeout r) (as_secs_f64 (t - start))")
    case True
    with unfold \<open>I w1\<close> show ?thesis by simp
  next
    case False
    with unfold obtain w2 where w2: "(if 0 < n_total used
        then pause env hm r (nat (n_total used)) cur w1 else Some w1) = Some w2"
      by (auto split: if_splits option.splits)
    with \<open>I w1\<close> assms have "I w2" by (auto split: if_splits dest: pause_inv)
    obtain w3 step where step: "attempt_once env r q used hist cur w2 = (w3, step)" by fastforce
    with assms \<open>I w2\<close> have "I w3" by (rule attempt_inv)
    show ?thesis
    proof (cases step)
      case (Finished x)
      with unfold False w2 step \<open>I w3\<close> show ?thesis by auto
    next
      case (Unfinished kind cur' hist')
      show ?thesis
      proof (cases "allows_another r kind used")
        case True
        with unfold False w2 step Unfinished have
          "retry_loop env hm sf r q start (record_retry kind used) hist' cur' w3 = Some (w', res)"
          by simp
        with less.hyps [OF _ \<open>I w3\<close> this] allows_another_total [OF True] show ?thesis by simp
      next
        case False
        with unfold \<open>\<not> fl_less _ _\<close> w2 step Unfinished \<open>I w3\<close> show ?thesis by simp
      qed
    qed
  qed
qed

lemma send_with_retries_inv:
  "world_inv env q I \<Longrightarrow> I w \<Longrightarrow> send_with_retries env hm sf r q w = Some (w', res) \<Longrightarrow> I w'"
  by (auto simp: send_with_retries_def split: prod.splits dest: world_invD(2) retry_loop_inv)


section \<open>Properties\<close>

lemma send_with_retries_post:
  assumes "send_with_retries (counted env) hm sf r q (w, 0) = Some ((w', sent), res)"
  shows "retry_post r q no_retries [] sent res"
proof -
  obtain w1 t where "ne_now (counted env) (w, 0) = ((w1, 0), t)" by (metis counted_now surj_pair)
  with assms have "retry_loop (counted env) hm sf r q t no_retries [] None (w1, 0) = Some ((w', sent), res)"
    by (simp add: send_with_retries_def)
  from retry_loop_post [OF this] show ?thesis by (simp add: no_retries_def)
qed

text \<open>C11. A request is sent at most once plus \<^verbatim>\<open>total\<close> retries, and once when its method
  is not in \<^verbatim>\<open>allowed_methods\<close>.  The response of a retryable request tells the truth about
  it: \<^verbatim>\<open>num_retries\<close> is the number of times it was sent again, the history has one entry
  for each, and its status is on the \<^verbatim>\<open>status_forcelist\<close> only when
  \<^verbatim>\<open>raise_on_status\<close> is off.\<close>

theorem retry_attempts_bounded:
  assumes "send_with_retries (counted env) hm show_float r q (w, 0) = Some ((w', sent), res)"
  shows "sent \<le> Suc (nat (rt_total r)) \<and>
    (rq_method q \<notin> rt_allowed_methods r \<longrightarrow> sent \<le> 1) \<and>
    (\<forall>p. res = Inr p \<and> rq_method q \<in> rt_allowed_methods r \<longrightarrow>
       0 < sent \<and> num_retries (parts p) = of_nat (sent - 1) \<and>
       length (retry_history (parts p)) = sent - 1 \<and>
       (status_code (parts p) \<in> rt_status_forcelist r \<longrightarrow> \<not> rt_raise_on_status r))"
  using send_with_retries_post [OF assms]
  by (auto simp: retry_post_def no_retries_def of_nat_diff)

definition get_request :: "((string \<times> string) list, unit) http_request" where
  "get_request = \<lparr>rq_method = ''GET'', rq_url = (), rq_headers = [], rq_body = None, rq_timeout = None\<rparr>"

text \<open>A world in which every request is answered with status 503.\<close>

definition unavailable :: "(real list, (string \<times> string) list, unit) net_env" where
  "unavailable = sleep_log\<lparr>ne_execute := (\<lambda>q w. (w, Inr \<lparr>hr_status = 503, hr_headers = [], hr_url = (),
     hr_version = ''HTTP/1.1'', hr_cookies = [], hr_body = []\<rparr>))\<rparr>"

definition retry_503 :: retry where
  "retry_503 = half_factor\<lparr>rt_total := 1, rt_status := 1, rt_status_forcelist := {503},
     rt_raise_on_status := False\<rparr>"

lemma as_secs_0: "as_secs_f64 0 = Fin 0"
  by (simp add: as_secs_f64_def round_fl_exact)

lemma round_half: "round_fl f32 (1 / 2) = Fin (1 / 2)"
  by (rule round_fl_exact, unfold representable_def, intro conjI exI [of _ 1] exI [of _ 148])
     (simp_all add: f32_def)

lemma unavailable_env:
  "ne_now (counted unavailable) (w, n) = ((w, n), 0)"
  "ne_drain (counted unavailable) b (w, n) = (w, n)"
  "ne_execute (counted unavailable) q (w, n) = ((w, Suc n), Inr \<lparr>hr_status = 503, hr_headers = [],
     hr_url = (), hr_version = ''HTTP/1.1'', hr_cookies = [], hr_body = []\<rparr>)"
  by (simp_all add: counted_def unavailable_def sleep_log_def)

lemma unavailable_pause:
  "pause (counted unavailable) assoc_headers retry_503 1 (Some \<lparr>hr_status = 503, hr_headers = [],
     hr_url = (), hr_version = ''HTTP/1.1'', hr_cookies = [], hr_body = []\<rparr>) ([], n) = Some ([1 / 2], n)"
  by (simp add: pause_def retry_503_def half_factor_def retry_new_def unwrap_or_def base_backoff_def
      DEFAULT_BACKOFF_MAX_def DEFAULT_BACKOFF_JITTER_def round_half retry_after_def get_first_def
      assoc_headers_def assoc_for_def backoff_time_def fl_max_def fl_min_def counted_def
      unavailable_def sleep_log_def)

lemma unavailable_run:
  "\<exists>p. send_with_retries (counted unavailable) assoc_headers (\<lambda>_. []) retry_503 get_request ([], 0) =
     Some (([1 / 2], 2), Inr p) \<and> status_code (parts p) = 503"
proof -
  have r: "rt_total retry_503 = 1" "rt_status retry_503 = 1" "rt_status_forcelist retry_503 = {503}"
    "\<not> rt_raise_on_status retry_503" "total_timeout retry_503 = PInf"
    "rq_method get_request \<in> rt_allowed_methods retry_503" "try_clone get_request = Some get_request"
    by (simp_all add: retry_503_def half_factor_def retry_new_def unwrap_or_def total_timeout_def
        get_request_def DEFAULT_ALLOWED_METHODS_def try_clone_def)
  show ?thesis
    unfolding send_with_retries_def
    by (simp add: unavailable_env retry_loop.simps [of "counted unavailable"] attempt_once_def
        r no_retries_def as_secs_0 allows_another_def give_up_def Let_def
        unavailable_pause [unfolded One_nat_def] with_retries_def pending_new_def parts_of_def)
qed

theorem retry_attempts_bounded_witness:
  "\<exists>p. send_with_retries (counted unavailable) assoc_headers (\<lambda>_. []) retry_503 get_request ([], 0) =
     Some (([1 / 2], 2), Inr p) \<and> num_retries (parts p) = 1 \<and> length (retry_history (parts p)) = 1"
proof -
  obtain p where run: "send_with_retries (counted unavailable) assoc_headers (\<lambda>_. []) retry_503
      get_request ([], 0) = Some (([1 / 2], 2), Inr p)"
    using unavailable_run by blast
  have "rq_method get_request \<in> rt_allowed_methods retry_503"
    by (simp add: retry_503_def half_factor_def retry_new_def unwrap_or_def get_request_def
        DEFAULT_ALLOWED_METHODS_def)
  with retry_attempts_bounded [OF run] run show ?thesis by simp
qed

text \<open>A retryable request never fails with the error of one attempt: what it raises is
  \<^verbatim>\<open>MaxRetriesExceeded\<close>, and for a request whose body can be replayed nothing else.\<close>

theorem retry_error_kind:
  assumes "send_with_retries (counted env) hm show_float r q (w, 0) = Some ((w', sent), Inl e)"
    and "rq_method q \<in> rt_allowed_methods r" and "rq_body q \<noteq> Some OneShot"
  shows "exc_class (py_core e) = CMaxRetriesExceeded"
  using send_with_retries_post [OF assms(1)] assms(2,3) by (auto simp: retry_post_def)

theorem retry_error_kind_witness:
  "\<exists>e. snd (the (send_with_retries (counted sleep_log) assoc_headers (\<lambda>_. []) (retry_503\<lparr>rt_total := 0\<rparr>)
     get_request ([], 0))) = Inl e \<and> exc_class (py_core e) = CMaxRetriesExceeded"
proof -
  have r: "rt_total (retry_503\<lparr>rt_total := 0\<rparr>) = 0" "total_timeout (retry_503\<lparr>rt_total := 0\<rparr>) = PInf"
    "rq_method get_request \<in> rt_allowed_methods (retry_503\<lparr>rt_total := 0\<rparr>)"
    "try_clone get_request = Some get_request" "rq_body get_request \<noteq> Some OneShot"
    by (simp_all add: retry_503_def half_factor_def retry_new_def unwrap_or_def total_timeout_def
        get_request_def DEFAULT_ALLOWED_METHODS_def try_clone_def)
  have run: "send_with_retries (counted sleep_log) assoc_headers (\<lambda>_. []) (retry_503\<lparr>rt_total := 0\<rparr>)
      get_request ([], 0) = Some (([], 1), Inl (MaxRetriesExceeded (exhausted no_retries)))"
    unfolding send_with_retries_def
    by (subst retry_loop.simps) (simp add: counted_def sleep_log_def attempt_once_def
        r r(3) [simplified] no_retries_def as_secs_0 allows_another_def give_up_def Let_def)
  from retry_error_kind [OF run r(3,5)] run show ?thesis by simp
qed


text \<open>The loop returns, for the attempts a \<^verbatim>\<open>Duration\<close> can wait for.\<close>

definition waits_safely :: "retry \<Rightarrow> bool" where
  "waits_safely r \<longleftrightarrow>
     fl_le (Fin 0) (rt_backoff_factor r) \<and> (rt_total r \<le> 128 \<or> fl_less (Fin 0) (rt_backoff_factor r)) \<and>
     (\<exists>b. rt_backoff_max r = Fin b \<and> 0 \<le> b \<and> b < 2 ^ 64)"

lemma retry_loop_returns:
  assumes "waits_safely r" "n_total used \<le> 0 \<or> n_total used \<le> rt_total r"
  shows "retry_loop env hm show_float r q start used hist cur w \<noteq> None"
  using assms(2)
proof (induction "nat (rt_total r - n_total used)" arbitrary: used hist cur w rule: less_induct)
  case less
  obtain b where b: "fl_le (Fin 0) (rt_backoff_factor r)" "rt_backoff_max r = Fin b" "0 \<le> b"
    "b < 2 ^ 64" "rt_total r \<le> 128 \<or> fl_less (Fin 0) (rt_backoff_factor r)"
    using assms(1) by (auto simp: waits_safely_def)
  obtain w1 t where now: "ne_now env w = (w1, t)" by fastforce
  have "pause env hm r (nat (n_total used)) cur w1 \<noteq> None" if "0 < n_total used"
  proof -
    have "rt_total r \<le> 128 \<Longrightarrow> n_total used \<le> 128" using less.prems that by linarith
    with b(5) have "backoff_defined r (nat (n_total used))" by (auto simp: backoff_defined_def)
    then show ?thesis using pause_total [OF b(1-4)] by (metis option.distinct(1))
  qed
  then obtain w2 where w2: "(if 0 < n_total used
      then pause env hm r (nat (n_total used)) cur w1 else Some w1) = Some w2"
    by (cases "0 < n_total used") auto
  obtain w3 step where step: "attempt_once env r q used hist cur w2 = (w3, step)" by fastforce
  show ?case
  proof (cases step)
    case (Finished x)
    with now w2 step show ?thesis by (simp add: retry_loop.simps [of env hm show_float r q start used hist cur w])
  next
    case (Unfinished kind cur' hist')
    have "retry_loop env hm show_float r q start (record_retry kind used) hist' cur' w3 \<noteq> None"
      if more: "allows_another r kind used"
      by (rule less.hyps) (use allows_another_total [OF more] in auto)
    with now w2 step Unfinished show ?thesis
      by (simp add: retry_loop.simps [of env hm show_float r q start used hist cur w])
  qed
qed

lemma send_with_retries_returns:
  "waits_safely r \<Longrightarrow> send_with_retries env hm show_float r q w \<noteq> None"
  using retry_loop_returns [of r no_retries env hm show_float q "snd (ne_now env w)" "[]" None "fst (ne_now env w)"]
  by (cases "ne_now env w") (simp add: send_with_retries_def no_retries_def)

text \<open>C12. The retry loop always returns: for a non-negative backoff factor and a finite cap it ends with a
  response or an error, and no wait makes it panic, whatever the network, the clock and the server do; with a
  factor of zero, for at most 128 retries.\<close>

theorem retry_returns:
  assumes "fl_le (Fin 0) (rt_backoff_factor r)" and "rt_backoff_max r = Fin b" and "0 \<le> b"
    and "b < 2 ^ 64" and "rt_total r \<le> 128 \<or> fl_less (Fin 0) (rt_backoff_factor r)"
  shows "\<exists>w' res. send_with_retries env hm show_float r q w = Some (w', res)"
  using send_with_retries_returns [of r env hm show_float q w] assms by (auto simp: waits_safely_def)

theorem retry_returns_witness:
  "\<exists>w' res. send_with_retries unavailable assoc_headers (\<lambda>_. []) retry_503 get_request [] = Some (w', res)"
  by (rule retry_returns [of _ 120])
     (simp_all add: retry_503_def half_factor_def retry_new_def unwrap_or_def DEFAULT_BACKOFF_MAX_def)

end
