(* ===== verification/Rqx_Transport.thy ===== *)
theory Rqx_Transport
  imports Rqx_Retry
begin

text \<open>
  Configuration and the transport: \<^verbatim>\<open>rqx-core/src/auth.rs\<close>, \<^verbatim>\<open>timeout.rs\<close>,
  \<^verbatim>\<open>http/\<close>, \<^verbatim>\<open>transport.rs\<close>, and the Python sides \<^verbatim>\<open>rqx/src/timeout.rs\<close>,
  \<^verbatim>\<open>http/tls.rs\<close> and \<^verbatim>\<open>transport.rs\<close>.

  Certificates, identities and proxies are values of \<^verbatim>\<open>reqwest\<close> made by its parsers, which
  are arguments here, as the file system is.
\<close>


section \<open>Options\<close>

datatype auth = NoAuth | Basic string string | Bearer string

definition auth_new :: "(string \<times> string) option \<Rightarrow> string option \<Rightarrow> rqx_error + auth" where
  "auth_new basic bearer =
     (case (basic, bearer) of
        (None, None) \<Rightarrow> Inr NoAuth
      | (Some (u, p), None) \<Rightarrow> Inr (Basic u p)
      | (None, Some t) \<Rightarrow> Inr (Bearer t)
      | (Some _, Some _) \<Rightarrow>
          Inl (InvalidArgument ''Cannot specify both basic auth and a bearer token.''))"

record timeout =
  to_connect :: "fl option"
  to_read :: "fl option"
  to_write :: "fl option"
  to_pool :: "fl option"

definition timeout_default :: timeout where
  "timeout_default = \<lparr>to_connect = None, to_read = None, to_write = None, to_pool = None\<rparr>"

definition timeout_new :: "fl option \<Rightarrow> fl option \<Rightarrow> fl option \<Rightarrow> fl option \<Rightarrow> timeout" where
  "timeout_new c r w p = \<lparr>to_connect = c, to_read = r, to_write = w, to_pool = p\<rparr>"

fun reduce_max :: "fl list \<Rightarrow> fl option" where
  "reduce_max [] = None"
| "reduce_max (x # xs) = Some (foldl fl_max x xs)"

definition flatten :: "'a option list \<Rightarrow> 'a list" where
  "flatten xs = concat (map (\<lambda>x. case x of Some v \<Rightarrow> [v] | None \<Rightarrow> []) xs)"

definition per_request_total :: "timeout \<Rightarrow> fl option" where
  "per_request_total t =
     (if to_read t \<noteq> None then to_read t
      else reduce_max (flatten [to_connect t, to_write t, to_pool t]))"

definition or_else :: "'a option \<Rightarrow> 'a option \<Rightarrow> 'a option" where
  "or_else a b = (case a of Some x \<Rightarrow> Some x | None \<Rightarrow> b)"

text \<open>\<^verbatim>\<open>rqx.Timeout(all, connect=, read=, write=, pool=)\<close>.\<close>

definition py_timeout_new ::
  "fl option \<Rightarrow> fl option \<Rightarrow> fl option \<Rightarrow> fl option \<Rightarrow> fl option \<Rightarrow> timeout" where
  "py_timeout_new every c r w p =
     timeout_new (or_else c every) (or_else r every) (or_else w every) (or_else p every)"

datatype timeout_arg = TimeoutObj timeout | Seconds fl

fun timeout_from_arg :: "timeout_arg \<Rightarrow> timeout" where
  "timeout_from_arg (TimeoutObj t) = t"
| "timeout_from_arg (Seconds n) = timeout_new (Some n) (Some n) (Some n) (Some n)"

datatype http_version_config = Negotiate | Http1Only | Http2Only

definition http_version_from_args ::
  "bool option \<Rightarrow> bool option \<Rightarrow> rqx_error + http_version_config" where
  "http_version_from_args http1 http2 =
     (case (unwrap_or http1 True, unwrap_or http2 True) of
        (True, True) \<Rightarrow> Inr Negotiate
      | (True, False) \<Rightarrow> Inr Http1Only
      | (False, True) \<Rightarrow> Inr Http2Only
      | (False, False) \<Rightarrow> Inl (RequestError ''at least one of http1, http2 must be true''))"

text \<open>\<open>'c\<close> a certificate, \<open>'i\<close> an identity, \<open>'p\<close> a proxy.\<close>

datatype 'c verify_config = VerifyDefault | DisableVerification | CustomCa 'c

record ('c, 'i, 'p) tls_lib =
  tl_read_file :: "string \<Rightarrow> string + bytes"
  tl_cert_from_pem :: "bytes \<Rightarrow> string + 'c"
  tl_identity_from_pem :: "bytes \<Rightarrow> string + 'i"
  tl_proxy_http :: "string \<Rightarrow> string + 'p"
  tl_proxy_https :: "string \<Rightarrow> string + 'p"

definition verify_from_bool :: "bool \<Rightarrow> 'c verify_config" where
  "verify_from_bool v = (if v then VerifyDefault else DisableVerification)"

definition verify_from_path ::
  "('c, 'i, 'p) tls_lib \<Rightarrow> string \<Rightarrow> rqx_error + 'c verify_config" where
  "verify_from_path lib path =
     (case tl_read_file lib path of
        Inl e \<Rightarrow> Inl (TLSConfigError (''failed to read CA cert: '' @ e))
      | Inr bs \<Rightarrow>
          (case tl_cert_from_pem lib bs of
             Inl e \<Rightarrow> Inl (TLSConfigError (''failed to construct CA cert: '' @ e))
           | Inr c \<Rightarrow> Inr (CustomCa c)))"

definition identity_from_pem :: "('c, 'i, 'p) tls_lib \<Rightarrow> bytes \<Rightarrow> rqx_error + 'i" where
  "identity_from_pem lib bs =
     (case tl_identity_from_pem lib bs of
        Inl e \<Rightarrow> Inl (TLSConfigError (''failed to construct client cert: '' @ e))
      | Inr i \<Rightarrow> Inr i)"

definition identity_from_path :: "('c, 'i, 'p) tls_lib \<Rightarrow> string \<Rightarrow> rqx_error + 'i" where
  "identity_from_path lib path =
     (case tl_read_file lib path of
        Inl e \<Rightarrow> Inl (TLSConfigError (''failed to read client cert: '' @ e))
      | Inr bs \<Rightarrow> identity_from_pem lib bs)"

definition identity_from_tuple :: "('c, 'i, 'p) tls_lib \<Rightarrow> string \<Rightarrow> string \<Rightarrow> rqx_error + 'i" where
  "identity_from_tuple lib cert_path key_path =
     (case tl_read_file lib cert_path of
        Inl e \<Rightarrow> Inl (TLSConfigError (''failed to read '' @ cert_path @ '': '' @ e))
      | Inr bs \<Rightarrow>
          (case tl_read_file lib key_path of
             Inl e \<Rightarrow> Inl (TLSConfigError (''failed to read '' @ key_path @ '': '' @ e))
           | Inr ks \<Rightarrow> identity_from_pem lib (bs @ ks)))"

text \<open>\<^verbatim>\<open>ProxyParser::from_hash_map\<close>: schemes other than http and https are skipped.\<close>

fun proxies_from_pairs ::
  "('c, 'i, 'p) tls_lib \<Rightarrow> (string \<times> string) list \<Rightarrow> rqx_error + 'p list" where
  "proxies_from_pairs lib [] = Inr []"
| "proxies_from_pairs lib ((scheme, addr) # rest) =
     (if scheme = ''http'' \<or> scheme = ''https'' then
        (case (if scheme = ''http'' then tl_proxy_http lib addr else tl_proxy_https lib addr) of
           Inl e \<Rightarrow> Inl (ProxyError (''invalid proxy: '' @ e))
         | Inr p \<Rightarrow>
             (case proxies_from_pairs lib rest of Inl e \<Rightarrow> Inl e | Inr ps \<Rightarrow> Inr (p # ps)))
      else proxies_from_pairs lib rest)"

definition proxies_from_map ::
  "('c, 'i, 'p) tls_lib \<Rightarrow> (string \<times> string) list option \<Rightarrow> rqx_error + 'p list" where
  "proxies_from_map lib proxy =
     (case proxy of None \<Rightarrow> Inr [] | Some m \<Rightarrow> proxies_from_pairs lib m)"

text \<open>The \<^verbatim>\<open>verify=\<close> and \<^verbatim>\<open>cert=\<close> arguments, by what kind of object they are.\<close>

datatype verify_arg = VerifyBool bool | VerifyPath string | VerifyOther string

fun parse_verify ::
  "('c, 'i, 'p) tls_lib \<Rightarrow> verify_arg \<Rightarrow> py_rqx_error + 'c verify_config" where
  "parse_verify lib (VerifyBool b) = Inr (verify_from_bool b)"
| "parse_verify lib (VerifyPath p) = map_sum Core id (verify_from_path lib p)"
| "parse_verify lib (VerifyOther t) =
     Inl (Py (new_err CRqxError (''verify must be bool or str (CA cert path), got '' @ t)))"

datatype cert_arg = CertPath string | CertBytes bytes | CertPair string string | CertOther string

fun parse_identity :: "('c, 'i, 'p) tls_lib \<Rightarrow> cert_arg \<Rightarrow> py_rqx_error + 'i" where
  "parse_identity lib (CertPath p) = map_sum Core id (identity_from_path lib p)"
| "parse_identity lib (CertBytes b) = map_sum Core id (identity_from_pem lib b)"
| "parse_identity lib (CertPair c k) = map_sum Core id (identity_from_tuple lib c k)"
| "parse_identity lib (CertOther t) =
     Inl (Py (new_err CRqxError
       (''cert must be str (path), bytes (PEM), or (cert_path, key_path) tuple, got '' @ t)))"


section \<open>The transport's configuration\<close>

record pool_config =
  max_connections :: "u32 option"
  max_keepalive :: "u32 option"
  keepalive_expiry :: "fl option"

record ('c, 'i, 'p) transport_config =
  tc_pool :: pool_config
  tc_http_version :: http_version_config
  tc_verify :: "'c verify_config"
  tc_timeout :: timeout
  tc_retry :: "retry option"
  tc_cert :: "'i option"
  tc_proxies :: "'p list"

record transport_args =
  ta_max_connections :: "u32 option"
  ta_max_keepalive :: "u32 option"
  ta_keepalive_expiry :: "fl option"
  ta_http1 :: "bool option"
  ta_http2 :: "bool option"
  ta_verify :: "verify_arg option"
  ta_cert :: "cert_arg option"
  ta_proxy :: "(string \<times> string) list option"
  ta_timeout :: "timeout option"
  ta_retries :: "retry option"

definition transport_config_from ::
  "('c, 'i, 'p) tls_lib \<Rightarrow> transport_args \<Rightarrow> py_rqx_error + ('c, 'i, 'p) transport_config" where
  "transport_config_from lib a =
     (case (case ta_verify a of None \<Rightarrow> Inr VerifyDefault | Some v \<Rightarrow> parse_verify lib v) of
        Inl e \<Rightarrow> Inl e
      | Inr verify \<Rightarrow>
          (case (case ta_cert a of None \<Rightarrow> Inr None | Some c \<Rightarrow> map_sum id Some (parse_identity lib c)) of
             Inl e \<Rightarrow> Inl e
           | Inr cert \<Rightarrow>
               (case http_version_from_args (ta_http1 a) (ta_http2 a) of
                  Inl e \<Rightarrow> Inl (Core e)
                | Inr version \<Rightarrow>
                    (case proxies_from_map lib (ta_proxy a) of
                       Inl e \<Rightarrow> Inl (Core e)
                     | Inr proxies \<Rightarrow>
                         Inr \<lparr>tc_pool = \<lparr>max_connections = ta_max_connections a,
                                max_keepalive = ta_max_keepalive a,
                                keepalive_expiry = ta_keepalive_expiry a\<rparr>,
                              tc_http_version = version, tc_verify = verify,
                              tc_timeout = unwrap_or (ta_timeout a) timeout_default,
                              tc_retry = ta_retries a, tc_cert = cert, tc_proxies = proxies\<rparr>))))"

text \<open>The settings the code gives a \<^verbatim>\<open>reqwest::ClientBuilder\<close>.\<close>

record ('c, 'i, 'p) client_builder =
  cb_max_idle :: "nat option"
  cb_idle_timeout :: "real option"
  cb_connect_timeout :: "real option"
  cb_read_timeout :: "real option"
  cb_version :: http_version_config
  cb_accept_invalid :: bool
  cb_root :: "'c option"
  cb_identity :: "'i option"
  cb_proxies :: "'p list"
  cb_follow_redirects :: bool
  cb_cookie_store :: bool

definition duration_opt :: "fl option \<Rightarrow> real option option" where
  "duration_opt x = (case x of None \<Rightarrow> Some None | Some v \<Rightarrow> map_option Some (duration_from_secs v))"

text \<open>\<open>None\<close>: a timeout that is not a duration panics.\<close>

definition builder_from ::
  "('c, 'i, 'p) transport_config \<Rightarrow> ('c, 'i, 'p) client_builder option" where
  "builder_from c =
     (case (duration_opt (or_else (keepalive_expiry (tc_pool c)) (to_pool (tc_timeout c))),
            duration_opt (to_connect (tc_timeout c)), duration_opt (to_read (tc_timeout c))) of
        (Some idle, Some connect, Some read) \<Rightarrow>
          Some \<lparr>cb_max_idle = map_option unat (max_keepalive (tc_pool c)), cb_idle_timeout = idle,
                cb_connect_timeout = connect, cb_read_timeout = read,
                cb_version = tc_http_version c,
                cb_accept_invalid = (tc_verify c = DisableVerification),
                cb_root = (case tc_verify c of CustomCa ca \<Rightarrow> Some ca | _ \<Rightarrow> None),
                cb_identity = tc_cert c, cb_proxies = tc_proxies c,
                cb_follow_redirects = False, cb_cookie_store = True\<rparr>
      | _ \<Rightarrow> None)"


section \<open>Sending\<close>

definition transport_send ::
  "('w, 'h, 'u) net_env \<Rightarrow> ('h, 'v) header_map \<Rightarrow> (fl \<Rightarrow> string) \<Rightarrow> retry option \<Rightarrow>
     ('h, 'u) http_request \<Rightarrow> 'w \<Rightarrow> ('w \<times> (rqx_error + ('h, 'u) pending)) option" where
  "transport_send env hm show_float retry q w =
     (case retry of
        Some r \<Rightarrow> send_with_retries env hm show_float r q w
      | None \<Rightarrow>
          (case ne_execute env q w of
             (w', Inl e) \<Rightarrow> Some (w', Inl (from_reqwest e))
           | (w', Inr resp) \<Rightarrow> Some (w', Inr (pending_new resp))))"

lemma transport_send_errors:
  "transport_send env hm sf rt q w = Some (w', Inl e) \<Longrightarrow> http_error e"
  by (auto simp: transport_send_def send_with_retries_def split: option.splits prod.splits sum.splits
      dest: retry_loop_errors)


section \<open>The connection semaphore\<close>

text \<open>
  \<^verbatim>\<open>execute\<close> run by any number of tasks: each waits for a permit when there is a semaphore,
  executes the request, and drops the permit when the response's headers have arrived or the
  request has failed.
\<close>

datatype send_state = Waiting | Executing | Sent

record sem_sys =
  permits :: "nat option"
  sends :: "nat \<Rightarrow> send_state"

definition transport_semaphore :: "pool_config \<Rightarrow> nat option" where
  "transport_semaphore p = map_option unat (max_connections p)"

definition sem_init :: "pool_config \<Rightarrow> sem_sys" where
  "sem_init p = \<lparr>permits = transport_semaphore p, sends = (\<lambda>_. Waiting)\<rparr>"

definition set_send :: "nat \<Rightarrow> send_state \<Rightarrow> sem_sys \<Rightarrow> sem_sys" where
  "set_send i x s = s\<lparr>sends := (sends s)(i := x)\<rparr>"

inductive sem_step :: "sem_sys \<Rightarrow> sem_sys \<Rightarrow> bool" where
  sem_acquire: "sends s i = Waiting \<Longrightarrow> permits s = Some (Suc n) \<Longrightarrow>
     sem_step s (set_send i Executing (s\<lparr>permits := Some n\<rparr>))"
| sem_none: "sends s i = Waiting \<Longrightarrow> permits s = None \<Longrightarrow> sem_step s (set_send i Executing s)"
| sem_release: "sends s i = Executing \<Longrightarrow>
     sem_step s (set_send i Sent (s\<lparr>permits := map_option Suc (permits s)\<rparr>))"

inductive sem_reach :: "pool_config \<Rightarrow> sem_sys \<Rightarrow> bool" for p where
  sem_reach_init: "sem_reach p (sem_init p)"
| sem_reach_step: "sem_reach p s \<Longrightarrow> sem_step s t \<Longrightarrow> sem_reach p t"

definition executing :: "sem_sys \<Rightarrow> nat set" where
  "executing s = {i. sends s i = Executing}"

lemma executing_set [simp]:
  "executing (set_send i x s) = (if x = Executing then insert i (executing s) else executing s - {i})"
  by (auto simp: executing_def set_send_def)

lemma set_send_permits [simp]: "permits (set_send i x s) = permits s"
  by (simp add: set_send_def)

lemma executing_permits [simp]: "executing (s\<lparr>permits := n\<rparr>) = executing s"
  by (simp add: executing_def)

lemma sem_balance:
  "sem_reach p s \<Longrightarrow> finite (executing s) \<and>
     (case transport_semaphore p of
        None \<Rightarrow> permits s = None
      | Some m \<Rightarrow> (\<exists>k. permits s = Some k \<and> k + card (executing s) = m))"
proof (induction rule: sem_reach.induct)
  case sem_reach_init
  show ?case by (auto simp: sem_init_def executing_def split: option.splits)
next
  case (sem_reach_step s t)
  from sem_reach_step(2,3) show ?case
  proof cases
    case (sem_acquire i n)
    then have "i \<notin> executing s" by (simp add: executing_def)
    with sem_acquire sem_reach_step(3) show ?thesis by (auto split: option.splits)
  next
    case (sem_none i)
    with sem_reach_step(3) show ?thesis by (auto split: option.splits)
  next
    case (sem_release i)
    then have i: "i \<in> executing s" by (simp add: executing_def)
    with sem_reach_step(3) have "card (executing s) = Suc (card (executing s - {i}))"
      by (metis card.remove)
    with sem_release sem_reach_step(3) show ?thesis by (auto split: option.splits)
  qed
qed

text \<open>C27. With \<^verbatim>\<open>max_connections\<close> set, never more requests execute at once, in any
  interleaving, and no permit is lost: the free permits and the executing requests always add up
  to it.  With it set to 0, which the constructors accept, no request ever executes.\<close>

theorem semaphore_bounds_sends:
  assumes "sem_reach p s" and "max_connections p = Some m"
  shows "finite (executing s) \<and> card (executing s) \<le> unat m \<and>
    (\<exists>k. permits s = Some k \<and> k + card (executing s) = unat m) \<and>
    (m = 0 \<longrightarrow> executing s = {} \<and> (\<forall>i t. sends s i = Waiting \<and> sem_step s t \<longrightarrow> sends t i = Waiting))"
proof -
  have bal: "finite (executing s)" "\<exists>k. permits s = Some k \<and> k + card (executing s) = unat m"
    using sem_balance [OF assms(1)] assms(2) by (auto simp: transport_semaphore_def)
  moreover have "executing s = {} \<and> (\<forall>i t. sends s i = Waiting \<and> sem_step s t \<longrightarrow> sends t i = Waiting)"
    if "m = 0"
  proof -
    from bal that have "executing s = {}" "permits s = Some 0" by auto
    then show ?thesis by (auto elim!: sem_step.cases simp: set_send_def executing_def)
  qed
  ultimately show ?thesis by auto
qed

theorem semaphore_bounds_sends_witness:
  "card (executing (set_send 7 Executing (sem_init
     \<lparr>max_connections = Some 1, max_keepalive = None, keepalive_expiry = None\<rparr>
     \<lparr>permits := Some 0\<rparr>))) \<le> 1"
proof -
  let ?p = "\<lparr>max_connections = Some 1, max_keepalive = None, keepalive_expiry = None\<rparr>"
  have "sem_reach ?p (set_send 7 Executing (sem_init ?p\<lparr>permits := Some 0\<rparr>))"
    by (rule sem_reach_step [OF sem_reach_init], rule sem_acquire)
       (simp_all add: sem_init_def transport_semaphore_def)
  from semaphore_bounds_sends [OF this, of 1] show ?thesis by simp
qed

end
