(* ===== verification/Rqx_Redirect.thy ===== *)
theory Rqx_Redirect
  imports Rqx_Transport Rqx_Url
begin

text \<open>
  \<^verbatim>\<open>rqx-core/src/redirect.rs\<close> and \<^verbatim>\<open>rqx/src/redirect.rs\<close>: the redirect policy, and
  the request that follows a redirect.
\<close>

record redirect_policy =
  rp_follow :: bool
  rp_max_redirects :: u32
  rp_raise_on_exceeded :: bool

definition redirect_policy_default :: redirect_policy where
  "redirect_policy_default =
     \<lparr>rp_follow = False, rp_max_redirects = 20, rp_raise_on_exceeded = True\<rparr>"

definition policy_with_defaults ::
  "bool option \<Rightarrow> u32 option \<Rightarrow> bool option \<Rightarrow> redirect_policy" where
  "policy_with_defaults follow max_redirects raise_on_exceeded =
     \<lparr>rp_follow = unwrap_or follow (rp_follow redirect_policy_default),
      rp_max_redirects = unwrap_or max_redirects (rp_max_redirects redirect_policy_default),
      rp_raise_on_exceeded = unwrap_or raise_on_exceeded (rp_raise_on_exceeded redirect_policy_default)\<rparr>"

text \<open>\<^verbatim>\<open>PyRedirectPolicy::valid_policy_from_options\<close>.\<close>

definition valid_policy_from_options ::
  "bool option \<Rightarrow> u32 option \<Rightarrow> redirect_policy option \<Rightarrow> py_rqx_error + redirect_policy" where
  "valid_policy_from_options follow max_redirects redirects =
     (case redirects of
        Some r \<Rightarrow>
          if (\<exists>mr \<in> set_option max_redirects. rp_max_redirects r \<noteq> mr) then
            Inl (Py (new_err CRqxError
              ''Cannot specify conflicting max_redirects and RedirectPolicy.max_redirects''))
          else if (\<exists>fr \<in> set_option follow. rp_follow r \<noteq> fr) then
            Inl (Py (new_err CRqxError
              ''Cannot specify conflicting follow_redirects and RedirectPolicy.follow''))
          else Inr r
      | None \<Rightarrow> Inr (policy_with_defaults follow max_redirects None))"


section \<open>The next request\<close>

definition redirect_method :: "string \<Rightarrow> u16 \<Rightarrow> string" where
  "redirect_method original status =
     (if (status = 302 \<or> status = 303) \<and> original \<noteq> ''HEAD'' then ''GET''
      else if status = 301 \<and> original = ''POST'' then ''GET''
      else original)"

definition keeps_authorization :: "'u url_lib \<Rightarrow> 'u \<Rightarrow> 'u \<Rightarrow> bool" where
  "keeps_authorization ul from_url next_url \<longleftrightarrow>
     (if u_port_or_known_default ul from_url = Some 80 \<and> u_port_or_known_default ul next_url = Some 443 \<and>
         u_scheme ul from_url = ''http'' \<and> u_scheme ul next_url = ''https''
      then u_host ul from_url = u_host ul next_url
      else origin_eq ul from_url next_url)"

definition redirect_target :: "'u url_lib \<Rightarrow> 'u \<Rightarrow> string \<Rightarrow> rqx_error + 'u" where
  "redirect_target ul u location =
     (case u_join ul u location of
        Inl e \<Rightarrow> Inl (RequestError (''Error parsing url from redirect: '' @ e))
      | Inr v \<Rightarrow> Inr v)"

definition CONTENT_HEADERS :: "string list" where
  "CONTENT_HEADERS = [''content-length'', ''content-type'', ''transfer-encoding'']"

definition redirected_request ::
  "('h, 'v) header_map \<Rightarrow> 'u url_lib \<Rightarrow> ('h, 'u) http_request \<Rightarrow> u16 \<Rightarrow> 'u \<Rightarrow> ('h, 'u) http_request"
  where
  "redirected_request hm ul q status target =
     (let m = redirect_method (rq_method q) status;
          q1 = (if m \<noteq> rq_method q
            then q\<lparr>rq_body := None,
              rq_headers := foldl (\<lambda>h name. delete_item_safe hm name h) (rq_headers q) CONTENT_HEADERS\<rparr>
            else q);
          q2 = q1\<lparr>rq_headers := delete_item_safe hm ''cookie'' (rq_headers q1)\<rparr>;
          q3 = (if \<not> keeps_authorization ul (rq_url q2) target
            then q2\<lparr>rq_headers := delete_item_safe hm ''authorization'' (rq_headers q2)\<rparr> else q2)
      in q3\<lparr>rq_method := m, rq_url := target\<rparr>)"


section \<open>What crosses a redirect\<close>

lemma delete_item_safe_contains:
  assumes "header_map_ok hm"
  shows "headers_contains hm k' (delete_item_safe hm k h) \<longleftrightarrow>
    hm_name hm k' \<noteq> hm_name hm k \<and> headers_contains hm k' h"
  by (auto simp: headers_contains_def delete_item_safe_def header_map_laws(4,10) [OF assms])

lemma delete_item_safe_joined:
  assumes "header_map_ok hm" "hm_name hm k' \<noteq> hm_name hm k"
  shows "get_joined hm k' (delete_item_safe hm k h) = get_joined hm k' h"
  using assms(2)
  by (simp add: get_joined_def delete_item_safe_def header_map_laws(2,10) [OF assms(1)])

lemma redirected_request_simps [simp]:
  "rq_url (redirected_request hm ul q status target) = target"
  "rq_method (redirected_request hm ul q status target) = redirect_method (rq_method q) status"
  by (simp_all add: redirected_request_def Let_def)

text \<open>The header names the code removes, as header names that differ from one another.\<close>

definition removed_names :: "bool \<Rightarrow> bool \<Rightarrow> string set" where
  "removed_names changed keep =
     {''cookie''} \<union> (if changed then set CONTENT_HEADERS else {}) \<union>
     (if keep then {} else {''authorization''})"

lemma redirected_headers:
  assumes "header_map_ok hm"
  shows "headers_contains hm k (rq_headers (redirected_request hm ul q status target)) \<longleftrightarrow>
      headers_contains hm k (rq_headers q) \<and>
      (\<forall>n \<in> removed_names (redirect_method (rq_method q) status \<noteq> rq_method q)
        (keeps_authorization ul (rq_url q) target). hm_name hm k \<noteq> hm_name hm n)"
    and "\<forall>n \<in> removed_names (redirect_method (rq_method q) status \<noteq> rq_method q)
        (keeps_authorization ul (rq_url q) target). hm_name hm k \<noteq> hm_name hm n \<Longrightarrow>
      get_joined hm k (rq_headers (redirected_request hm ul q status target)) =
      get_joined hm k (rq_headers q)"
  by (auto simp: redirected_request_def Let_def removed_names_def CONTENT_HEADERS_def
      delete_item_safe_contains [OF assms] delete_item_safe_joined [OF assms])

text \<open>What a redirect carries over: the \<^verbatim>\<open>Cookie\<close> header never; the body and the
  headers that describe it exactly when the method stays; \<^verbatim>\<open>Authorization\<close> only to a URL
  that keeps it; and every other header with its values unchanged.\<close>

theorem redirect_carries_over:
  assumes "header_map_ok hm" and "q' = redirected_request hm ul q status target"
  shows "\<not> headers_contains hm ''cookie'' (rq_headers q') \<and>
    (if redirect_method (rq_method q) status \<noteq> rq_method q
     then rq_body q' = None \<and> (\<forall>n \<in> set CONTENT_HEADERS. \<not> headers_contains hm n (rq_headers q'))
     else rq_body q' = rq_body q) \<and>
    (headers_contains hm ''authorization'' (rq_headers q') \<longrightarrow>
       keeps_authorization ul (rq_url q) target) \<and>
    (\<forall>k. (\<forall>n \<in> {''cookie'', ''authorization''} \<union> set CONTENT_HEADERS. hm_name hm k \<noteq> hm_name hm n) \<longrightarrow>
       get_joined hm k (rq_headers q') = get_joined hm k (rq_headers q))"
proof -
  have "rq_body q' = (if redirect_method (rq_method q) status \<noteq> rq_method q then None else rq_body q)"
    by (simp add: assms(2) redirected_request_def Let_def)
  moreover have "get_joined hm k (rq_headers q') = get_joined hm k (rq_headers q)"
    if "\<forall>n \<in> {''cookie'', ''authorization''} \<union> set CONTENT_HEADERS. hm_name hm k \<noteq> hm_name hm n" for k
    unfolding assms(2) by (rule redirected_headers(2) [OF assms(1)])
      (use that in \<open>auto simp: removed_names_def split: if_splits\<close>)
  ultimately show ?thesis
    unfolding assms(2) by (auto simp: redirected_headers(1) [OF assms(1)] removed_names_def)
qed

text \<open>URLs for evaluating the definitions: scheme, host and port, with no parser.\<close>

definition plain_urls :: "(string \<times> string \<times> u16) url_lib" where
  "plain_urls =
     \<lparr>u_parse = (\<lambda>_. Inl RelativeUrlWithoutBase), u_str = (\<lambda>(s, h, p). s @ ''://'' @ h),
      u_scheme = fst, u_username = (\<lambda>_. []), u_password = (\<lambda>_. None),
      u_host = (\<lambda>(s, h, p). Some (Domain h)), u_host_str = (\<lambda>(s, h, p). Some h),
      u_port = (\<lambda>(s, h, p). Some p), u_port_or_known_default = (\<lambda>(s, h, p). Some p),
      u_path = (\<lambda>_. ''/''), u_query = (\<lambda>_. None), u_fragment = (\<lambda>_. None),
      u_has_authority = (\<lambda>_. True), u_join = (\<lambda>u s. Inr (''https'', s, 443)),
      u_set_path = (\<lambda>_ u. u), u_set_query = (\<lambda>_ u. u),
      u_origin = (\<lambda>(s, h, p). Some (s, Domain h, p))\<rparr>"

theorem redirect_carries_over_witness:
  "get_joined assoc_headers ''accept'' (rq_headers (redirected_request assoc_headers plain_urls
     \<lparr>rq_method = ''POST'', rq_url = (''https'', ''a'', 443),
      rq_headers = [(''accept'', ''x''), (''cookie'', ''y''), (''authorization'', ''z'')],
      rq_body = Some (Payload [1]), rq_timeout = None\<rparr> 303 (''https'', ''b'', 443))) = Inr ''x''"
proof -
  have names: "\<forall>n \<in> {''cookie'', ''authorization''} \<union> set CONTENT_HEADERS.
      hm_name assoc_headers ''accept'' \<noteq> hm_name assoc_headers n"
    by code_simp
  have val: "get_joined assoc_headers ''accept''
      [(''accept'', ''x''), (''cookie'', ''y''), (''authorization'', ''z'')] = Inr ''x''"
    by code_simp
  show ?thesis
    using redirect_carries_over [OF assoc_headers_ok refl] names val by (metis http_request.select_convs(3))
qed

text \<open>The method after a redirect: 303 and 302 turn everything but \<^verbatim>\<open>HEAD\<close> into
  \<^verbatim>\<open>GET\<close>, 301 turns only \<^verbatim>\<open>POST\<close>, and 307 and 308 never change it; following a
  second redirect of the same status changes nothing more.\<close>

theorem redirect_method_rule:
  "(redirect_method m status = m \<or> redirect_method m status = ''GET'') \<and>
   (redirect_method m status \<noteq> m \<longleftrightarrow>
      m \<noteq> ''GET'' \<and>
      ((status \<in> {302, 303} \<and> m \<noteq> ''HEAD'') \<or> (status = 301 \<and> m = ''POST''))) \<and>
   redirect_method (redirect_method m status) status = redirect_method m status"
  by (auto simp: redirect_method_def)

end
