(* ===== verification/Rqx_Client.thy ===== *)
theory Rqx_Client
  imports Rqx_Redirect Rqx_Stream
begin

text \<open>
  The client: \<^verbatim>\<open>rqx-core/src/request.rs\<close>, \<^verbatim>\<open>request_components/body.rs\<close>,
  \<^verbatim>\<open>client.rs\<close> and \<^verbatim>\<open>streaming/context.rs\<close>, and the Python classes of
  \<^verbatim>\<open>rqx/src/client.rs\<close> and \<^verbatim>\<open>rqx/src/stream_context.rs\<close>.

  The cookie jar is shared by every clone of a client, so the operations thread it beside the
  world.  The builder of \<^verbatim>\<open>reqwest\<close> requests is another crate's: \<open>rb\<close>.
\<close>


section \<open>Requests\<close>

datatype request_body =
    EmptyBody | ContentBody bytes | FormBody "(string \<times> string) list" | JsonBody json

definition request_body_new ::
  "bytes option \<Rightarrow> (string \<times> string) list option \<Rightarrow> json option \<Rightarrow> rqx_error + request_body" where
  "request_body_new content data js =
     (case (content, data, js) of
        (None, None, None) \<Rightarrow> Inr EmptyBody
      | (Some c, None, None) \<Rightarrow> Inr (ContentBody c)
      | (None, Some d, None) \<Rightarrow> Inr (FormBody d)
      | (None, None, Some j) \<Rightarrow> Inr (JsonBody j)
      | _ \<Rightarrow> Inl (InvalidArgument ''Only one of content, data, or json may be set''))"

record ('h, 'u, 'r) request =
  q_method :: string
  q_url :: "('u, 'r) url_reference"
  q_params :: "pairs option"
  q_headers :: "'h option"
  q_body :: request_body
  q_auth :: "auth option"
  q_timeout :: "fl option"
  q_follow_redirects :: "bool option"

definition ascii_upper :: "char \<Rightarrow> char" where
  "ascii_upper c =
     (let n = of_char c :: nat in if 97 \<le> n \<and> n \<le> 122 then char_of (n - 32) else c)"

text \<open>\<open>method_of\<close> is \<^verbatim>\<open>Method::from_bytes\<close>.\<close>

definition request_new ::
  "(string \<Rightarrow> string + string) \<Rightarrow> string \<Rightarrow> ('u, 'r) url_reference \<Rightarrow> pairs option \<Rightarrow> 'h option \<Rightarrow>
     request_body \<Rightarrow> auth option \<Rightarrow> fl option \<Rightarrow> bool option \<Rightarrow>
     rqx_error + ('h, 'u, 'r) request" where
  "request_new method_of method u params hs body au timeout follow =
     (case method_of (map ascii_upper method) of
        Inl e \<Rightarrow> Inl (InvalidArgument (''invalid method '' @ debug_str method @ '': '' @ e))
      | Inr m \<Rightarrow>
          Inr \<lparr>q_method = m, q_url = u, q_params = params, q_headers = hs, q_body = body,
               q_auth = au, q_timeout = timeout, q_follow_redirects = follow\<rparr>)"


section \<open>Building what is sent\<close>

record 'u client_config =
  cc_timeout :: timeout
  cc_redirects :: redirect_policy
  cc_base_url :: "'u option"
  cc_auth :: auth

definition client_config_new ::
  "timeout \<Rightarrow> redirect_policy \<Rightarrow> 'u option \<Rightarrow> auth \<Rightarrow> 'u client_config" where
  "client_config_new t p b a = \<lparr>cc_timeout = t, cc_redirects = p, cc_base_url = b, cc_auth = a\<rparr>"

text \<open>A client: what of its transport the code reads, and its configuration.\<close>

record 'u client =
  cl_retry :: "retry option"
  cl_config :: "'u client_config"

definition DEFAULT_TIMEOUT :: fl where "DEFAULT_TIMEOUT = Fin 15"

definition timeout_secs :: "'u client \<Rightarrow> fl" where
  "timeout_secs cl = unwrap_or (per_request_total (cc_timeout (cl_config cl))) DEFAULT_TIMEOUT"

definition merge_url ::
  "'u url_lib \<Rightarrow> 'r iri_lib \<Rightarrow> 'u client \<Rightarrow> ('u, 'r) url_reference \<Rightarrow> rqx_error + 'u" where
  "merge_url ul il cl x =
     (case (case x of Absolute u \<Rightarrow> if u_has_authority ul u then Some u else None | Relative _ \<Rightarrow> None) of
        Some u \<Rightarrow> Inr u
      | None \<Rightarrow>
          (case cc_base_url (cl_config cl) of
             Some base \<Rightarrow> base_url_join ul il base x
           | None \<Rightarrow> Inl (UnsupportedProtocol
               ''Request URL is missing an 'http://' or 'https://' protocol.'')))"

record ('b, 'h, 'u) request_lib =
  rb_new :: "string \<Rightarrow> 'u \<Rightarrow> 'b"
  rb_headers :: "'h \<Rightarrow> 'b \<Rightarrow> 'b"
  rb_basic_auth :: "string \<Rightarrow> string \<Rightarrow> 'b \<Rightarrow> 'b"
  rb_bearer_auth :: "string \<Rightarrow> 'b \<Rightarrow> 'b"
  rb_body :: "bytes \<Rightarrow> 'b \<Rightarrow> 'b"
  rb_form :: "(string \<times> string) list \<Rightarrow> 'b \<Rightarrow> 'b"
  rb_json :: "json \<Rightarrow> 'b \<Rightarrow> 'b"
  rb_timeout :: "real \<Rightarrow> 'b \<Rightarrow> 'b"
  rb_build :: "'b \<Rightarrow> reqwest_error + ('h, 'u) http_request"

text \<open>The query of the request's \<^verbatim>\<open>params=\<close> replaces the one of its URL.\<close>

definition apply_params ::
  "'u url_lib \<Rightarrow> (pairs \<Rightarrow> string) \<Rightarrow> pairs option \<Rightarrow> 'u \<Rightarrow> 'u" where
  "apply_params ul form_serialize params u =
     (case params of
        None \<Rightarrow> u
      | Some ps \<Rightarrow>
          (let query = qp_display form_serialize ps in
           u_set_query ul (if query = [] then None else Some query) u))"

definition apply_auth :: "('b, 'h, 'u) request_lib \<Rightarrow> auth \<Rightarrow> 'b \<Rightarrow> 'b" where
  "apply_auth rb a b =
     (case a of NoAuth \<Rightarrow> b | Basic u p \<Rightarrow> rb_basic_auth rb u p b | Bearer t \<Rightarrow> rb_bearer_auth rb t b)"

definition apply_body :: "('b, 'h, 'u) request_lib \<Rightarrow> request_body \<Rightarrow> 'b \<Rightarrow> 'b" where
  "apply_body rb body b =
     (case body of
        ContentBody c \<Rightarrow> rb_body rb c b
      | FormBody f \<Rightarrow> rb_form rb f b
      | JsonBody j \<Rightarrow> rb_json rb j b
      | EmptyBody \<Rightarrow> b)"

text \<open>\<open>None\<close>: \<^verbatim>\<open>Duration::from_secs_f64\<close> panics.\<close>

definition client_build ::
  "'u url_lib \<Rightarrow> 'r iri_lib \<Rightarrow> (pairs \<Rightarrow> string) \<Rightarrow> ('b, 'h, 'u) request_lib \<Rightarrow> 'u client \<Rightarrow>
     ('h, 'u, 'r) request \<Rightarrow> (rqx_error + ('h, 'u) http_request) option" where
  "client_build ul il form_serialize rb cl q =
     (case merge_url ul il cl (q_url q) of
        Inl e \<Rightarrow> Some (Inl e)
      | Inr u \<Rightarrow>
          if u_scheme ul u \<notin> {''http'', ''https''} then
            Some (Inl (UnsupportedProtocol
              (''Request URL has an unsupported protocol '' @ [CHR 0x27] @ u_scheme ul u @ ''://'' @
               [CHR 0x27] @ ''.'')))
          else
            (let b = rb_new rb (q_method q) (apply_params ul form_serialize (q_params q) u);
                 b1 = (case q_headers q of Some h \<Rightarrow> rb_headers rb h b | None \<Rightarrow> b);
                 b2 = apply_auth rb (unwrap_or (q_auth q) (cc_auth (cl_config cl))) b1;
                 b3 = apply_body rb (q_body q) b2
             in case duration_from_secs (unwrap_or (q_timeout q) (timeout_secs cl)) of
                  None \<Rightarrow> None
                | Some d \<Rightarrow> Some (map_sum from_reqwest id (rb_build rb (rb_timeout rb d b3)))))"


section \<open>Following redirects\<close>

definition accumulate_cookies :: "cookies \<Rightarrow> cookies \<Rightarrow> cookies" where
  "accumulate_cookies jar resp = (if resp = Map.empty then jar else jar ++ resp)"

lemma accumulate_cookies_add [simp, code]: "accumulate_cookies jar resp = jar ++ resp"
  by (simp add: accumulate_cookies_def)

datatype ('h, 'u) hop_result =
    HopDone "rqx_error + ('h, 'u) pending"
  | HopAgain "('h, 'u) http_request" u32 history

text \<open>What the loop does with the response of one hop.\<close>

definition hop_outcome ::
  "('w, 'h, 'u) net_env \<Rightarrow> ('h, 'v) header_map \<Rightarrow> 'u url_lib \<Rightarrow> redirect_policy \<Rightarrow>
     ('h, 'u) http_request \<Rightarrow> nat \<Rightarrow> u32 \<Rightarrow> history \<Rightarrow> ('h, 'u) pending \<Rightarrow> cookies \<Rightarrow> 'w \<Rightarrow>
     'w \<times> cookies \<times> ('h, 'u) hop_result" where
  "hop_outcome env hm ul policy q used num hist hop jar w =
     (let num' = num + num_retries (parts hop);
          hist' = hist @ retry_history (parts hop);
          status = status_code (parts hop)
      in if \<not> (300 \<le> status \<and> status < 400) then
           (w, jar, HopDone (Inr (with_retries num' hist' hop)))
         else
           (let jar' = accumulate_cookies jar (cookies (parts hop)) in
            if unat (rp_max_redirects policy) \<le> used + 1 then
              (w, jar', HopDone
                 (if rp_raise_on_exceeded policy
                  then Inl (TooManyRedirects (''Exceeded max redirects '' @
                    show_nat (unat (rp_max_redirects policy))))
                  else Inr (with_retries num' hist' hop)))
            else
              (case get_first hm ''location'' (headers (parts hop)) of
                 None \<Rightarrow>
                   (w, jar', HopDone (Inl (RemoteProtocolError ''3xx response missing Location header'')))
               | Some location \<Rightarrow>
                   (let w' = ne_drain env (response hop) w in
                    case redirect_target ul (rq_url q) location of
                      Inl e \<Rightarrow> (w', jar', HopDone (Inl e))
                    | Inr target \<Rightarrow>
                        (w', jar', HopAgain (redirected_request hm ul q status target) num' hist')))))"

definition redirect_hop ::
  "('w, 'h, 'u) net_env \<Rightarrow> ('h, 'v) header_map \<Rightarrow> 'u url_lib \<Rightarrow> (fl \<Rightarrow> string) \<Rightarrow> 'u client \<Rightarrow>
     ('h, 'u) http_request \<Rightarrow> nat \<Rightarrow> u32 \<Rightarrow> history \<Rightarrow> cookies \<Rightarrow> 'w \<Rightarrow>
     ('w \<times> cookies \<times> ('h, 'u) hop_result) option" where
  "redirect_hop env hm ul show_float cl q used num hist jar w =
     (case try_clone q of
        None \<Rightarrow> Some (w, jar, HopDone (Inl (RequestError ''Request body cannot be replayed'')))
      | Some q' \<Rightarrow>
          (case transport_send env hm show_float (cl_retry cl) q' w of
             None \<Rightarrow> None
           | Some (w1, Inl e) \<Rightarrow> Some (w1, jar, HopDone (Inl e))
           | Some (w1, Inr hop) \<Rightarrow>
               Some (hop_outcome env hm ul (cc_redirects (cl_config cl)) q used num hist hop jar w1)))"

lemma hop_again_used:
  "hop_outcome env hm ul policy q used num hist hop jar w = (w', jar', HopAgain q' num' hist') \<Longrightarrow>
     Suc used < unat (rp_max_redirects policy)"
  by (auto simp: hop_outcome_def Let_def split: if_splits option.splits sum.splits)

lemma redirect_hop_used:
  "redirect_hop env hm ul show_float cl q used num hist jar w = Some (w', jar', HopAgain q' num' hist') \<Longrightarrow>
     Suc used < unat (rp_max_redirects (cc_redirects (cl_config cl)))"
  by (auto simp: redirect_hop_def split: option.splits sum.splits dest: hop_again_used)

text \<open>
  The loop.  \<open>used\<close> is the \<^verbatim>\<open>u32\<close> \<^verbatim>\<open>redirects_used\<close>; it stays below
  \<^verbatim>\<open>max_redirects\<close>, so it never wraps.
\<close>

function follow_redirects ::
  "('w, 'h, 'u) net_env \<Rightarrow> ('h, 'v) header_map \<Rightarrow> 'u url_lib \<Rightarrow> (fl \<Rightarrow> string) \<Rightarrow> 'u client \<Rightarrow>
     ('h, 'u) http_request \<Rightarrow> nat \<Rightarrow> u32 \<Rightarrow> history \<Rightarrow> cookies \<Rightarrow> 'w \<Rightarrow>
     ('w \<times> cookies \<times> (rqx_error + ('h, 'u) pending)) option" where
  "follow_redirects env hm ul show_float cl q used num hist jar w =
     (case redirect_hop env hm ul show_float cl q used num hist jar w of
        None \<Rightarrow> None
      | Some (w', jar', HopDone res) \<Rightarrow> Some (w', jar', res)
      | Some (w', jar', HopAgain q' num' hist') \<Rightarrow>
          follow_redirects env hm ul show_float cl q' (used + 1) num' hist' jar' w')"
  by pat_completeness auto
termination
  by (relation "measure (\<lambda>(env, hm, ul, show_float, cl, q, used, num, hist, jar, w).
    unat (rp_max_redirects (cc_redirects (cl_config cl))) - used)") (auto dest: redirect_hop_used)

declare follow_redirects.simps [simp del]


section \<open>Sending\<close>

definition client_send ::
  "('w, 'h, 'u) net_env \<Rightarrow> ('h, 'v) header_map \<Rightarrow> 'u url_lib \<Rightarrow> (fl \<Rightarrow> string) \<Rightarrow> 'u client \<Rightarrow>
     ('h, 'u) http_request \<Rightarrow> bool \<Rightarrow> cookies \<Rightarrow> 'w \<Rightarrow>
     ('w \<times> cookies \<times> (rqx_error + ('h, 'u) pending)) option" where
  "client_send env hm ul show_float cl q follow jar w =
     (case ne_now env w of (w1, start) \<Rightarrow>
        (case (if follow then follow_redirects env hm ul show_float cl q 0 0 [] jar w1
               else map_option (\<lambda>(w2, res). (w2, jar, res))
                 (transport_send env hm show_float (cl_retry cl) q w1)) of
           None \<Rightarrow> None
         | Some (w2, jar2, Inl e) \<Rightarrow> Some (w2, jar2, Inl e)
         | Some (w2, jar2, Inr p) \<Rightarrow>
             (let jar3 = accumulate_cookies jar2 (cookies (parts p)) in
              case ne_now env w2 of (w3, t) \<Rightarrow>
                Some (w3, jar3, Inr (p\<lparr>parts := (parts p)\<lparr>elapsed := t - start\<rparr>\<rparr>)))))"

definition follows :: "'u client \<Rightarrow> ('h, 'u, 'r) request \<Rightarrow> bool" where
  "follows cl q = unwrap_or (q_follow_redirects q) (rp_follow (cc_redirects (cl_config cl)))"

definition client_request ::
  "('w, 'h, 'u) net_env \<Rightarrow> ('h, 'v) header_map \<Rightarrow> 'u url_lib \<Rightarrow> 'r iri_lib \<Rightarrow> (pairs \<Rightarrow> string) \<Rightarrow>
     ('b, 'h, 'u) request_lib \<Rightarrow> (fl \<Rightarrow> string) \<Rightarrow> 'u client \<Rightarrow> ('h, 'u, 'r) request \<Rightarrow> cookies \<Rightarrow> 'w \<Rightarrow>
     ('w \<times> cookies \<times> (rqx_error + ('h, 'u) buffered)) option" where
  "client_request env hm ul il form_serialize rb show_float cl q jar w =
     (case client_build ul il form_serialize rb cl q of
        None \<Rightarrow> None
      | Some (Inl e) \<Rightarrow> Some (w, jar, Inl e)
      | Some (Inr built) \<Rightarrow>
          (case client_send env hm ul show_float cl built (follows cl q) jar w of
             None \<Rightarrow> None
           | Some (w', jar', Inl e) \<Rightarrow> Some (w', jar', Inl e)
           | Some (w', jar', Inr p) \<Rightarrow> Some (w', jar', pending_read p)))"


section \<open>How much a redirect chain sends\<close>





lemma redirect_hop_cases:
  assumes "redirect_hop env hm ul sf cl q used num hist jar w = Some (w', jar', step)"
  obtains (one_shot) "rq_body q = Some OneShot" "w' = w" "jar' = jar" "\<exists>e. step = HopDone (Inl e)"
  | (failed) e where "transport_send env hm sf (cl_retry cl) q w = Some (w', Inl e)"
      "jar' = jar" "step = HopDone (Inl e)"
  | (answered) w1 hop where "transport_send env hm sf (cl_retry cl) q w = Some (w1, Inr hop)"
      "hop_outcome env hm ul (cc_redirects (cl_config cl)) q used num hist hop jar w1 = (w', jar', step)"
  using assms
  by (auto simp: redirect_hop_def try_clone_def split: option.splits sum.splits if_splits)

lemma hop_outcome_counted:
  assumes "hop_outcome (counted env) hm ul policy q used num hist hop jar (w, n) = (w', jar', step)"
  shows "\<exists>v. w' = (v, n)"
  using assms
  by (auto simp: hop_outcome_def counted_def Let_def split: if_splits option.splits sum.splits)




section \<open>It returns\<close>

definition retry_safe :: "retry option \<Rightarrow> bool" where
  "retry_safe rt \<longleftrightarrow> (case rt of None \<Rightarrow> True | Some r \<Rightarrow> waits_safely r)"

lemma transport_send_returns:
  "retry_safe rt \<Longrightarrow> transport_send env hm sf rt q w \<noteq> None"
  by (cases rt)
     (auto simp: retry_safe_def transport_send_def simp flip: not_None_eq
       dest: send_with_retries_returns split: prod.splits sum.splits)

lemma redirect_hop_returns:
  assumes "retry_safe (cl_retry cl)"
  shows "redirect_hop env hm ul sf cl q used num hist jar w \<noteq> None"
  using transport_send_returns [OF assms, of env hm sf q w]
  by (auto simp: redirect_hop_def try_clone_def split: sum.splits) (metis surj_pair)

lemma follow_redirects_returns:
  assumes "retry_safe (cl_retry cl)"
  shows "follow_redirects env hm ul sf cl q used num hist jar w \<noteq> None"
proof (induction "unat (rp_max_redirects (cc_redirects (cl_config cl))) - used"
    arbitrary: q used num hist jar w rule: less_induct)
  case less
  obtain w1 jar1 step where
    hop: "redirect_hop env hm ul sf cl q used num hist jar w = Some (w1, jar1, step)"
    using redirect_hop_returns [OF assms, of env hm ul sf q used num hist jar w] by auto
  show ?case
  proof (cases step)
    case (HopDone r)
    with hop show ?thesis by (simp add: follow_redirects.simps [of env hm ul sf cl q used num hist jar w])
  next
    case (HopAgain q' num' hist')
    from redirect_hop_used [OF hop [unfolded HopAgain]] have
      "unat (rp_max_redirects (cc_redirects (cl_config cl))) - (used + 1) <
       unat (rp_max_redirects (cc_redirects (cl_config cl))) - used" by simp
    from less [OF this] hop HopAgain show ?thesis
      by (simp add: follow_redirects.simps [of env hm ul sf cl q used num hist jar w])
  qed
qed


section \<open>Invariants over a chain of hops\<close>









section \<open>Credentials\<close>









section \<open>The jar\<close>

text \<open>The world with the list of the responses received.\<close>

definition recorded :: "('w, 'h, 'u) net_env \<Rightarrow> ('w \<times> ('h, 'u) http_response list, 'h, 'u) net_env" where
  "recorded env =
     \<lparr>ne_execute = (\<lambda>q (w, l). case ne_execute env q w of
        (w', Inr r) \<Rightarrow> ((w', l @ [r]), Inr r) | (w', Inl e) \<Rightarrow> ((w', l), Inl e)),
      ne_now = (\<lambda>(w, l). case ne_now env w of (w', t) \<Rightarrow> ((w', l), t)),
      ne_random = (\<lambda>(w, l). case ne_random env w of (w', u) \<Rightarrow> ((w', l), u)),
      ne_sleep = (\<lambda>d (w, l). (ne_sleep env d w, l)),
      ne_drain = (\<lambda>b (w, l). (ne_drain env b w, l))\<rparr>"

definition jar_after :: "cookies \<Rightarrow> ('h, 'u) http_response list \<Rightarrow> cookies" where
  "jar_after jar rs = foldl (\<lambda>j r. j ++ map_of (rev (hr_cookies r))) jar rs"

lemma jar_after_append [simp]:
  "jar_after jar [] = jar"
  "jar_after jar (rs @ [r]) = jar_after jar rs ++ map_of (rev (hr_cookies r))"
  by (simp_all add: jar_after_def)

lemma recorded_now: "ne_now (recorded env) (w, l) = (w1, t) \<Longrightarrow> \<exists>v. w1 = (v, l)"
  by (auto simp: recorded_def split: prod.splits)

lemma transport_send_recorded:
  assumes "transport_send (recorded env) hm sf None q (w, l) = Some ((w', l'), res)"
  shows "(\<exists>e. res = Inl e \<and> l' = l) \<or>
    (\<exists>r. res = Inr (pending_new r) \<and> l' = l @ [r])"
  using assms by (auto simp: transport_send_def recorded_def split: prod.splits sum.splits)

text \<open>
  After a hop the jar has every response's cookies, but for those of the response returned, which
  \<^verbatim>\<open>send\<close> adds; adding them twice changes nothing.
\<close>

lemma map_add_twice: "m ++ c ++ c = m ++ c"
  by (rule ext) (simp add: map_add_def split: option.split)

definition jar_ok ::
  "cookies \<Rightarrow> ('h, 'u) http_response list \<Rightarrow> cookies \<Rightarrow> rqx_error + ('h, 'u) pending \<Rightarrow> bool" where
  "jar_ok jar rs jar' res \<longleftrightarrow>
     (case res of Inl e \<Rightarrow> jar' = jar_after jar rs
      | Inr p \<Rightarrow> jar' ++ cookies (parts p) = jar_after jar rs)"

lemma hop_outcome_recorded:
  assumes "hop_outcome (recorded env) hm ul policy q used num hist (pending_new r) (jar_after jar rs) (w, rs @ [r])
      = (w', jar', step)"
  shows "\<exists>v. w' = (v, rs @ [r]) \<and>
    (case step of HopDone res \<Rightarrow> jar_ok jar (rs @ [r]) jar' res
     | HopAgain q' num' hist' \<Rightarrow> jar' = jar_after jar (rs @ [r]))"
  using assms
  by (auto simp: hop_outcome_def recorded_def Let_def pending_new_def parts_of_def jar_ok_def
      with_retries_def map_add_twice split: if_splits option.splits sum.splits)

lemma redirect_hop_recorded:
  assumes "cl_retry cl = None"
    and "redirect_hop (recorded env) hm ul sf cl q used num hist (jar_after jar rs) (w, rs) = Some (w', jar', step)"
  shows "\<exists>v rs'. w' = (v, rs') \<and>
    (case step of HopDone res \<Rightarrow> jar_ok jar rs' jar' res
     | HopAgain q' num' hist' \<Rightarrow> jar' = jar_after jar rs')"
  using assms(2)
proof (cases rule: redirect_hop_cases)
  case one_shot
  then show ?thesis by (auto simp: jar_ok_def)
next
  case (failed e)
  obtain v l where v: "w' = (v, l)" by fastforce
  from transport_send_recorded [OF failed(1) [unfolded assms(1) v]] failed v show ?thesis
    by (auto simp: jar_ok_def)
next
  case (answered w1 hop)
  obtain v l where v: "w1 = (v, l)" by fastforce
  from transport_send_recorded [OF answered(1) [unfolded assms(1) v]] obtain r where
    r: "hop = pending_new r" "l = rs @ [r]" by auto
  from hop_outcome_recorded [OF answered(2) [unfolded v r]] show ?thesis by auto
qed

lemma follow_redirects_recorded:
  assumes "cl_retry cl = None"
  shows "follow_redirects (recorded env) hm ul sf cl q used num hist (jar_after jar rs) (w, rs) =
      Some (w', jar', res) \<Longrightarrow> \<exists>v rs'. w' = (v, rs') \<and> jar_ok jar rs' jar' res"
proof (induction "unat (rp_max_redirects (cc_redirects (cl_config cl))) - used"
    arbitrary: q used num hist rs w rule: less_induct)
  case less
  note unfold = less.prems [unfolded
      follow_redirects.simps [of "recorded env" hm ul sf cl q used num hist "jar_after jar rs" "(w, rs)"]]
  then obtain w1 jar1 step where
    hop: "redirect_hop (recorded env) hm ul sf cl q used num hist (jar_after jar rs) (w, rs) =
      Some (w1, jar1, step)"
    by (cases "redirect_hop (recorded env) hm ul sf cl q used num hist (jar_after jar rs) (w, rs)") auto
  from redirect_hop_recorded [OF assms hop] obtain v rs' where
    one: "w1 = (v, rs')" "case step of HopDone res \<Rightarrow> jar_ok jar rs' jar1 res
      | HopAgain q' num' hist' \<Rightarrow> jar1 = jar_after jar rs'" by blast
  show ?case
  proof (cases step)
    case (HopDone r)
    with unfold hop one show ?thesis by auto
  next
    case (HopAgain q' num' hist')
    from redirect_hop_used [OF hop [unfolded HopAgain]] have
      lt: "unat (rp_max_redirects (cc_redirects (cl_config cl))) - (used + 1) <
       unat (rp_max_redirects (cc_redirects (cl_config cl))) - used" by simp
    from less.hyps [OF lt, of q' num' hist' rs' v] unfold hop one HopAgain show ?thesis by simp
  qed
qed


text \<open>When the policy's error is raised, exactly its number of requests has been sent.\<close>

lemma hop_outcome_too_many:
  assumes "hop_outcome env hm ul policy q used num hist hop jar w = (w', jar', HopDone (Inl (TooManyRedirects m)))"
  shows "unat (rp_max_redirects policy) \<le> used + 1 \<and>
    m = ''Exceeded max redirects '' @ show_nat (unat (rp_max_redirects policy))"
  using assms
  by (auto simp: hop_outcome_def Let_def redirect_target_def split: if_splits option.splits sum.splits)

lemma from_reqwest_too_many: "from_reqwest e = TooManyRedirects m \<Longrightarrow> is_redirect_error e"
  by (auto simp: from_reqwest_def Let_def split: if_splits option.splits prod.splits)

lemma redirect_hop_one:
  assumes "cl_retry cl = None"
    and "redirect_hop (counted env) hm ul sf cl q used num hist jar (w, n) = Some ((w', n'), jar', step)"
    and "\<exists>q'' num'' hist''. step = HopAgain q'' num'' hist'' \<or>
      step = HopDone (Inl (TooManyRedirects m)) \<and>
      (\<forall>x v v' e. ne_execute env x v = (v', Inl e) \<longrightarrow> \<not> is_redirect_error e)"
  shows "n' = Suc n \<and> (step = HopDone (Inl (TooManyRedirects m)) \<longrightarrow>
    unat (rp_max_redirects (cc_redirects (cl_config cl))) \<le> used + 1 \<and>
    m = ''Exceeded max redirects '' @ show_nat (unat (rp_max_redirects (cc_redirects (cl_config cl)))))"
  using assms(2)
proof (cases rule: redirect_hop_cases)
  case one_shot
  with assms(2,3) show ?thesis by (auto simp: redirect_hop_def try_clone_def)
next
  case (failed e)
  with assms(1,3) have False
    by (auto simp: transport_send_def counted_def split: prod.splits sum.splits dest!: from_reqwest_too_many)
  then show ?thesis ..
next
  case (answered w1 hop)
  obtain v m' where v: "w1 = (v, m')" by fastforce
  from answered(1) v assms(1) have "m' = Suc n"
    by (auto simp: transport_send_def counted_def split: prod.splits sum.splits)
  with hop_outcome_counted [OF answered(2) [unfolded v]] have "n' = Suc n" by auto
  moreover have "unat (rp_max_redirects (cc_redirects (cl_config cl))) \<le> used + 1 \<and>
      m = ''Exceeded max redirects '' @ show_nat (unat (rp_max_redirects (cc_redirects (cl_config cl))))"
    if "step = HopDone (Inl (TooManyRedirects m))"
    using hop_outcome_too_many [OF answered(2) [unfolded that]] .
  ultimately show ?thesis by blast
qed

lemma follow_redirects_too_many:
  assumes "cl_retry cl = None"
    and "\<forall>x v v' e. ne_execute env x v = (v', Inl e) \<longrightarrow> \<not> is_redirect_error e"
  shows "follow_redirects (counted env) hm ul sf cl q used num hist jar (w, n) =
      Some ((w', n'), jar', Inl (TooManyRedirects m)) \<Longrightarrow>
    n' = n + max 1 (unat (rp_max_redirects (cc_redirects (cl_config cl))) - used) \<and>
    m = ''Exceeded max redirects '' @ show_nat (unat (rp_max_redirects (cc_redirects (cl_config cl))))"
proof (induction "unat (rp_max_redirects (cc_redirects (cl_config cl))) - used"
    arbitrary: q used num hist jar w n rule: less_induct)
  case less
  let ?M = "unat (rp_max_redirects (cc_redirects (cl_config cl)))"
  note unfold = less.prems [unfolded
      follow_redirects.simps [of "counted env" hm ul sf cl q used num hist jar "(w, n)"]]
  then obtain w1 k jar1 step where
    hop: "redirect_hop (counted env) hm ul sf cl q used num hist jar (w, n) = Some ((w1, k), jar1, step)"
    by (cases "redirect_hop (counted env) hm ul sf cl q used num hist jar (w, n)") auto
  show ?case
  proof (cases step)
    case (HopDone r)
    with unfold hop have "k = n'" "step = HopDone (Inl (TooManyRedirects m))" by auto
    with redirect_hop_one [OF assms(1) hop, of m] assms(2) show ?thesis by auto
  next
    case (HopAgain q' num' hist')
    from redirect_hop_used [OF hop [unfolded HopAgain]] have lt: "Suc used < ?M" .
    from redirect_hop_one [OF assms(1) hop, of m] HopAgain have k: "k = Suc n" by blast
    from unfold hop HopAgain k have rec:
      "follow_redirects (counted env) hm ul sf cl q' (used + 1) num' hist' jar1 (w1, Suc n) =
         Some ((w', n'), jar', Inl (TooManyRedirects m))" by simp
    from lt have lt': "?M - (used + 1) < ?M - used" by simp
    from less.hyps [OF lt' rec] lt show ?thesis by auto
  qed
qed

text \<open>A world that gives the responses of a list, for evaluating the definitions.\<close>

definition scripted :: "(('h, 'u) http_response list, 'h, 'u) net_env" where
  "scripted =
     \<lparr>ne_execute = (\<lambda>q w. case w of
        r # rs \<Rightarrow> (rs, Inr r)
      | [] \<Rightarrow> ([], Inl \<lparr>is_timeout = False, is_connect = True, is_redirect_error = False,
          is_body = False, is_decode = False, err_text = [], sources = []\<rparr>)),
      ne_now = (\<lambda>w. (w, 0)), ne_random = (\<lambda>w. (w, Fin 0)), ne_sleep = (\<lambda>d w. w),
      ne_drain = (\<lambda>n w. w)\<rparr>"

definition answer :: "u16 \<Rightarrow> (string \<times> string) list \<Rightarrow> (string \<times> string) list \<Rightarrow>
    ((string \<times> string) list, string \<times> string \<times> u16) http_response" where
  "answer status hs cs =
     \<lparr>hr_status = status, hr_headers = hs, hr_url = (''https'', ''a'', 443), hr_version = ''HTTP/1.1'',
      hr_cookies = cs, hr_body = []\<rparr>"

definition plain_client :: "u32 \<Rightarrow> (string \<times> string \<times> u16) client" where
  "plain_client n =
     \<lparr>cl_retry = None,
      cl_config = client_config_new timeout_default
        \<lparr>rp_follow = True, rp_max_redirects = n, rp_raise_on_exceeded = True\<rparr> None NoAuth\<rparr>"

definition plain_request :: "((string \<times> string) list, string \<times> string \<times> u16) http_request" where
  "plain_request =
     \<lparr>rq_method = ''POST'', rq_url = (''https'', ''a'', 443),
      rq_headers = [(''cookie'', ''c''), (''authorization'', ''z'')], rq_body = Some (Payload [1]),
      rq_timeout = None\<rparr>"



lemma failed_case:
  assumes "case x of Some ((w, n), jar, Inl e) \<Rightarrow> P n e | _ \<Rightarrow> False"
  shows "\<exists>w n jar e. x = Some ((w, n), jar, Inl e) \<and> P n e"
proof (cases x)
  case (Some y)
  obtain w n jar res where "y = ((w, n), jar, res)" by (metis surj_pair)
  with Some assms show ?thesis by (cases res) auto
qed (use assms in auto)



section \<open>Properties\<close>


definition hops_302 :: "((string \<times> string) list, string \<times> string \<times> u16) http_response list" where
  "hops_302 =
     [answer 302 [(''location'', ''b'')] [(''k'', ''1''), (''s'', ''x'')], answer 200 [] [(''k'', ''2'')]]"







lemma client_send_total:
  assumes "retry_safe (cl_retry cl)"
  shows "\<exists>w' jar' res. client_send env hm ul show_float cl q follow jar w = Some (w', jar', res)"
proof -
  obtain w1 t where now: "ne_now env w = (w1, t)" by fastforce
  obtain w2 jar2 res where "(if follow then follow_redirects env hm ul show_float cl q 0 0 [] jar w1
      else map_option (\<lambda>(w2, res). (w2, jar, res))
        (transport_send env hm show_float (cl_retry cl) q w1)) = Some (w2, jar2, res)"
    using follow_redirects_returns [OF assms, of env hm ul show_float q 0 0 "[]" jar w1]
      transport_send_returns [OF assms, of env hm show_float q w1] by (cases follow) auto
  with now show ?thesis
    by (cases res; cases "ne_now env w2") (auto simp: client_send_def Let_def)
qed

text \<open>C23. Sending returns, whether it follows redirects or not, with a response or an error: for a
  transport without retries, or with retries whose waits are durations.\<close>

theorem client_send_returns:
  assumes "retry_safe (cl_retry cl)"
  shows "\<exists>w' jar' res. client_send env hm ul show_float cl q follow jar w = Some (w', jar', res)"
  using assms by (rule client_send_total)

theorem client_send_returns_witness:
  "\<exists>w' jar' res. client_send scripted assoc_headers plain_urls (\<lambda>_. []) (plain_client 5) plain_request
     True Map.empty hops_302 = Some (w', jar', res)"
  by (rule client_send_returns) (simp add: plain_client_def retry_safe_def)

text \<open>C22. Without retries, the jar after a request holds the cookies of every response the chain
  received, in the order received, the later of two values winning: also of the hops before an
  error, and of the response returned.\<close>

theorem jar_has_every_hop:
  assumes "cl_retry cl = None"
    and "client_send (recorded env) hm ul show_float cl q follow jar (w, []) = Some ((w', rs), jar', res)"
  shows "jar' = jar_after jar rs"
proof -
  obtain w1 t where now: "ne_now (recorded env) (w, []) = ((w1, []), t)" by (metis recorded_now surj_pair)
  obtain w2 rs2 jar2 res2 where
    sent: "(if follow then follow_redirects (recorded env) hm ul show_float cl q 0 0 [] jar (w1, [])
      else map_option (\<lambda>(w2, res). (w2, jar, res))
        (transport_send (recorded env) hm show_float (cl_retry cl) q (w1, []))) = Some ((w2, rs2), jar2, res2)"
    using assms(2) now by (auto simp: client_send_def split: option.splits)
  have ok: "jar_ok jar rs2 jar2 res2"
  proof (cases follow)
    case True
    with sent follow_redirects_recorded [OF assms(1), of env hm ul show_float q 0 0 "[]" jar "[]" w1]
    show ?thesis by auto
  next
    case False
    with sent assms(1) transport_send_recorded [of env hm show_float q w1 "[]" w2 rs2 res2] show ?thesis
      by (auto simp: jar_ok_def pending_new_def parts_of_def jar_after_def)
  qed
  obtain w3 t3 where now3: "ne_now (recorded env) (w2, rs2) = ((w3, rs2), t3)"
    by (metis recorded_now surj_pair)
  show ?thesis
    using assms(2) ok unfolding client_send_def now prod.case sent
    by (cases res2) (auto simp: now3 Let_def jar_ok_def)
qed

lemma run_recorded:
  "case client_send (recorded scripted) assoc_headers plain_urls (\<lambda>_. []) (plain_client 5) plain_request
      True Map.empty (hops_302, []) of
     Some ((w, rs), jar, res) \<Rightarrow> map hr_cookies rs = map hr_cookies hops_302 | None \<Rightarrow> False"
  by code_simp

theorem jar_has_every_hop_witness:
  "\<exists>w' rs jar' res. client_send (recorded scripted) assoc_headers plain_urls (\<lambda>_. []) (plain_client 5)
     plain_request True Map.empty (hops_302, []) = Some ((w', rs), jar', res) \<and>
     jar' ''k'' = Some ''2'' \<and> jar' ''s'' = Some ''x''"
proof -
  obtain w' rs jar' res where
    run: "client_send (recorded scripted) assoc_headers plain_urls (\<lambda>_. []) (plain_client 5)
      plain_request True Map.empty (hops_302, []) = Some ((w', rs), jar', res)"
    and rs: "map hr_cookies rs = map hr_cookies hops_302"
    using run_recorded by (auto split: option.splits)
  have "jar' = jar_after Map.empty rs"
    by (rule jar_has_every_hop [OF _ run]) (simp add: plain_client_def)
  moreover obtain r1 r2 where "rs = [r1, r2]" "hr_cookies r1 = [(''k'', ''1''), (''s'', ''x'')]"
    "hr_cookies r2 = [(''k'', ''2'')]"
    using rs by (auto simp: hops_302_def answer_def)
  ultimately show ?thesis using run by (simp add: jar_after_def)
qed

text \<open>\<^verbatim>\<open>Exceeded max redirects N\<close> is raised after exactly \<open>N\<close> requests, that is
  after following \<open>N - 1\<close> redirects: with \<^verbatim>\<open>max_redirects=1\<close> no redirect is followed at
  all.  (For a transport without retries, which never follows redirects of its own.)\<close>

theorem too_many_redirects_count:
  assumes "cl_retry cl = None"
    and "\<forall>x v v' e. ne_execute env x v = (v', Inl e) \<longrightarrow> \<not> is_redirect_error e"
    and "follow_redirects (counted env) hm ul show_float cl q 0 0 [] jar (w, 0) =
      Some ((w', sent), jar', Inl (TooManyRedirects m))"
  shows "sent = max 1 (unat (rp_max_redirects (cc_redirects (cl_config cl)))) \<and>
    m = ''Exceeded max redirects '' @ show_nat (unat (rp_max_redirects (cc_redirects (cl_config cl))))"
  using follow_redirects_too_many [OF assms(1,2) assms(3)] by simp

lemma run_too_many:
  "case follow_redirects (counted scripted) assoc_headers plain_urls (\<lambda>_. []) (plain_client 1) plain_request
      0 0 [] Map.empty (hops_302, 0) of
     Some ((w, n), jar, Inl e) \<Rightarrow> (case e of TooManyRedirects m \<Rightarrow> True | _ \<Rightarrow> False) | _ \<Rightarrow> False"
  by code_simp

theorem too_many_redirects_count_witness:
  "\<exists>w' jar'. follow_redirects (counted scripted) assoc_headers plain_urls (\<lambda>_. []) (plain_client 1)
     plain_request 0 0 [] Map.empty (hops_302, 0) =
     Some ((w', 1), jar', Inl (TooManyRedirects ''Exceeded max redirects 1''))"
proof -
  obtain w' n jar' e where
    start: "follow_redirects (counted scripted) assoc_headers plain_urls (\<lambda>_. []) (plain_client 1)
      plain_request 0 0 [] Map.empty (hops_302, 0) = Some ((w', n), jar', Inl e)"
    and e: "case e of TooManyRedirects m \<Rightarrow> True | _ \<Rightarrow> False"
    using failed_case [OF run_too_many] by blast
  from e obtain m where "e = TooManyRedirects m" by (cases e) auto
  with start have run: "follow_redirects (counted scripted) assoc_headers plain_urls (\<lambda>_. [])
    (plain_client 1) plain_request 0 0 [] Map.empty (hops_302, 0) =
    Some ((w', n), jar', Inl (TooManyRedirects m))" by simp
  have "n = 1 \<and> m = ''Exceeded max redirects '' @ show_nat 1"
    using too_many_redirects_count [OF _ _ run]
    by (simp add: plain_client_def client_config_new_def scripted_def split: list.splits)
  moreover have "show_nat 1 = ''1''" by code_simp
  ultimately show ?thesis using run by auto
qed

text \<open>With redirects followed, a 3xx response without a \<^verbatim>\<open>Location\<close> header is an error,
  though the response itself says it is no redirect: a \<^verbatim>\<open>304 Not Modified\<close> raises
  \<^verbatim>\<open>RemoteProtocolError\<close>.  Without following, the same response is returned.\<close>

theorem not_modified_raises:
  assumes "header_map_ok hm" and "cl_retry cl = None" and "rq_body q \<noteq> Some OneShot"
    and "\<forall>v. ne_execute env q v = (f v, Inr resp)"
    and "300 \<le> hr_status resp" and "hr_status resp < 400"
    and "\<not> headers_contains hm ''location'' (hr_headers resp)"
    and "1 < unat (rp_max_redirects (cc_redirects (cl_config cl)))"
  shows "\<not> is_redirect hm (parts_of resp) \<and>
    (\<exists>w' jar'. client_send env hm ul show_float cl q True jar w =
       Some (w', jar', Inl (RemoteProtocolError ''3xx response missing Location header''))) \<and>
    (\<exists>w' jar' p. client_send env hm ul show_float cl q False jar w = Some (w', jar', Inr p) \<and>
       status_code (parts p) = hr_status resp)"
proof -
  obtain w1 t where now: "ne_now env w = (w1, t)" by fastforce
  have "get_first hm ''location'' (hr_headers resp) = None"
    using assms(7) by (simp add: headers_contains_def get_first_def header_map_laws(3,4) [OF assms(1)])
  then have hop: "redirect_hop env hm ul show_float cl q 0 0 [] jar w1 =
      Some (f w1, jar ++ map_of (rev (hr_cookies resp)),
        HopDone (Inl (RemoteProtocolError ''3xx response missing Location header'')))"
    using assms(2-6,8) by (simp add: redirect_hop_def try_clone_def transport_send_def
        hop_outcome_def Let_def pending_new_def parts_of_def)
  have "\<not> is_redirect hm (parts_of resp)"
    using assms(7) by (simp add: is_redirect_def parts_of_def)
  moreover have "client_send env hm ul show_float cl q True jar w =
      Some (f w1, jar ++ map_of (rev (hr_cookies resp)),
        Inl (RemoteProtocolError ''3xx response missing Location header''))"
    using now hop by (simp add: client_send_def follow_redirects.simps [of env hm ul show_float cl q])
  moreover have "\<exists>w' jar' p. client_send env hm ul show_float cl q False jar w = Some (w', jar', Inr p) \<and>
      status_code (parts p) = hr_status resp"
    using now assms(2,4) by (auto simp: client_send_def transport_send_def Let_def pending_new_def
        parts_of_def split: prod.splits)
  ultimately show ?thesis by blast
qed

definition always :: "('h, 'u) http_response \<Rightarrow> (unit, 'h, 'u) net_env" where
  "always r =
     \<lparr>ne_execute = (\<lambda>q w. (w, Inr r)), ne_now = (\<lambda>w. (w, 0)), ne_random = (\<lambda>w. (w, Fin 0)),
      ne_sleep = (\<lambda>d w. w), ne_drain = (\<lambda>n w. w)\<rparr>"

theorem not_modified_raises_witness:
  "\<exists>w' jar'. client_send (always (answer 304 [] [])) assoc_headers plain_urls (\<lambda>_. []) (plain_client 5)
     plain_request True Map.empty () =
     Some (w', jar', Inl (RemoteProtocolError ''3xx response missing Location header''))"
proof -
  have "\<not> headers_contains assoc_headers ''location'' (hr_headers (answer 304 [] []))"
    by code_simp
  then show ?thesis
    using not_modified_raises [OF assoc_headers_ok, of "plain_client 5" plain_request
        "always (answer 304 [] [])" id "answer 304 [] []" plain_urls "\<lambda>_. []" Map.empty "()"]
    by (simp add: plain_client_def plain_request_def client_config_new_def always_def answer_def)
qed

text \<open>Building a request panics instead of raising exactly when its URL is good and its timeout
  -- the request's own or the client's -- is not a number of seconds a \<^verbatim>\<open>Duration\<close> holds: negative,
  NaN, infinite or too large.\<close>

theorem build_panics:
  "client_build ul il form_serialize rb cl q = None \<longleftrightarrow>
    (\<exists>u. merge_url ul il cl (q_url q) = Inr u \<and> u_scheme ul u \<in> {''http'', ''https''}) \<and>
    \<not> (\<exists>x. unwrap_or (q_timeout q) (timeout_secs cl) = Fin x \<and> 0 \<le> x \<and> x < 2 ^ 64)"
  by (cases "unwrap_or (q_timeout q) (timeout_secs cl)")
     (auto simp: client_build_def Let_def split: sum.splits)

text \<open>What \<^verbatim>\<open>Url::join\<close> does with an input that is itself an http or https URL: the base plays no part.\<close>

definition join_absolute_law :: "'u url_lib \<Rightarrow> bool" where
  "join_absolute_law ul \<longleftrightarrow>
     (\<forall>base s u. (starts_with ''http://'' s \<or> starts_with ''https://'' s) \<and> u_parse ul s = Inr u \<longrightarrow>
        u_join ul base s = Inr u)"

lemma trim_start_url:
  assumes "starts_with ''http://'' s \<or> starts_with ''https://'' s"
  shows "trim_start ''/'' (CHR ''/'' # s) = s"
proof -
  from assms obtain r where r: "s = CHR ''h'' # r"
    by (cases s) (auto simp: starts_with_def)
  have "trim_start ''/'' (CHR ''/'' # s) = trim_start ''/'' s"
    by (subst trim_start.simps) (simp add: starts_with_def)
  also have "\<dots> = s"
    by (subst trim_start.simps) (simp add: starts_with_def r)
  finally show ?thesis .
qed

text \<open>C37. A relative reference whose path is a slash and then an absolute URL leaves the base URL:
  with \<^verbatim>\<open>base_url\<close> set, a request for \<open>/http://other/\<close> goes to the other host, and with the
  client's credentials.\<close>

theorem base_url_escape:
  assumes "join_absolute_law ul"
    and "starts_with ''http://'' target \<or> starts_with ''https://'' target"
    and "u_parse ul target = Inr other" and "u_scheme ul other \<in> {''http'', ''https''}"
    and "cc_base_url (cl_config cl) = Some base"
    and "raw_path ul il (Relative r) = CHR ''/'' # target"
    and "unwrap_or t (timeout_secs cl) = Fin x" and "0 \<le> x" and "x < 2 ^ 64"
  shows "merge_url ul il cl (Relative r) = Inr other \<and>
    client_build ul il form_serialize rb cl
      \<lparr>q_method = m, q_url = Relative r, q_params = None, q_headers = None, q_body = EmptyBody,
       q_auth = None, q_timeout = t, q_follow_redirects = None\<rparr> =
      Some (map_sum from_reqwest id (rb_build rb (rb_timeout rb x
        (apply_auth rb (cc_auth (cl_config cl)) (rb_new rb m other)))))"
proof -
  have "u_join ul base (trim_start ''/'' (raw_path ul il (Relative r))) = Inr other"
    using assms(1-3) unfolding assms(6) trim_start_url [OF assms(2)] join_absolute_law_def by blast
  then have merged: "merge_url ul il cl (Relative r) = Inr other"
    by (simp add: merge_url_def base_url_join_def assms(5))
  with assms(4,7-9) show ?thesis
    by (auto simp: client_build_def Let_def apply_params_def apply_body_def unwrap_or_def)
qed

definition two_hosts :: "(string \<times> string \<times> u16) url_lib" where
  "two_hosts =
     (let parse = (\<lambda>s. if s = ''http://evil/x'' then Inr (''http'', ''evil'', 80) else Inl RelativeUrlWithoutBase)
      in plain_urls\<lparr>u_parse := parse,
        u_join := (\<lambda>u s. case parse s of Inr v \<Rightarrow> Inr v | Inl _ \<Rightarrow> Inr u)\<rparr>)"

definition string_refs :: "string iri_lib" where
  "string_refs =
     \<lparr>r_new = Inr, r_str = id, r_authority = (\<lambda>_. None), r_authority_str = (\<lambda>_. None), r_path = id,
      r_query = (\<lambda>_. None), r_fragment = (\<lambda>_. None), enc_path = id, enc_query = id, enc_fragment = id,
      mask_password = (\<lambda>_. None), domain_to_unicode = (\<lambda>_. None), percent_decode_lossy = id\<rparr>"

theorem base_url_escape_witness:
  "merge_url two_hosts string_refs
     \<lparr>cl_retry = None, cl_config = client_config_new timeout_default redirect_policy_default
        (Some (''https'', ''api'', 443)) (Bearer ''secret'')\<rparr>
     (Relative ''/http://evil/x'') = Inr (''http'', ''evil'', 80)"
proof -
  have "join_absolute_law two_hosts"
    by (auto simp: join_absolute_law_def two_hosts_def Let_def split: if_splits)
  moreover have "raw_path two_hosts string_refs (Relative ''/http://evil/x'') = CHR ''/'' # ''http://evil/x''"
    by (simp add: raw_path_def encoded_path_or_root_def encoded_path_def url_query_def string_refs_def or_empty_def)
  moreover have "u_parse two_hosts ''http://evil/x'' = Inr (''http'', ''evil'', 80)"
    "u_scheme two_hosts (''http'', ''evil'', 80) \<in> {''http'', ''https''}"
    by (simp_all add: two_hosts_def Let_def plain_urls_def)
  moreover have "starts_with ''http://'' ''http://evil/x''" by (simp add: starts_with_def)
  moreover have "unwrap_or (Some (Fin 1)) (timeout_secs cl) = Fin 1" for cl :: "(string \<times> string \<times> u16) client"
    by (simp add: unwrap_or_def)
  ultimately show ?thesis
    by (intro base_url_escape [where t = "Some (Fin 1)" and x = 1, THEN conjunct1])
       (auto simp: client_config_new_def)
qed

section \<open>What a request raises\<close>

lemma redirect_hop_errors:
  "redirect_hop env hm ul sf cl q used num hist jar w = Some (w', jar', HopDone (Inl e)) \<Longrightarrow> http_error e"
  by (auto simp: redirect_hop_def hop_outcome_def redirect_target_def Let_def
      split: option.splits sum.splits if_splits dest: transport_send_errors)

lemma follow_redirects_errors:
  "follow_redirects env hm ul sf cl q used num hist jar w = Some (w', jar', Inl e) \<Longrightarrow> http_error e"
proof (induction env hm ul sf cl q used num hist jar w rule: follow_redirects.induct)
  case (1 env hm ul sf cl q used num hist jar w)
  from 1(2) [unfolded follow_redirects.simps [of env hm ul sf cl q]] show ?case
    using 1(1) by (auto split: option.splits hop_result.splits dest: redirect_hop_errors)
qed

lemma client_send_errors:
  "client_send env hm ul sf cl q follow jar w = Some (w', jar', Inl e) \<Longrightarrow> http_error e"
  by (auto simp: client_send_def Let_def split: option.splits prod.splits sum.splits if_splits
      dest: follow_redirects_errors transport_send_errors)

lemma merge_url_errors:
  "merge_url ul il cl x = Inl e \<Longrightarrow> \<not> http_error e \<Longrightarrow>
     \<exists>base. cc_base_url (cl_config cl) = Some base \<and> base_url_join ul il base x = Inl e"
  by (auto simp: merge_url_def split: option.splits url_reference.splits if_splits)

lemma base_url_join_class:
  "base_url_join ul il base x = Inl e \<Longrightarrow> exc_class (py_core e) = CInvalidURL"
  by (auto simp: base_url_join_def split: sum.splits)

lemma client_build_errors:
  assumes "client_build ul il f rb cl q = Some (Inl e)"
  shows "http_error e \<or> merge_url ul il cl (q_url q) = Inl e"
proof (cases "merge_url ul il cl (q_url q)")
  case (Inr u)
  from assms Inr show ?thesis by (auto simp: client_build_def Let_def split: if_splits option.splits dest: reqwest_sum_error)
qed (use assms in \<open>simp add: client_build_def\<close>)

text \<open>C36. Whatever goes wrong with a request, from building it to reading its body, is raised as an
  \<^verbatim>\<open>rqx.HTTPError\<close>, so \<^verbatim>\<open>except rqx.HTTPError\<close> catches it: retries exhausted, too many
  redirects, a bad \<^verbatim>\<open>Location\<close>, a transport failure.  The one exception is an
  \<^verbatim>\<open>rqx.InvalidURL\<close> from joining the request's URL to the client's \<^verbatim>\<open>base_url\<close>, and then nothing
  has been sent.\<close>

theorem request_error_class:
  assumes "client_request env hm ul il form_serialize rb show_float cl q jar w = Some (w', jar', Inl e)"
  shows "issubclass (exc_class (py_core e)) CHTTPError \<or>
    w' = w \<and> jar' = jar \<and> exc_class (py_core e) = CInvalidURL \<and>
    (\<exists>base. cc_base_url (cl_config cl) = Some base \<and> base_url_join ul il base (q_url q) = Inl e)"
proof (cases "client_build ul il form_serialize rb cl q")
  case (Some built)
  show ?thesis
  proof (cases built)
    case (Inl e')
    with assms Some have "e' = e" "w' = w" "jar' = jar" by (simp_all add: client_request_def)
    with client_build_errors [of ul il form_serialize rb cl q e] Some Inl show ?thesis
      using merge_url_errors [of ul il cl "q_url q" e] base_url_join_class [of ul il]
      by (auto simp: http_error_def)
  next
    case (Inr b)
    with assms Some have "http_error e"
      by (auto simp: client_request_def pending_read_def split: option.splits prod.splits sum.splits
          dest: client_send_errors)
    then show ?thesis by (simp add: http_error_def)
  qed
qed (use assms in \<open>simp add: client_request_def\<close>)

definition plain_builder ::
  "(((string \<times> string) list, string \<times> string \<times> u16) http_request,
    (string \<times> string) list, string \<times> string \<times> u16) request_lib" where
  "plain_builder =
     \<lparr>rb_new = (\<lambda>m u. \<lparr>rq_method = m, rq_url = u, rq_headers = [], rq_body = None, rq_timeout = None\<rparr>),
      rb_headers = (\<lambda>h b. b\<lparr>rq_headers := rq_headers b @ h\<rparr>),
      rb_basic_auth = (\<lambda>u p b. b\<lparr>rq_headers := rq_headers b @ [(''authorization'', u @ '':'' @ p)]\<rparr>),
      rb_bearer_auth = (\<lambda>t b. b\<lparr>rq_headers := rq_headers b @ [(''authorization'', t)]\<rparr>),
      rb_body = (\<lambda>c b. b\<lparr>rq_body := Some (Payload c)\<rparr>), rb_form = (\<lambda>f b. b), rb_json = (\<lambda>j b. b),
      rb_timeout = (\<lambda>d b. b\<lparr>rq_timeout := Some d\<rparr>), rb_build = Inr\<rparr>"

lemma run_unanswered:
  "case client_request scripted assoc_headers plain_urls string_refs (\<lambda>_. []) plain_builder (\<lambda>_. [])
     (plain_client 5)
     \<lparr>q_method = ''GET'', q_url = Absolute (''https'', ''a'', 443), q_params = None, q_headers = None,
      q_body = EmptyBody, q_auth = None, q_timeout = None, q_follow_redirects = None\<rparr> Map.empty [] of
     Some (w, jar, Inl e) \<Rightarrow> True | _ \<Rightarrow> False"
  by code_simp

theorem request_error_class_witness:
  "\<exists>w' jar' e. client_request scripted assoc_headers plain_urls string_refs (\<lambda>_. []) plain_builder (\<lambda>_. [])
     (plain_client 5)
     \<lparr>q_method = ''GET'', q_url = Absolute (''https'', ''a'', 443), q_params = None, q_headers = None,
      q_body = EmptyBody, q_auth = None, q_timeout = None, q_follow_redirects = None\<rparr> Map.empty [] =
     Some (w', jar', Inl e) \<and> issubclass (exc_class (py_core e)) CHTTPError"
proof -
  obtain w' jar' e where run: "client_request scripted assoc_headers plain_urls string_refs (\<lambda>_. [])
      plain_builder (\<lambda>_. []) (plain_client 5)
      \<lparr>q_method = ''GET'', q_url = Absolute (''https'', ''a'', 443), q_params = None, q_headers = None,
       q_body = EmptyBody, q_auth = None, q_timeout = None, q_follow_redirects = None\<rparr> Map.empty [] =
      Some (w', jar', Inl e)"
    using run_unanswered by (auto split: option.split_asm sum.split_asm) (metis obj_sumE)
  have "cc_base_url (cl_config (plain_client 5)) = None"
    by (simp add: plain_client_def client_config_new_def)
  with run request_error_class [OF run] show ?thesis by auto
qed

end
