(* ===== verification/Rqx_Context.thy ===== *)
theory Rqx_Context
  imports Rqx_Client
begin

text \<open>
  The Python clients and stream contexts: \<^verbatim>\<open>rqx/src/client.rs\<close>,
  \<^verbatim>\<open>rqx-core/src/streaming/context.rs\<close> and \<^verbatim>\<open>rqx/src/stream_context.rs\<close>.

  Arguments are what PyO3 has extracted from the call (the extractors are in \<open>Rqx_Headers\<close>,
  \<open>Rqx_Query\<close>, \<open>Rqx_Json\<close> and \<open>Rqx_Transport\<close>).  \<open>rt\<close> is the failure of the runtime
  itself, if it fails, as in \<open>Rqx_Stream\<close>.
\<close>

text \<open>Everything outside the program that a call uses.\<close>

record ('w, 'b, 'h, 'v, 'u, 'r) libs =
  lib_net :: "('w, 'h, 'u) net_env"
  lib_headers :: "('h, 'v) header_map"
  lib_url :: "'u url_lib"
  lib_iri :: "'r iri_lib"
  lib_form :: "pairs \<Rightarrow> string"
  lib_request :: "('b, 'h, 'u) request_lib"
  lib_float :: "fl \<Rightarrow> string"
  lib_method :: "string \<Rightarrow> string + string"


section \<open>Constructing a client\<close>

record transport =
  tr_retry :: "retry option"
  tr_permits :: "nat option"

text \<open>\<open>build\<close> is \<^verbatim>\<open>ClientBuilder::build\<close>; \<open>None\<close> is a panic over a timeout.\<close>

definition transport_new ::
  "(('c, 'i, 'p) client_builder \<Rightarrow> reqwest_error + unit) \<Rightarrow> ('c, 'i, 'p) transport_config \<Rightarrow>
     (rqx_error + transport) option" where
  "transport_new build c =
     map_option
       (\<lambda>b. case build b of
          Inl e \<Rightarrow> Inl (from_reqwest e)
        | Inr _ \<Rightarrow> Inr \<lparr>tr_retry = tc_retry c, tr_permits = transport_semaphore (tc_pool c)\<rparr>)
       (builder_from c)"

definition client_new :: "transport \<Rightarrow> 'u client_config \<Rightarrow> 'u client" where
  "client_new t cfg = \<lparr>cl_retry = tr_retry t, cl_config = cfg\<rparr>"

record ('u, 'r) client_args =
  na_verify :: "verify_arg option"
  na_cert :: "cert_arg option"
  na_timeout :: "timeout_arg option"
  na_follow_redirects :: "bool option"
  na_max_redirects :: "u32 option"
  na_base_url :: "('u, 'r) url_reference option"
  na_auth_bearer :: "string option"
  na_transport :: "transport option"
  na_redirects :: "redirect_policy option"

definition client_config_from ::
  "'u url_lib \<Rightarrow> 'r iri_lib \<Rightarrow> ('u, 'r) client_args \<Rightarrow> py_rqx_error + 'u client_config" where
  "client_config_from ul il a =
     (case (case na_base_url a of None \<Rightarrow> Inr None
            | Some x \<Rightarrow> map_sum Core Some (base_url_new ul il x)) of
        Inl e \<Rightarrow> Inl e
      | Inr base \<Rightarrow>
          (case valid_policy_from_options (na_follow_redirects a) (na_max_redirects a) (na_redirects a) of
             Inl e \<Rightarrow> Inl e
           | Inr policy \<Rightarrow>
               (case auth_new None (na_auth_bearer a) of
                  Inl e \<Rightarrow> Inl (Core e)
                | Inr au \<Rightarrow>
                    Inr (client_config_new
                      (unwrap_or (map_option timeout_from_arg (na_timeout a)) timeout_default)
                      policy base au))))"

definition default_transport_args :: transport_args where
  "default_transport_args =
     \<lparr>ta_max_connections = None, ta_max_keepalive = None, ta_keepalive_expiry = None, ta_http1 = None,
      ta_http2 = None, ta_verify = None, ta_cert = None, ta_proxy = None, ta_timeout = None,
      ta_retries = None\<rparr>"

definition py_client_new ::
  "('c, 'i, 'p) tls_lib \<Rightarrow> (('c, 'i, 'p) client_builder \<Rightarrow> reqwest_error + unit) \<Rightarrow> 'u url_lib \<Rightarrow>
     'r iri_lib \<Rightarrow> ('u, 'r) client_args \<Rightarrow> (py_rqx_error + 'u client) option" where
  "py_client_new lib build ul il a =
     (case client_config_from ul il a of
        Inl e \<Rightarrow> Some (Inl e)
      | Inr cfg \<Rightarrow>
          if na_transport a \<noteq> None \<and> (na_verify a \<noteq> None \<or> na_cert a \<noteq> None \<or> na_timeout a \<noteq> None) then
            Some (Inl (Py (new_err CRqxError
              ''Cannot specify both transport= and cert=/verify=/timeout=; pass options through one or the other'')))
          else
            (case na_transport a of
               Some t \<Rightarrow> Some (Inr (client_new t cfg))
             | None \<Rightarrow>
                 (case transport_config_from lib (default_transport_args\<lparr>ta_verify := na_verify a,
                     ta_cert := na_cert a, ta_timeout := map_option timeout_from_arg (na_timeout a)\<rparr>) of
                    Inl e \<Rightarrow> Some (Inl e)
                  | Inr tc \<Rightarrow>
                      map_option (\<lambda>r. case r of Inl e \<Rightarrow> Inl (Core e) | Inr t \<Rightarrow> Inr (client_new t cfg))
                        (transport_new build tc))))"

text \<open>\<^verbatim>\<open>PyAsyncClient::__new__\<close> does the same with an \<^verbatim>\<open>AsyncHTTPTransport\<close>.\<close>

definition py_async_client_new where
  "py_async_client_new lib build ul il a = py_client_new lib build ul il a"


section \<open>Requests\<close>

record 'h call_args =
  a_content :: "bytes option"
  a_data :: "(string \<times> string) list option"
  a_json :: "json option"
  a_params :: "pairs option"
  a_headers :: "'h option"
  a_auth :: "(string \<times> string) option"
  a_auth_bearer :: "string option"
  a_follow_redirects :: "bool option"
  a_timeout :: "timeout_arg option"

definition request_from_args ::
  "(string \<Rightarrow> string + string) \<Rightarrow> string \<Rightarrow> ('u, 'r) url_reference \<Rightarrow> 'h call_args \<Rightarrow>
     rqx_error + ('h, 'u, 'r) request" where
  "request_from_args method_of method u a =
     (let timeout = Option.bind (map_option timeout_from_arg (a_timeout a)) per_request_total in
      case (if a_auth a = None \<and> a_auth_bearer a = None then Inr None
            else map_sum id Some (auth_new (a_auth a) (a_auth_bearer a))) of
        Inl e \<Rightarrow> Inl e
      | Inr au \<Rightarrow>
          (case request_body_new (a_content a) (a_data a) (a_json a) of
             Inl e \<Rightarrow> Inl e
           | Inr body \<Rightarrow>
               request_new method_of method u (a_params a) (a_headers a) body au timeout
                 (a_follow_redirects a)))"

text \<open>The world and the jar, as one state.\<close>

definition on_pair ::
  "('w \<times> 'j \<times> 'a) option \<Rightarrow> (('w \<times> 'j) \<times> 'a) option" where
  "on_pair x = map_option (\<lambda>(w, j, r). ((w, j), r)) x"

definition block_on_inner ::
  "py_err option \<Rightarrow> ('s \<Rightarrow> ('s \<times> (rqx_error + 'a)) option) \<Rightarrow> 's \<Rightarrow>
     ('s \<times> (py_rqx_error + 'a)) option" where
  "block_on_inner rt fut s =
     (case rt of
        Some e \<Rightarrow> Some (s, Inl (Py e))
      | None \<Rightarrow> map_option (\<lambda>(s', r). (s', map_sum Core id r)) (fut s))"

definition send_request ::
  "('w, 'b, 'h, 'v, 'u, 'r) libs \<Rightarrow> 'u client \<Rightarrow> ('h, 'u, 'r) request \<Rightarrow> 'w \<times> cookies \<Rightarrow>
     (('w \<times> cookies) \<times> (rqx_error + ('h, 'u) buffered)) option" where
  "send_request L cl q s =
     (case s of (w, jar) \<Rightarrow>
        on_pair (client_request (lib_net L) (lib_headers L) (lib_url L) (lib_iri L) (lib_form L)
          (lib_request L) (lib_float L) cl q jar w))"

definition py_request ::
  "('w, 'b, 'h, 'v, 'u, 'r) libs \<Rightarrow> py_err option \<Rightarrow> 'u client \<Rightarrow> string \<Rightarrow> ('u, 'r) url_reference \<Rightarrow>
     'h call_args \<Rightarrow> 'w \<times> cookies \<Rightarrow>
     (('w \<times> cookies) \<times> (py_rqx_error + ('h, 'u) py_response)) option" where
  "py_request L rt cl method u a s =
     (case request_from_args (lib_method L) method u a of
        Inl e \<Rightarrow> Some (s, Inl (Core e))
      | Inr q \<Rightarrow>
          map_option (\<lambda>(s', r). (s', map_sum id py_response_from r))
            (block_on_inner rt (send_request L cl q) s))"

text \<open>A call of the asynchronous client: an error at once, or the future that does the work.\<close>

type_synonym ('s, 'a) future = "'s \<Rightarrow> ('s \<times> (py_err + 'a)) option"

text \<open>\<^verbatim>\<open>Runtime::future_into_py\<close> and \<^verbatim>\<open>with_py_errors\<close>.\<close>

definition future_into_py ::
  "py_err option \<Rightarrow> ('s \<Rightarrow> ('s \<times> (py_rqx_error + 'a)) option) \<Rightarrow> py_err + ('s, 'a) future" where
  "future_into_py rt fut =
     (case rt of
        Some e \<Rightarrow> Inl e
      | None \<Rightarrow> Inr (\<lambda>s. map_option (\<lambda>(s', r). (s', map_sum into_py_err id r)) (fut s)))"

definition async_request ::
  "('w, 'b, 'h, 'v, 'u, 'r) libs \<Rightarrow> py_err option \<Rightarrow> 'u client \<Rightarrow> string \<Rightarrow> ('u, 'r) url_reference \<Rightarrow>
     'h call_args \<Rightarrow> py_err + ('w \<times> cookies, ('h, 'u) py_response) future" where
  "async_request L rt cl method u a =
     (case request_from_args (lib_method L) method u a of
        Inl e \<Rightarrow> Inl (into_py_err (Core e))
      | Inr q \<Rightarrow>
          future_into_py rt
            (\<lambda>s. map_option (\<lambda>(s', r). (s', map_sum Core py_response_from r)) (send_request L cl q s)))"

text \<open>The verbs: those without a body take no \<open>content\<close>, \<open>data\<close> or \<open>json\<close>.\<close>

definition no_body :: "'h call_args \<Rightarrow> 'h call_args" where
  "no_body a = a\<lparr>a_content := None, a_data := None, a_json := None\<rparr>"

definition py_get where "py_get L rt cl u a = py_request L rt cl ''GET'' u (no_body a)"
definition py_options where "py_options L rt cl u a = py_request L rt cl ''OPTIONS'' u (no_body a)"
definition py_head where "py_head L rt cl u a = py_request L rt cl ''HEAD'' u (no_body a)"
definition py_delete where "py_delete L rt cl u a = py_request L rt cl ''DELETE'' u (no_body a)"
definition py_post where "py_post L rt cl u a = py_request L rt cl ''POST'' u a"
definition py_put where "py_put L rt cl u a = py_request L rt cl ''PUT'' u a"
definition py_patch where "py_patch L rt cl u a = py_request L rt cl ''PATCH'' u a"

definition async_get where "async_get L rt cl u a = async_request L rt cl ''GET'' u (no_body a)"
definition async_options where "async_options L rt cl u a = async_request L rt cl ''OPTIONS'' u (no_body a)"
definition async_head where "async_head L rt cl u a = async_request L rt cl ''HEAD'' u (no_body a)"
definition async_delete where "async_delete L rt cl u a = async_request L rt cl ''DELETE'' u (no_body a)"
definition async_post where "async_post L rt cl u a = async_request L rt cl ''POST'' u a"
definition async_put where "async_put L rt cl u a = async_request L rt cl ''PUT'' u a"
definition async_patch where "async_patch L rt cl u a = async_request L rt cl ''PATCH'' u a"


section \<open>Streams\<close>

record ('h, 'u) unsent =
  un_client :: "'u client"
  un_request :: "('h, 'u) http_request"
  un_follow :: bool

definition client_stream ::
  "('w, 'b, 'h, 'v, 'u, 'r) libs \<Rightarrow> 'u client \<Rightarrow> ('h, 'u, 'r) request \<Rightarrow>
     (rqx_error + ('h, 'u) unsent) option" where
  "client_stream L cl q =
     map_option (map_sum id (\<lambda>built. \<lparr>un_client = cl, un_request = built, un_follow = follows cl q\<rparr>))
       (client_build (lib_url L) (lib_iri L) (lib_form L) (lib_request L) cl q)"

text \<open>\<^verbatim>\<open>Unsent::take\<close>: the slot is empty afterwards.\<close>

definition unsent_take :: "'a option \<Rightarrow> 'a option \<times> (rqx_error + 'a)" where
  "unsent_take cell =
     (None,
      case cell of
        Some u \<Rightarrow> Inr u
      | None \<Rightarrow> Inl (StreamError ''stream already started; call stream() again for a new request''))"

definition unsent_send ::
  "('w, 'b, 'h, 'v, 'u, 'r) libs \<Rightarrow> ('h, 'u) unsent \<Rightarrow> 'w \<times> cookies \<Rightarrow>
     (('w \<times> cookies) \<times> (rqx_error + ('h, 'u) pending)) option" where
  "unsent_send L un s =
     (case s of (w, jar) \<Rightarrow>
        on_pair (client_send (lib_net L) (lib_headers L) (lib_url L) (lib_float L) (un_client un)
          (un_request un) (un_follow un) jar w))"

text \<open>
  The response of a context is a Python object that the block holds as well, so the contexts keep
  an index into the responses created.
\<close>

record ('h, 'u) stream_context =
  ctx_unsent :: "('h, 'u) unsent option"
  ctx_response :: "nat option"

record ('w, 'h, 'u) py_world =
  pw_state :: "'w \<times> cookies"
  pw_responses :: "('h, 'u) stream_response list"
  pw_streams :: streams

definition stream_context_new :: "('h, 'u) unsent \<Rightarrow> ('h, 'u) stream_context" where
  "stream_context_new un = \<lparr>ctx_unsent = Some un, ctx_response = None\<rparr>"

definition py_stream ::
  "('w, 'b, 'h, 'v, 'u, 'r) libs \<Rightarrow> 'u client \<Rightarrow> string \<Rightarrow> ('u, 'r) url_reference \<Rightarrow> 'h call_args \<Rightarrow>
     (rqx_error + ('h, 'u) stream_context) option" where
  "py_stream L cl method u a =
     (case request_from_args (lib_method L) method u a of
        Inl e \<Rightarrow> Some (Inl e)
      | Inr q \<Rightarrow> map_option (map_sum id stream_context_new) (client_stream L cl q))"

text \<open>\<^verbatim>\<open>__enter__\<close>: the request leaves the context before it is sent.\<close>

definition ctx_enter ::
  "('w, 'b, 'h, 'v, 'u, 'r) libs \<Rightarrow> py_err option \<Rightarrow> ('h, 'u) stream_context \<Rightarrow> ('w, 'h, 'u) py_world \<Rightarrow>
     (('h, 'u) stream_context \<times> ('w, 'h, 'u) py_world \<times> (py_rqx_error + nat)) option" where
  "ctx_enter L rt c s =
     (case unsent_take (ctx_unsent c) of
        (cell, Inl e) \<Rightarrow> Some (c\<lparr>ctx_unsent := cell\<rparr>, s, Inl (Core e))
      | (cell, Inr un) \<Rightarrow>
          (case block_on_inner rt (unsent_send L un) (pw_state s) of
             None \<Rightarrow> None
           | Some (st, Inl e) \<Rightarrow> Some (c\<lparr>ctx_unsent := cell\<rparr>, s\<lparr>pw_state := st\<rparr>, Inl e)
           | Some (st, Inr p) \<Rightarrow>
               Some (c\<lparr>ctx_unsent := cell, ctx_response := Some (length (pw_responses s))\<rparr>,
                 s\<lparr>pw_state := st, pw_responses := pw_responses s @ [sr_from_pending p]\<rparr>,
                 Inr (length (pw_responses s)))))"

text \<open>\<^verbatim>\<open>__exit__\<close>: the response is taken out of the context and closed.\<close>

definition close_at :: "nat \<Rightarrow> ('w, 'h, 'u) py_world \<Rightarrow> ('w, 'h, 'u) py_world" where
  "close_at i s =
     (case sr_close (pw_responses s ! i) (pw_streams s) of (r, ls) \<Rightarrow>
        s\<lparr>pw_responses := (pw_responses s)[i := r], pw_streams := ls\<rparr>)"

definition ctx_exit ::
  "('h, 'u) stream_context \<Rightarrow> ('w, 'h, 'u) py_world \<Rightarrow> ('h, 'u) stream_context \<times> ('w, 'h, 'u) py_world"
  where
  "ctx_exit c s =
     (case ctx_response c of
        Some i \<Rightarrow> (c\<lparr>ctx_response := None\<rparr>, close_at i s)
      | None \<Rightarrow> (c, s))"


section \<open>Asynchronous stream contexts\<close>

text \<open>
  \<^verbatim>\<open>__aenter__\<close> takes the request at the call and stores the response when its future ends;
  \<^verbatim>\<open>__aexit__\<close> takes what the slot holds when its own future runs.  The responses created are
  a list, as above.
\<close>

record ('h, 'u) async_context =
  actx_unsent :: "('h, 'u) unsent option"
  actx_response :: "nat option"
  actx_responses :: "('h, 'u) async_response list"

definition async_context_new :: "('h, 'u) unsent \<Rightarrow> ('h, 'u) async_context" where
  "async_context_new un = \<lparr>actx_unsent = Some un, actx_response = None, actx_responses = []\<rparr>"

definition async_stream ::
  "('w, 'b, 'h, 'v, 'u, 'r) libs \<Rightarrow> 'u client \<Rightarrow> string \<Rightarrow> ('u, 'r) url_reference \<Rightarrow> 'h call_args \<Rightarrow>
     (rqx_error + ('h, 'u) async_context) option" where
  "async_stream L cl method u a =
     (case request_from_args (lib_method L) method u a of
        Inl e \<Rightarrow> Some (Inl e)
      | Inr q \<Rightarrow> map_option (map_sum id async_context_new) (client_stream L cl q))"

definition actx_enter ::
  "py_err option \<Rightarrow> ('h, 'u) async_context \<Rightarrow>
     ('h, 'u) async_context \<times> (py_rqx_error + ('h, 'u) unsent)" where
  "actx_enter rt c =
     (case unsent_take (actx_unsent c) of
        (cell, Inl e) \<Rightarrow> (c\<lparr>actx_unsent := cell\<rparr>, Inl (Core e))
      | (cell, Inr un) \<Rightarrow>
          (c\<lparr>actx_unsent := cell\<rparr>, case rt of Some e \<Rightarrow> Inl (Py e) | None \<Rightarrow> Inr un))"

text \<open>The end of the future of \<^verbatim>\<open>__aenter__\<close>, with what sending returned.\<close>

definition actx_entered ::
  "rqx_error + ('h, 'u) pending \<Rightarrow> ('h, 'u) async_context \<Rightarrow>
     ('h, 'u) async_context \<times> (py_rqx_error + nat)" where
  "actx_entered sent c =
     (case sent of
        Inl e \<Rightarrow> (c, Inl (Core e))
      | Inr p \<Rightarrow>
          (c\<lparr>actx_response := Some (length (actx_responses c)),
             actx_responses := actx_responses c @ [as_from_pending p]\<rparr>,
           Inr (length (actx_responses c))))"

text \<open>The future of \<^verbatim>\<open>__aexit__\<close>: \<^verbatim>\<open>take_body\<close> and close what it took.\<close>

definition actx_exit :: "('h, 'u) async_context \<Rightarrow> ('h, 'u) async_context" where
  "actx_exit c =
     (case actx_response c of
        Some i \<Rightarrow>
          c\<lparr>actx_response := None, actx_responses := (actx_responses c)[i := aclose (actx_responses c ! i)]\<rparr>
      | None \<Rightarrow> c)"


section \<open>The protocol of a context\<close>

text \<open>A program over one context and the response it yields.\<close>

datatype ctx_op = Enter "py_err option" | Exit | OnResponse call

datatype ctx_outcome = Entered nat | EnterFailed py_rqx_error | Exited | Returned outcome | NoResponse

definition ctx_call ::
  "('h, 'v) header_map \<Rightarrow> 'e encodings \<Rightarrow> ('e \<Rightarrow> 'd decoder) \<Rightarrow> call \<Rightarrow> ('w, 'h, 'u) py_world \<Rightarrow>
     ('w, 'h, 'u) py_world \<times> ctx_outcome" where
  "ctx_call hm en dec q s =
     (case pw_responses s of
        [] \<Rightarrow> (s, NoResponse)
      | r # rs \<Rightarrow>
          (case sr_call hm en dec q r (pw_streams s) of (r', ls, out) \<Rightarrow>
             (s\<lparr>pw_responses := r' # rs, pw_streams := ls\<rparr>, Returned out)))"

fun ctx_step where
  "ctx_step L en dec (Enter rt) c s =
     map_option (\<lambda>(c', s', r). (c', s', case r of Inl e \<Rightarrow> EnterFailed e | Inr i \<Rightarrow> Entered i))
       (ctx_enter L rt c s)"
| "ctx_step L en dec Exit c s = (case ctx_exit c s of (c', s') \<Rightarrow> Some (c', s', Exited))"
| "ctx_step L en dec (OnResponse q) c s =
     (case ctx_call (lib_headers L) en dec q s of (s', out) \<Rightarrow> Some (c, s', out))"

fun ctx_run where
  "ctx_run L en dec [] c s = Some (c, s, [])"
| "ctx_run L en dec (op # ops) c s =
     (case ctx_step L en dec op c s of
        None \<Rightarrow> None
      | Some (c', s', out) \<Rightarrow>
          (case ctx_run L en dec ops c' s' of
             None \<Rightarrow> None
           | Some (c'', s'', outs) \<Rightarrow> Some (c'', s'', out # outs)))"

text \<open>A closed response stays closed, whatever is called on it.\<close>

lemma sr_call_closed:
  assumes "sr_call hm en dec q r ls = (r', ls', out)" "sr_body r = None"
  shows "sr_body r' = None"
  using assms
  by (cases q) (auto simp: sr_defs Let_def split: prod.splits if_splits sum.splits option.splits)

lemma sr_close_closed: "sr_body (fst (sr_close r ls)) = None"
  by (simp add: sr_close_def split: option.splits)

text \<open>What holds once the context has been entered.\<close>

definition ctx_used :: "('h, 'u) stream_context \<Rightarrow> ('w, 'h, 'u) py_world \<Rightarrow> bool" where
  "ctx_used c s \<longleftrightarrow>
     ctx_unsent c = None \<and> length (pw_responses s) \<le> 1 \<and>
     (case ctx_response c of
        None \<Rightarrow> \<forall>r \<in> set (pw_responses s). sr_body r = None
      | Some i \<Rightarrow> i = 0 \<and> length (pw_responses s) = 1)"

definition reentered :: ctx_outcome where
  "reentered = EnterFailed (Core (StreamError
     ''stream already started; call stream() again for a new request''))"

fun is_enter :: "ctx_outcome \<Rightarrow> bool" where
  "is_enter (Entered i) = True"
| "is_enter (EnterFailed e) = True"
| "is_enter _ = False"

lemma ctx_enter_used:
  assumes "ctx_enter L rt c s = Some (c', s', r)" "pw_responses s = []" "ctx_response c = None"
  shows "ctx_used c' s'"
  using assms
  by (auto simp: ctx_enter_def unsent_take_def ctx_used_def split: option.splits sum.splits)

lemma ctx_exit_used:
  assumes "ctx_exit c s = (c', s')" "ctx_used c s"
  shows "ctx_used c' s' \<and> pw_state s' = pw_state s \<and> ctx_response c' = None"
proof (cases "ctx_response c")
  case None
  with assms show ?thesis by (auto simp: ctx_exit_def)
next
  case (Some i)
  with assms(2) obtain r where r: "i = 0" "pw_responses s = [r]" "ctx_unsent c = None"
    by (auto simp: ctx_used_def length_Suc_conv)
  with assms(1) Some sr_close_closed [of r "pw_streams s"] show ?thesis
    by (auto simp: ctx_exit_def close_at_def ctx_used_def split: prod.splits)
qed

lemma ctx_call_used:
  assumes "ctx_call hm en dec q s = (s', out)" "ctx_used c s"
  shows "ctx_used c s' \<and> pw_state s' = pw_state s \<and> \<not> is_enter out"
proof (cases "pw_responses s")
  case Nil
  with assms show ?thesis by (auto simp: ctx_call_def)
next
  case (Cons r rs)
  with assms(2) have "rs = []" by (auto simp: ctx_used_def)
  obtain r' ls out' where q: "sr_call hm en dec q r (pw_streams s) = (r', ls, out')" by (metis prod_cases3)
  with sr_call_closed [OF q] assms Cons \<open>rs = []\<close> show ?thesis
    by (auto simp: ctx_call_def ctx_used_def split: option.splits)
qed

lemma ctx_step_used:
  assumes "ctx_step L en dec op c s = Some (c', s', out)" "ctx_used c s"
  shows "ctx_used c' s' \<and> pw_state s' = pw_state s \<and> (is_enter out \<longrightarrow> out = reentered) \<and>
    (ctx_response c = None \<or> op = Exit \<longrightarrow> ctx_response c' = None)"
proof (cases op)
  case (Enter rt)
  from assms(2) have "ctx_unsent c = None" by (simp add: ctx_used_def)
  with assms Enter show ?thesis
    by (auto simp: ctx_enter_def unsent_take_def reentered_def ctx_used_def)
next
  case Exit
  with assms obtain "ctx_exit c s = (c', s')" "out = Exited" by (auto split: prod.splits)
  with ctx_exit_used [OF this(1) assms(2)] Exit show ?thesis by simp
next
  case (OnResponse q)
  with assms obtain "ctx_call (lib_headers L) en dec q s = (s', out)" "c' = c"
    by (auto split: prod.splits)
  with ctx_call_used [OF this(1) assms(2)] OnResponse show ?thesis by simp
qed

lemma ctx_run_used:
  "ctx_run L en dec ops c s = Some (c', s', outs) \<Longrightarrow> ctx_used c s \<Longrightarrow>
     ctx_used c' s' \<and> pw_state s' = pw_state s \<and> (\<forall>out \<in> set outs. is_enter out \<longrightarrow> out = reentered) \<and>
     (ctx_response c = None \<or> Exit \<in> set ops \<longrightarrow> ctx_response c' = None)"
proof (induction ops arbitrary: c s outs)
  case Nil
  then show ?case by auto
next
  case (Cons op ops)
  from Cons.prems(1) obtain c1 s1 out outs' where
    step: "ctx_step L en dec op c s = Some (c1, s1, out)"
    and run: "ctx_run L en dec ops c1 s1 = Some (c', s', outs')" and outs: "outs = out # outs'"
    by (auto split: option.splits)
  note one = ctx_step_used [OF step Cons.prems(2)]
  from Cons.IH [OF run conjunct1 [OF one]] one outs show ?case by auto
qed

text \<open>C9. A stream context sends once.  After its first \<^verbatim>\<open>__enter__\<close>, whether that succeeded
  or failed, no sequence of \<^verbatim>\<open>with\<close>-statements and calls on the response sends anything or
  touches the jar, every further \<^verbatim>\<open>__enter__\<close> raises \<^verbatim>\<open>StreamError\<close>, there is at most one
  response, and once \<^verbatim>\<open>__exit__\<close> has run that response is closed for good.\<close>

theorem context_sends_once:
  assumes "ctx_enter L rt (stream_context_new un) s = Some (c1, s1, r)" and "pw_responses s = []"
    and "ctx_run L en dec ops c1 s1 = Some (c', s', outs)"
  shows "pw_state s' = pw_state s1 \<and> length (pw_responses s') \<le> 1 \<and>
    (\<forall>out \<in> set outs. is_enter out \<longrightarrow> out = reentered) \<and>
    (Exit \<in> set ops \<longrightarrow> (\<forall>r \<in> set (pw_responses s'). sr_body r = None))"
proof -
  have "ctx_used c1 s1"
    by (rule ctx_enter_used [OF assms(1,2)]) (simp add: stream_context_new_def)
  from ctx_run_used [OF assms(3) this] show ?thesis
    by (auto simp: ctx_used_def)
qed

lemma request_from_args_errors:
  "case request_from_args method_of m u a of
     Inl e \<Rightarrow>
       exc_class (py_core e) = PyValueError \<and>
       (a_auth a \<noteq> None \<and> a_auth_bearer a \<noteq> None \<or>
        1 < length (filter id [a_content a \<noteq> None, a_data a \<noteq> None, a_json a \<noteq> None]) \<or>
        isl (method_of (map ascii_upper m)))
   | Inr q \<Rightarrow>
       \<not> (a_auth a \<noteq> None \<and> a_auth_bearer a \<noteq> None) \<and>
       \<not> 1 < length (filter id [a_content a \<noteq> None, a_data a \<noteq> None, a_json a \<noteq> None]) \<and>
       \<not> isl (method_of (map ascii_upper m))"
  by (auto simp: request_from_args_def auth_new_def request_body_new_def request_new_def Let_def
      split: option.splits sum.splits prod.splits)

text \<open>C29. Bad arguments send nothing: a call with two kinds of credentials, two bodies or an
  invalid method raises \<^verbatim>\<open>ValueError\<close>, from every entry point, with the world and the jar
  untouched.\<close>

theorem bad_arguments_send_nothing:
  assumes "a_auth a \<noteq> None \<and> a_auth_bearer a \<noteq> None \<or>
    1 < length (filter id [a_content a \<noteq> None, a_data a \<noteq> None, a_json a \<noteq> None]) \<or>
    isl (lib_method L (map ascii_upper m))"
  shows "\<exists>e. exc_class (py_core e) = PyValueError \<and>
    py_request L rt cl m u a s = Some (s, Inl (Core e)) \<and>
    async_request L rt cl m u a = Inl (py_core e) \<and>
    py_stream L cl m u a = Some (Inl e) \<and> async_stream L cl m u a = Some (Inl e)"
proof -
  obtain e where "request_from_args (lib_method L) m u a = Inl e" "exc_class (py_core e) = PyValueError"
    using request_from_args_errors [where method_of = "lib_method L" and m = m and u = u and a = a] assms by (auto split: sum.splits)
  then show ?thesis
    by (auto simp: py_request_def async_request_def py_stream_def async_stream_def)
qed

text \<open>The two clients agree: awaiting a call of the asynchronous client does to the world and
  the jar what the same call of the sync client does, with the same result or exception.\<close>

theorem async_request_agrees:
  "map_option (\<lambda>(s', r). (s', map_sum into_py_err id r)) (py_request L None cl m u a s) =
    (case async_request L None cl m u a of Inl e \<Rightarrow> Some (s, Inl e) | Inr fut \<Rightarrow> fut s)"
proof (cases "request_from_args (lib_method L) m u a")
  case (Inl e)
  then show ?thesis by (simp add: py_request_def async_request_def)
next
  case (Inr q)
  then show ?thesis
    by (cases "send_request L cl q s")
       (auto simp: py_request_def async_request_def block_on_inner_def future_into_py_def sum.map_comp o_def)
qed

text \<open>The libraries of the Python layer, for evaluating the definitions.\<close>

definition plain_libs where
  "plain_libs =
     \<lparr>lib_net = scripted, lib_headers = assoc_headers, lib_url = plain_urls, lib_iri = string_refs,
      lib_form = (\<lambda>_. []), lib_request = plain_builder, lib_float = (\<lambda>_. []), lib_method = Inr\<rparr>"

definition no_args :: "(string \<times> string) list call_args" where
  "no_args =
     \<lparr>a_content = None, a_data = None, a_json = None, a_params = None, a_headers = None, a_auth = None,
      a_auth_bearer = None, a_follow_redirects = None, a_timeout = None\<rparr>"

theorem bad_arguments_send_nothing_witness:
  "\<exists>e. py_request plain_libs None (plain_client 5) ''GET'' (Absolute (''https'', ''a'', 443))
     (no_args\<lparr>a_auth := Some (''u'', ''p''), a_auth_bearer := Some ''t''\<rparr>) (hops_302, Map.empty) =
     Some ((hops_302, Map.empty), Inl (Core e)) \<and> exc_class (py_core e) = PyValueError"
  using bad_arguments_send_nothing [of "no_args\<lparr>a_auth := Some (''u'', ''p''), a_auth_bearer := Some ''t''\<rparr>"
      plain_libs "''GET''" None "plain_client 5" "Absolute (''https'', ''a'', 443)" "(hops_302, Map.empty)"]
  by auto

definition plain_unsent :: "((string \<times> string) list, string \<times> string \<times> u16) unsent" where
  "plain_unsent = \<lparr>un_client = plain_client 5, un_request = plain_request, un_follow = True\<rparr>"

definition plain_world where
  "plain_world = \<lparr>pw_state = (hops_302, Map.empty), pw_responses = [], pw_streams = []\<rparr>"

definition one_encoding :: "unit encodings" where
  "one_encoding = \<lparr>enc_for_label = (\<lambda>_. None), enc_name = (\<lambda>_. []), enc_utf8 = (),
     enc_decode = (\<lambda>_ _. []), mime_charset = (\<lambda>_. None)\<rparr>"

definition context_ops :: "ctx_op list" where
  "context_ops = [OnResponse (IterBytes None), Exit, OnResponse Content, Enter None]"

lemma run_context:
  "case ctx_enter plain_libs None (stream_context_new plain_unsent) plain_world of
     Some (c, s, r) \<Rightarrow>
       (case ctx_run plain_libs one_encoding (\<lambda>_. latin1) context_ops c s of
          Some (c', s', outs) \<Rightarrow> length (pw_responses s') = 1 \<and> outs ! 3 = reentered
        | None \<Rightarrow> False)
   | None \<Rightarrow> False"
  by code_simp

theorem context_sends_once_witness:
  "\<exists>c1 s1 r c' s' outs.
     ctx_enter plain_libs None (stream_context_new plain_unsent) plain_world = Some (c1, s1, r) \<and>
     ctx_run plain_libs one_encoding (\<lambda>_. latin1) context_ops c1 s1 = Some (c', s', outs) \<and>
     length (pw_responses s') = 1 \<and> (\<forall>r \<in> set (pw_responses s'). sr_body r = None)"
proof -
  obtain c1 s1 r c' s' outs where
    run: "ctx_enter plain_libs None (stream_context_new plain_unsent) plain_world = Some (c1, s1, r)"
      "ctx_run plain_libs one_encoding (\<lambda>_. latin1) context_ops c1 s1 = Some (c', s', outs)"
      "length (pw_responses s') = 1"
    using run_context by (auto split: option.split_asm)
  have "pw_responses plain_world = []" by (simp add: plain_world_def)
  from context_sends_once [OF run(1) this run(2)] run show ?thesis
    by (auto simp: context_ops_def)
qed

end
