(* ===== verification/Rqx_Runtime.thy ===== *)
theory Rqx_Runtime
  imports Rqx_Error
begin

text \<open>
  \<^verbatim>\<open>rqx/src/runtime.rs\<close>: the process-wide tokio runtime, built on first use, rebuilt after a
  fork and shut down at exit, by any number of threads at once.

  A slot is a heap allocation; published slots are never freed, so an index into the list of all
  slots stands for the pointer.  Every atomic access is one step.  A fork is seen from the child:
  its memory is the parent's, its threads are gone but for the caller's, which is outside
  \<^verbatim>\<open>rqx\<close>, and its PID is one no slot was built under.
\<close>

record rt_slot =
  rs_pid :: nat
  rs_running :: bool

datatype rt_thread =
    Idle
  | HClosed | HCurrent
  | BBuild "nat option" | BSwap "nat option" nat | BCheck nat
  | RSwap nat | RStop nat
  | SClose | SSwap | SStop nat
  | Got nat | Raised py_err | ShutDown

record rt_sys =
  rt_current :: "nat option"
  rt_closed :: bool
  rt_slots :: "rt_slot list"
  rt_pid :: nat
  rt_thread_at :: "nat \<Rightarrow> rt_thread"

definition runtime_new :: "nat \<Rightarrow> rt_sys" where
  "runtime_new pid =
     \<lparr>rt_current = None, rt_closed = False, rt_slots = [], rt_pid = pid, rt_thread_at = (\<lambda>_. Idle)\<rparr>"

definition runtime_closed_error :: py_err where
  "runtime_closed_error =
     new_err CRqxError ''rqx runtime has been shut down (interpreter is exiting)''"

definition slot_for :: "rt_sys \<Rightarrow> nat option \<Rightarrow> nat option" where
  "slot_for s c =
     (case c of
        None \<Rightarrow> None
      | Some n \<Rightarrow> if rs_pid (rt_slots s ! n) = rt_pid s then Some n else None)"

definition goto_rt :: "nat \<Rightarrow> rt_thread \<Rightarrow> rt_sys \<Rightarrow> rt_sys" where
  "goto_rt i t s = s\<lparr>rt_thread_at := (rt_thread_at s)(i := t)\<rparr>"

text \<open>Taking the runtime out of a slot and shutting it down, or dropping an unpublished slot.\<close>

definition stop_slot :: "nat \<Rightarrow> rt_sys \<Rightarrow> rt_sys" where
  "stop_slot n s = s\<lparr>rt_slots := (rt_slots s)[n := (rt_slots s ! n)\<lparr>rs_running := False\<rparr>]\<rparr>"

text \<open>\<^verbatim>\<open>handle\<close>: the flag, then the current slot.\<close>

fun handle_step :: "nat \<Rightarrow> rt_thread \<Rightarrow> rt_sys \<Rightarrow> rt_sys" where
  "handle_step i HClosed s =
     (if rt_closed s then goto_rt i (Raised runtime_closed_error) s else goto_rt i HCurrent s)"
| "handle_step i HCurrent s =
     (case slot_for s (rt_current s) of
        Some n \<Rightarrow> goto_rt i (Got n) s
      | None \<Rightarrow> goto_rt i (BBuild (rt_current s)) s)"
| "handle_step i _ s = s"

text \<open>
  \<^verbatim>\<open>build\<close>: \<open>failed\<close> is the error of the tokio builder, if it fails.  A slot that loses the
  exchange is dropped; a winner of another process is tried against again.
\<close>

fun build_step :: "string option \<Rightarrow> nat \<Rightarrow> rt_thread \<Rightarrow> rt_sys \<Rightarrow> rt_sys" where
  "build_step failed i (BBuild seen) s =
     (case failed of
        Some e \<Rightarrow>
          goto_rt i (Raised (new_err PyRuntimeError (''Error initializing Tokio Runtime: '' @ e))) s
      | None \<Rightarrow>
          goto_rt i (BSwap seen (length (rt_slots s)))
            (s\<lparr>rt_slots := rt_slots s @ [\<lparr>rs_pid = rt_pid s, rs_running = True\<rparr>]\<rparr>))"
| "build_step failed i (BSwap seen n) s =
     (if rt_current s = seen then goto_rt i (BCheck n) (s\<lparr>rt_current := Some n\<rparr>)
      else
        (case slot_for s (rt_current s) of
           Some m \<Rightarrow> goto_rt i (Got m) (stop_slot n s)
         | None \<Rightarrow> goto_rt i (BBuild (rt_current s)) (stop_slot n s)))"
| "build_step failed i (BCheck n) s =
     (if rt_closed s then goto_rt i (RSwap n) s else goto_rt i (Got n) s)"
| "build_step failed i _ s = s"

text \<open>\<^verbatim>\<open>retract\<close>, and the error \<^verbatim>\<open>build\<close> then returns.\<close>

fun retract_step :: "nat \<Rightarrow> rt_thread \<Rightarrow> rt_sys \<Rightarrow> rt_sys" where
  "retract_step i (RSwap n) s =
     goto_rt i (RStop n) (if rt_current s = Some n then s\<lparr>rt_current := None\<rparr> else s)"
| "retract_step i (RStop n) s = goto_rt i (Raised runtime_closed_error) (stop_slot n s)"
| "retract_step i _ s = s"

fun shutdown_step :: "nat \<Rightarrow> rt_thread \<Rightarrow> rt_sys \<Rightarrow> rt_sys" where
  "shutdown_step i SClose s = goto_rt i SSwap (s\<lparr>rt_closed := True\<rparr>)"
| "shutdown_step i SSwap s =
     (case slot_for s (rt_current s) of
        Some n \<Rightarrow> goto_rt i (SStop n) (s\<lparr>rt_current := None\<rparr>)
      | None \<Rightarrow> goto_rt i ShutDown (s\<lparr>rt_current := None\<rparr>))"
| "shutdown_step i (SStop n) s = goto_rt i ShutDown (stop_slot n s)"
| "shutdown_step i _ s = s"

fun resting :: "rt_thread \<Rightarrow> bool" where
  "resting Idle = True"
| "resting (Got n) = True"
| "resting (Raised e) = True"
| "resting ShutDown = True"
| "resting _ = False"

text \<open>The next step of a thread: those of \<^verbatim>\<open>handle\<close> and its callees, or those of \<^verbatim>\<open>shutdown\<close>.\<close>

definition thread_step :: "string option \<Rightarrow> nat \<Rightarrow> rt_sys \<Rightarrow> rt_sys" where
  "thread_step failed i s =
     (case rt_thread_at s i of
        HClosed \<Rightarrow> handle_step i HClosed s
      | HCurrent \<Rightarrow> handle_step i HCurrent s
      | RSwap n \<Rightarrow> retract_step i (RSwap n) s
      | RStop n \<Rightarrow> retract_step i (RStop n) s
      | SClose \<Rightarrow> shutdown_step i SClose s
      | SSwap \<Rightarrow> shutdown_step i SSwap s
      | SStop n \<Rightarrow> shutdown_step i (SStop n) s
      | t \<Rightarrow> build_step failed i t s)"

text \<open>Any number of threads, in any order, with forks between.\<close>

inductive rt_step :: "rt_sys \<Rightarrow> rt_sys \<Rightarrow> bool" where
  call_handle: "resting (rt_thread_at s i) \<Longrightarrow> rt_step s (goto_rt i HClosed s)"
| call_shutdown: "resting (rt_thread_at s i) \<Longrightarrow> rt_step s (goto_rt i SClose s)"
| run: "rt_step s (thread_step failed i s)"
| fork: "p \<noteq> rt_pid s \<Longrightarrow> p \<notin> rs_pid ` set (rt_slots s) \<Longrightarrow>
     rt_step s (s\<lparr>rt_pid := p, rt_thread_at := (\<lambda>_. Idle)\<rparr>)"

inductive rt_reach :: "nat \<Rightarrow> rt_sys \<Rightarrow> bool" for pid where
  rt_reach_new: "rt_reach pid (runtime_new pid)"
| rt_reach_step: "rt_reach pid s \<Longrightarrow> rt_step s t \<Longrightarrow> rt_reach pid t"


section \<open>The invariant\<close>

text \<open>The slots a thread's next steps may touch, and the pointer it saw.\<close>

fun holding :: "rt_thread \<Rightarrow> nat set" where
  "holding (BSwap seen n) = {n}"
| "holding (BCheck n) = {n}"
| "holding (RSwap n) = {n}"
| "holding (RStop n) = {n}"
| "holding (SStop n) = {n}"
| "holding _ = {}"

fun seen_stale :: "rt_thread \<Rightarrow> nat set" where
  "seen_stale (BBuild (Some m)) = {m}"
| "seen_stale (BSwap (Some m) n) = {m}"
| "seen_stale _ = {}"

fun has_handle :: "rt_thread \<Rightarrow> nat set" where
  "has_handle (BCheck n) = {n}"
| "has_handle (Got n) = {n}"
| "has_handle _ = {}"

fun unpublished :: "rt_thread \<Rightarrow> nat set" where
  "unpublished (BSwap seen n) = {n}"
| "unpublished _ = {}"

fun will_retire :: "rt_thread \<Rightarrow> nat \<Rightarrow> bool" where
  "will_retire (BCheck m) n = (m = n)"
| "will_retire (RSwap m) n = (m = n)"
| "will_retire SSwap n = True"
| "will_retire _ n = False"

fun after_close :: "rt_thread \<Rightarrow> bool" where
  "after_close (RSwap n) = True"
| "after_close (RStop n) = True"
| "after_close SSwap = True"
| "after_close (SStop n) = True"
| "after_close _ = False"

definition own :: "rt_sys \<Rightarrow> nat \<Rightarrow> bool" where
  "own s n \<longleftrightarrow> n < length (rt_slots s) \<and> rs_pid (rt_slots s ! n) = rt_pid s"

definition rt_refs :: "rt_sys \<Rightarrow> bool" where
  "rt_refs s \<longleftrightarrow>
     (\<forall>n. rt_current s = Some n \<longrightarrow> n < length (rt_slots s)) \<and>
     (\<forall>i. \<forall>n \<in> holding (rt_thread_at s i) \<union> has_handle (rt_thread_at s i). own s n) \<and>
     (\<forall>i. \<forall>n \<in> seen_stale (rt_thread_at s i). n < length (rt_slots s) \<and> \<not> own s n)"

definition rt_private :: "rt_sys \<Rightarrow> bool" where
  "rt_private s \<longleftrightarrow>
     (\<forall>i. \<forall>n \<in> unpublished (rt_thread_at s i).
        rt_current s \<noteq> Some n \<and> rs_running (rt_slots s ! n) \<and>
        (\<forall>j. j \<noteq> i \<longrightarrow> n \<notin> holding (rt_thread_at s j) \<union> has_handle (rt_thread_at s j)))"

definition rt_open :: "rt_sys \<Rightarrow> bool" where
  "rt_open s \<longleftrightarrow>
     (\<forall>i. after_close (rt_thread_at s i) \<longrightarrow> rt_closed s) \<and>
     (\<not> rt_closed s \<longrightarrow>
        (\<forall>i. \<forall>n \<in> has_handle (rt_thread_at s i). rt_current s = Some n) \<and>
        (\<forall>n. rt_current s = Some n \<and> own s n \<longrightarrow> rs_running (rt_slots s ! n)))"

definition rt_owned :: "rt_sys \<Rightarrow> bool" where
  "rt_owned s \<longleftrightarrow>
     (\<forall>n. own s n \<and> rs_running (rt_slots s ! n) \<longrightarrow>
        rt_current s = Some n \<or> (\<exists>i. n \<in> holding (rt_thread_at s i))) \<and>
     (\<forall>n. rt_closed s \<and> rt_current s = Some n \<and> own s n \<longrightarrow>
        (\<exists>i. will_retire (rt_thread_at s i) n))"

definition rt_inv :: "rt_sys \<Rightarrow> bool" where
  "rt_inv s \<longleftrightarrow> rt_refs s \<and> rt_private s \<and> rt_open s \<and> rt_owned s"

lemmas rt_inv_defs = rt_refs_def rt_private_def rt_open_def rt_owned_def

lemma rt_inv_new: "rt_inv (runtime_new pid)"
  by (simp add: rt_inv_def rt_inv_defs runtime_new_def own_def)

text \<open>Moving a thread, publishing, stopping: what each does to the parts of the state.\<close>

lemma goto_rt_simps [simp]:
  "rt_current (goto_rt i t s) = rt_current s" "rt_closed (goto_rt i t s) = rt_closed s"
  "rt_slots (goto_rt i t s) = rt_slots s" "rt_pid (goto_rt i t s) = rt_pid s"
  "rt_thread_at (goto_rt i t s) = (rt_thread_at s)(i := t)"
  by (simp_all add: goto_rt_def)

lemma stop_slot_simps [simp]:
  "rt_current (stop_slot n s) = rt_current s" "rt_closed (stop_slot n s) = rt_closed s"
  "length (rt_slots (stop_slot n s)) = length (rt_slots s)" "rt_pid (stop_slot n s) = rt_pid s"
  "rt_thread_at (stop_slot n s) = rt_thread_at s"
  by (simp_all add: stop_slot_def)

lemma stop_slot_nth:
  assumes "m < length (rt_slots s)"
  shows "rs_pid (rt_slots (stop_slot n s) ! m) = rs_pid (rt_slots s ! m)"
    and "rs_running (rt_slots (stop_slot n s) ! m) = (m \<noteq> n \<and> rs_running (rt_slots s ! m))"
  using assms by (cases "m = n"; simp add: stop_slot_def)+

lemma own_simps [simp]:
  "own (goto_rt i t s) n = own s n"
  "own (stop_slot m s) n = own s n"
  "own (s\<lparr>rt_current := c\<rparr>) n = own s n"
  "own (s\<lparr>rt_closed := b\<rparr>) n = own s n"
  by (auto simp: own_def stop_slot_nth)

lemma slot_for_own:
  "rt_refs s \<Longrightarrow> slot_for s (rt_current s) = Some n \<longleftrightarrow> rt_current s = Some n \<and> own s n"
  "rt_refs s \<Longrightarrow> slot_for s (rt_current s) = None \<longleftrightarrow> (\<forall>n. rt_current s = Some n \<longrightarrow> \<not> own s n)"
  by (auto simp: slot_for_def own_def rt_refs_def split: option.splits if_splits)

lemma seen_stale_option: "seen_stale (BBuild c) = set_option c" "seen_stale (BSwap c n) = set_option c"
  by (cases c; simp)+

text \<open>A thread that gives nothing up moves on.\<close>

lemma rt_inv_goto:
  assumes "rt_inv s" "holding (rt_thread_at s i) \<subseteq> holding t"
    and "\<And>n. will_retire (rt_thread_at s i) n \<Longrightarrow> will_retire t n"
    and "\<forall>n \<in> has_handle t. own s n \<and> (\<not> rt_closed s \<longrightarrow> rt_current s = Some n)"
    and "holding t = {} \<or> holding t = holding (rt_thread_at s i)"
    and "unpublished t = {}"
    and "seen_stale t \<subseteq> {n. n < length (rt_slots s) \<and> \<not> own s n}"
    and "after_close t \<longrightarrow> rt_closed s"
    and "\<forall>n \<in> has_handle t. \<forall>j. n \<notin> unpublished (rt_thread_at s j)"
    and "unpublished (rt_thread_at s i) = {}"
  shows "rt_inv (goto_rt i t s)"
proof -
  have "rt_refs (goto_rt i t s)"
    using assms(1,4,5,7) by (auto simp: rt_inv_def rt_refs_def) blast+
  moreover have "rt_private (goto_rt i t s)"
    using assms(1,5,6,9) by (auto simp: rt_inv_def rt_private_def)
  moreover have "rt_open (goto_rt i t s)"
    using assms(1,4,8) by (auto simp: rt_inv_def rt_open_def)
  moreover have "rt_owned (goto_rt i t s)"
    using assms(1-3) by (auto simp: rt_inv_def rt_owned_def) (metis subsetD)+
  ultimately show ?thesis by (simp add: rt_inv_def)
qed

lemma not_unpublished:
  "rt_inv s \<Longrightarrow> rt_current s = Some n \<Longrightarrow> n \<notin> unpublished (rt_thread_at s j)"
  by (auto simp: rt_inv_def rt_private_def)

lemma handle_step_inv:
  assumes "rt_inv s" "rt_thread_at s i \<in> {HClosed, HCurrent}"
  shows "rt_inv (handle_step i (rt_thread_at s i) s)"
proof (cases "rt_thread_at s i = HClosed")
  case True
  with assms(1) show ?thesis by (auto intro!: rt_inv_goto)
next
  case False
  with assms(2) have at: "rt_thread_at s i = HCurrent" by simp
  have refs: "rt_refs s" using assms(1) by (simp add: rt_inv_def)
  show ?thesis
  proof (cases "slot_for s (rt_current s)")
    case None
    with slot_for_own(2) [OF refs] refs have
      "set_option (rt_current s) \<subseteq> {n. n < length (rt_slots s) \<and> \<not> own s n}"
      by (auto simp: rt_refs_def)
    with None at assms(1) show ?thesis by (auto intro!: rt_inv_goto simp: seen_stale_option)
  next
    case (Some n)
    with slot_for_own(1) [OF refs] have "rt_current s = Some n" "own s n" by auto
    with Some at assms(1) show ?thesis by (auto intro!: rt_inv_goto dest: not_unpublished)
  qed
qed

lemma rt_invD:
  assumes "rt_inv s"
  shows "rt_refs s" "rt_private s" "rt_open s" "rt_owned s"
  using assms by (simp_all add: rt_inv_def)

lemma after_close_closed: "rt_inv s \<Longrightarrow> after_close (rt_thread_at s i) \<Longrightarrow> rt_closed s"
  by (auto dest!: rt_invD(3) simp: rt_open_def)

text \<open>A slot allocated by a thread that holds nothing.\<close>

definition add_slot :: "rt_sys \<Rightarrow> rt_sys" where
  "add_slot s = s\<lparr>rt_slots := rt_slots s @ [\<lparr>rs_pid = rt_pid s, rs_running = True\<rparr>]\<rparr>"

lemma add_slot_simps [simp]:
  "rt_current (add_slot s) = rt_current s" "rt_closed (add_slot s) = rt_closed s"
  "length (rt_slots (add_slot s)) = Suc (length (rt_slots s))" "rt_pid (add_slot s) = rt_pid s"
  "rt_thread_at (add_slot s) = rt_thread_at s"
  "n < length (rt_slots s) \<Longrightarrow> rt_slots (add_slot s) ! n = rt_slots s ! n"
  "rt_slots (add_slot s) ! length (rt_slots s) = \<lparr>rs_pid = rt_pid s, rs_running = True\<rparr>"
  "own (add_slot s) n \<longleftrightarrow> own s n \<or> n = length (rt_slots s)"
  by (auto simp: add_slot_def own_def nth_append)

lemma own_bound: "own s n \<Longrightarrow> n < length (rt_slots s)"
  by (simp add: own_def)

lemma unpublished_holding: "unpublished x \<subseteq> holding x"
  by (cases x) auto

lemma rt_owned_move:
  assumes "rt_owned s" "rt_thread_at t = (rt_thread_at s)(i := x)"
    and "\<And>n. own t n \<Longrightarrow> rs_running (rt_slots t ! n) \<Longrightarrow> n \<notin> holding x \<Longrightarrow> rt_current t \<noteq> Some n \<Longrightarrow>
      own s n \<and> rs_running (rt_slots s ! n) \<and> rt_current s \<noteq> Some n \<and> n \<notin> holding (rt_thread_at s i)"
    and "\<And>n. own t n \<Longrightarrow> rt_closed t \<Longrightarrow> rt_current t = Some n \<Longrightarrow> \<not> will_retire x n \<Longrightarrow>
      own s n \<and> rt_closed s \<and> rt_current s = Some n \<and> \<not> will_retire (rt_thread_at s i) n"
  shows "rt_owned t"
proof -
  have "rt_current t = Some n \<or> (\<exists>j. n \<in> holding (rt_thread_at t j))"
    if "own t n" "rs_running (rt_slots t ! n)" for n
    using assms(1,2) assms(3) [OF that] unfolding rt_owned_def by (metis fun_upd_apply)
  moreover have "\<exists>j. will_retire (rt_thread_at t j) n"
    if "own t n" "rt_closed t" "rt_current t = Some n" for n
    using assms(1,2) assms(4) [OF that] unfolding rt_owned_def by (metis fun_upd_apply)
  ultimately show ?thesis by (auto simp: rt_owned_def)
qed

lemma allocate_inv:
  assumes inv: "rt_inv s" and at: "rt_thread_at s i = BBuild seen"
  shows "rt_inv (goto_rt i (BSwap seen (length (rt_slots s))) (add_slot s))" (is "rt_inv ?t")
proof -
  let ?n = "length (rt_slots s)"
  have refs: "rt_refs s" using inv by (rule rt_invD)
  have fresh: "?n \<notin> holding (rt_thread_at s j) \<union> has_handle (rt_thread_at s j)"
    "rt_current s \<noteq> Some ?n" for j
    using refs by (auto simp: rt_refs_def own_def)
  have old: "n \<in> unpublished (rt_thread_at s j) \<Longrightarrow> n < ?n" for n j
    using refs by (cases "rt_thread_at s j") (auto simp: rt_refs_def own_def dest!: spec [of _ j])
  have "rt_refs ?t"
    using refs at by (auto simp: rt_refs_def seen_stale_option split: if_splits)
      (metis less_Suc_eq less_irrefl_nat seen_stale_option(1) option.set_intros)+
  moreover have "rt_private ?t"
    using rt_invD(2) [OF inv] fresh old at
    by (auto simp: rt_private_def) (metis less_irrefl_nat old)+
  moreover have "rt_open ?t"
    using rt_invD(3) [OF inv] fresh(2) at by (auto simp: rt_open_def own_def nth_append)
  moreover have "rt_owned ?t"
    by (rule rt_owned_move
          [OF rt_invD(4) [OF inv], where i = i and x = "BSwap seen ?n"]; use fresh(2) at in \<open>auto dest: own_bound\<close>)
  ultimately show ?thesis by (simp add: rt_inv_def)
qed

lemma publish_inv:
  assumes inv: "rt_inv s" and at: "rt_thread_at s i = BSwap (rt_current s) n"
  shows "rt_inv (goto_rt i (BCheck n) (s\<lparr>rt_current := Some n\<rparr>))" (is "rt_inv ?t")
proof -
  have own: "own s n" and stale: "rt_current s = Some m \<Longrightarrow> \<not> own s m" for m
    using rt_invD(1) [OF inv] at
    by (auto simp: rt_refs_def seen_stale_option dest!: spec [of _ i])
  have mine: "rs_running (rt_slots s ! n)"
    "j \<noteq> i \<Longrightarrow> n \<notin> holding (rt_thread_at s j) \<union> has_handle (rt_thread_at s j)" for j
    using rt_invD(2) [OF inv] at by (auto simp: rt_private_def dest!: spec [of _ i])
  have handles: "\<not> rt_closed s \<Longrightarrow> has_handle (rt_thread_at s j) = {}" for j
    using rt_invD(1,3) [OF inv] stale by (fastforce simp: rt_open_def rt_refs_def)
  have "rt_refs ?t"
    using rt_invD(1) [OF inv] own by (auto simp: rt_refs_def dest: own_bound)
  moreover have "rt_private ?t"
    using rt_invD(2) [OF inv] mine(2) unpublished_holding by (fastforce simp: rt_private_def)
  moreover have "rt_open ?t"
    using rt_invD(3) [OF inv] handles mine(1) by (auto simp: rt_open_def)
  moreover have "rt_owned ?t"
    by (rule rt_owned_move
          [OF rt_invD(4) [OF inv], where i = i and x = "BCheck n"]; use at stale in auto)
  ultimately show ?thesis by (simp add: rt_inv_def)
qed

text \<open>A thread that holds a slot stops it, and goes on with nothing but the current one.\<close>

lemma stop_inv:
  assumes inv: "rt_inv s" and held: "holding (rt_thread_at s i) = {n}"
    and at: "n \<in> unpublished (rt_thread_at s i) \<or> rt_closed s \<and> \<not> will_retire (rt_thread_at s i) n"
    and into: "holding x = {}" "\<forall>m \<in> has_handle x. own s m \<and> rt_current s = Some m"
      "seen_stale x \<subseteq> {m. m < length (rt_slots s) \<and> \<not> own s m}" "after_close x \<longrightarrow> rt_closed s"
  shows "rt_inv (goto_rt i x (stop_slot n s))" (is "rt_inv ?t")
proof -
  have x: "unpublished x = {}" "\<not> will_retire (rt_thread_at s i) m" for m
    using into(1) held at unpublished_holding [of x] by (cases "rt_thread_at s i"; auto)+
  have bound: "n < length (rt_slots s)"
    using rt_invD(1) [OF inv] held own_bound by (fastforce simp: rt_refs_def)
  have current: "rt_closed s \<or> rt_current s \<noteq> Some n"
    using at rt_invD(2) [OF inv] by (auto simp: rt_private_def)
  have "rt_refs ?t"
    using rt_invD(1) [OF inv] into(1,2,3) by (auto simp: rt_refs_def)
  moreover have "rt_private ?t"
    unfolding rt_private_def
  proof (intro allI ballI)
    fix j m assume "m \<in> unpublished (rt_thread_at ?t j)"
    with x(1) have j: "j \<noteq> i" "m \<in> unpublished (rt_thread_at s j)" by (auto split: if_splits)
    with rt_invD(2) [OF inv] have m: "rt_current s \<noteq> Some m" "rs_running (rt_slots s ! m)"
      "\<And>k. k \<noteq> j \<Longrightarrow> m \<notin> holding (rt_thread_at s k) \<union> has_handle (rt_thread_at s k)"
      by (auto simp: rt_private_def)
    from j unpublished_holding rt_invD(1) [OF inv] have "m < length (rt_slots s)"
      by (fastforce simp: rt_refs_def dest: own_bound)
    moreover from m(3) [of i] j(1) held have "m \<noteq> n" by auto
    ultimately show "rt_current ?t \<noteq> Some m \<and> rs_running (rt_slots ?t ! m) \<and>
      (\<forall>k. k \<noteq> j \<longrightarrow> m \<notin> holding (rt_thread_at ?t k) \<union> has_handle (rt_thread_at ?t k))"
      using m into(1,2) by (auto simp: stop_slot_nth)
  qed
  moreover have "rt_open ?t"
    using rt_invD(3) [OF inv] into(2,4) current bound
    by (auto simp: rt_open_def stop_slot_nth own_bound)
  moreover have "rt_owned ?t"
    by (rule rt_owned_move
          [OF rt_invD(4) [OF inv], where i = i and x = "x"];
        use held x at rt_invD(2) [OF inv] in \<open>auto simp: stop_slot_nth rt_private_def dest: own_bound\<close>)
  ultimately show ?thesis by (simp add: rt_inv_def)
qed


lemma keep_inv:
  assumes inv: "rt_inv s" and at: "rt_thread_at s i = BCheck n" "\<not> rt_closed s"
  shows "rt_inv (goto_rt i (Got n) s)" (is "rt_inv ?t")
proof -
  have current: "rt_current s = Some n"
    using rt_invD(3) [OF inv] at by (auto simp: rt_open_def dest!: spec [of _ i])
  have "rt_refs ?t"
    using rt_invD(1) [OF inv] at(1) by (auto simp: rt_refs_def dest: spec [of _ i])
  moreover have "rt_private ?t"
    using rt_invD(2) [OF inv] current by (auto simp: rt_private_def)
  moreover have "rt_open ?t"
    using rt_invD(3) [OF inv] current at(2) by (auto simp: rt_open_def)
  moreover have "rt_owned ?t"
    by (rule rt_owned_move [OF rt_invD(4) [OF inv], where i = i and x = "Got n"];
        use at current in auto)
  ultimately show ?thesis by (simp add: rt_inv_def)
qed

lemma unpublish_inv:
  assumes inv: "rt_inv s" and closed: "rt_closed s"
    and from_at: "unpublished (rt_thread_at s i) = {}" "holding (rt_thread_at s i) \<subseteq> holding x"
    and into: "unpublished x = {}" "has_handle x = {}" "seen_stale x = {}"
      "\<forall>n \<in> holding x. n \<in> holding (rt_thread_at s i) \<or> rt_current s = Some n \<and> own s n"
      "\<forall>n. rt_current s = Some n \<and> own s n \<longrightarrow> n \<in> holding x"
  shows "rt_inv (goto_rt i x (s\<lparr>rt_current := None\<rparr>))" (is "rt_inv ?t")
proof -
  have "rt_refs ?t"
    using rt_invD(1) [OF inv] into by (auto simp: rt_refs_def) blast
  moreover have "rt_private ?t"
    using rt_invD(2) [OF inv] into(1,2,4) by (auto simp: rt_private_def) metis+
  moreover have "rt_open ?t"
    using closed by (auto simp: rt_open_def)
  moreover have "rt_owned ?t"
    by (rule rt_owned_move [OF rt_invD(4) [OF inv], where i = i and x = x];
        use from_at into in auto)
  ultimately show ?thesis by (simp add: rt_inv_def)
qed

text \<open>\<^verbatim>\<open>retract\<close> of a slot that is no longer current; the flag of \<^verbatim>\<open>shutdown\<close>.\<close>

lemma retire_inv:
  assumes inv: "rt_inv s" and at: "rt_thread_at s i = RSwap n" "rt_current s \<noteq> Some n"
  shows "rt_inv (goto_rt i (RStop n) s)" (is "rt_inv ?t")
proof -
  have "rt_refs ?t"
    using rt_invD(1) [OF inv] at(1) by (auto simp: rt_refs_def dest: spec [of _ i])
  moreover have "rt_private ?t"
    using rt_invD(2) [OF inv] at(1) by (auto simp: rt_private_def) (metis holding.simps(3) insertI1)
  moreover have "rt_open ?t"
    using rt_invD(3) [OF inv] after_close_closed [OF inv, of i] at by (auto simp: rt_open_def)
  moreover have "rt_owned ?t"
    by (rule rt_owned_move [OF rt_invD(4) [OF inv], where i = i and x = "RStop n"]; use at in auto)
  ultimately show ?thesis by (simp add: rt_inv_def)
qed

lemma close_inv:
  assumes inv: "rt_inv s" and at: "rt_thread_at s i = SClose"
  shows "rt_inv (goto_rt i SSwap (s\<lparr>rt_closed := True\<rparr>))" (is "rt_inv ?t")
proof -
  have "rt_refs ?t" "rt_private ?t" "rt_open ?t"
    using rt_invD(1-3) [OF inv] by (auto simp: rt_refs_def rt_private_def rt_open_def)
  moreover have "rt_owned ?t"
    by (rule rt_owned_move [OF rt_invD(4) [OF inv], where i = i and x = SSwap]; use at in auto)
  ultimately show ?thesis by (simp add: rt_inv_def)
qed

lemma build_step_inv:
  assumes inv: "rt_inv s"
  shows "rt_inv (build_step failed i (rt_thread_at s i) s)"
proof (cases "rt_thread_at s i")
  case (BBuild seen)
  show ?thesis
  proof (cases failed)
    case None
    with allocate_inv [OF inv BBuild] BBuild show ?thesis by (simp add: add_slot_def)
  next
    case Some
    with BBuild inv show ?thesis by (auto intro!: rt_inv_goto)
  qed
next
  case (BSwap seen n)
  have refs: "rt_refs s" using inv by (rule rt_invD)
  show ?thesis
  proof (cases "rt_current s = seen")
    case True
    with publish_inv [OF inv, of i n] BSwap show ?thesis by simp
  next
    case False
    with BSwap refs show ?thesis
      by (auto intro!: stop_inv [OF inv] simp: slot_for_own [OF refs] seen_stale_option rt_refs_def
          split: option.split)
  qed
next
  case (BCheck n)
  have "rt_inv (goto_rt i (RSwap n) s)" if "rt_closed s"
    using inv BCheck that by (auto intro!: rt_inv_goto)
  with keep_inv [OF inv BCheck] BCheck show ?thesis by simp
qed (use inv in simp_all)

lemma retract_step_inv:
  assumes inv: "rt_inv s"
  shows "rt_inv (retract_step i (rt_thread_at s i) s)"
proof (cases "rt_thread_at s i")
  case (RSwap n)
  with after_close_closed [OF inv, of i] have closed: "rt_closed s" by simp
  show ?thesis
  proof (cases "rt_current s = Some n")
    case True
    with RSwap closed show ?thesis by (auto intro!: unpublish_inv [OF inv])
  next
    case False
    with retire_inv [OF inv RSwap] RSwap show ?thesis by simp
  qed
next
  case (RStop n)
  with after_close_closed [OF inv, of i] have "rt_closed s" by simp
  with RStop show ?thesis by (auto intro!: stop_inv [OF inv])
qed (use inv in simp_all)

lemma shutdown_step_inv:
  assumes inv: "rt_inv s"
  shows "rt_inv (shutdown_step i (rt_thread_at s i) s)"
proof (cases "rt_thread_at s i")
  case SClose
  with close_inv [OF inv SClose] show ?thesis by simp
next
  case SSwap
  with after_close_closed [OF inv, of i] have closed: "rt_closed s" by simp
  have "rt_refs s" using inv by (rule rt_invD)
  with SSwap closed show ?thesis
    by (auto intro!: unpublish_inv [OF inv] simp: slot_for_own split: option.split)
next
  case (SStop n)
  with after_close_closed [OF inv, of i] have "rt_closed s" by simp
  with SStop show ?thesis by (auto intro!: stop_inv [OF inv])
qed (use inv in simp_all)

lemma call_inv:
  assumes "rt_inv s" "resting (rt_thread_at s i)" "x \<in> {HClosed, SClose}"
  shows "rt_inv (goto_rt i x s)"
  using assms by (cases "rt_thread_at s i") (auto intro!: rt_inv_goto)

lemma fork_inv:
  assumes "rt_inv s" "p \<notin> rs_pid ` set (rt_slots s)"
  shows "rt_inv (s\<lparr>rt_pid := p, rt_thread_at := (\<lambda>_. Idle)\<rparr>)"
proof -
  have "\<not> own (s\<lparr>rt_pid := p, rt_thread_at := (\<lambda>_. Idle)\<rparr>) n" for n
    using assms(2) by (auto simp: own_def)
  with assms(1) show ?thesis by (auto simp: rt_inv_def rt_inv_defs)
qed

lemma thread_step_inv: "rt_inv s \<Longrightarrow> rt_inv (thread_step failed i s)"
  using handle_step_inv [of s i] build_step_inv [of s failed i] retract_step_inv [of s i]
    shutdown_step_inv [of s i]
  by (cases "rt_thread_at s i") (auto simp: thread_step_def)

lemma rt_step_inv: "rt_step s t \<Longrightarrow> rt_inv s \<Longrightarrow> rt_inv t"
  by (induction rule: rt_step.induct)
    (auto intro: call_inv thread_step_inv fork_inv)

lemma rt_reach_inv: "rt_reach pid s \<Longrightarrow> rt_inv s"
  by (induction rule: rt_reach.induct) (auto intro: rt_inv_new rt_step_inv)


section \<open>The retry loop\<close>

text \<open>
  Within a process, \<^verbatim>\<open>current\<close> only leaves a pointer a thread saw for null or for a slot of the
  process itself.
\<close>

fun saw :: "rt_thread \<Rightarrow> nat option set" where
  "saw (BBuild seen) = {seen}"
| "saw (BSwap seen n) = {seen}"
| "saw _ = {}"

definition own_current :: "rt_sys \<Rightarrow> bool" where
  "own_current s \<longleftrightarrow> (\<exists>n. rt_current s = Some n \<and> own s n)"

definition rt_follow :: "rt_sys \<Rightarrow> bool" where
  "rt_follow s \<longleftrightarrow>
     (\<forall>i. \<forall>seen \<in> saw (rt_thread_at s i).
        rt_current s = seen \<or> rt_current s = None \<or> own_current s)"

fun steps_left :: "rt_thread \<Rightarrow> nat" where
  "steps_left HClosed = 9"
| "steps_left HCurrent = 8"
| "steps_left (BBuild (Some m)) = 7"
| "steps_left (BSwap (Some m) n) = 6"
| "steps_left (BBuild None) = 5"
| "steps_left (BSwap None n) = 4"
| "steps_left (BCheck n) = 3"
| "steps_left (RSwap n) = 2"
| "steps_left (RStop n) = 1"
| "steps_left SClose = 3"
| "steps_left SSwap = 2"
| "steps_left (SStop n) = 1"
| "steps_left _ = 0"

lemma steps_left_build: "steps_left (BBuild c) = (if c = None then 5 else 7)"
  by (cases c) simp_all

lemma steps_left_bound: "steps_left t \<le> 9"
  by (cases t rule: steps_left.cases) auto

lemma thread_step_follow:
  assumes "rt_inv s" "rt_follow s"
  shows "rt_follow (thread_step failed i s)"
proof -
  have refs: "rt_refs s" using assms(1) by (rule rt_invD)
  have held: "holding (rt_thread_at s i) \<subseteq> {n. own s n}" using refs by (auto simp: rt_refs_def)
  show ?thesis
    using assms(2) held assms(2) [unfolded rt_follow_def, rule_format, of _ i]
    by (cases "rt_thread_at s i")
      (auto simp: thread_step_def rt_follow_def own_current_def slot_for_own [OF refs]
          add_slot_def [symmetric]
        split: option.split if_splits)
qed

lemma rt_reach_follow: "rt_reach pid s \<Longrightarrow> rt_follow s"
proof (induction rule: rt_reach.induct)
  case rt_reach_new
  show ?case by (simp add: rt_follow_def runtime_new_def)
next
  case (rt_reach_step s t)
  from rt_reach_step.hyps(2) rt_reach_step.IH show ?case
  proof cases
    case (run failed i)
    with rt_reach_step thread_step_follow rt_reach_inv show ?thesis by blast
  qed (auto simp: rt_follow_def own_current_def)
qed


section \<open>Schedules\<close>

datatype rt_op = CallHandle nat | CallShutdown nat | Run nat | Fork nat

fun rt_op_ok :: "rt_op \<Rightarrow> rt_sys \<Rightarrow> bool" where
  "rt_op_ok (CallHandle i) s = resting (rt_thread_at s i)"
| "rt_op_ok (CallShutdown i) s = resting (rt_thread_at s i)"
| "rt_op_ok (Run i) s = True"
| "rt_op_ok (Fork p) s = (p \<noteq> rt_pid s \<and> p \<notin> set (map rs_pid (rt_slots s)))"

fun rt_exec1 :: "rt_op \<Rightarrow> rt_sys \<Rightarrow> rt_sys" where
  "rt_exec1 (CallHandle i) s = goto_rt i HClosed s"
| "rt_exec1 (CallShutdown i) s = goto_rt i SClose s"
| "rt_exec1 (Run i) s = thread_step None i s"
| "rt_exec1 (Fork p) s = s\<lparr>rt_pid := p, rt_thread_at := (\<lambda>_. Idle)\<rparr>"

fun rt_exec :: "rt_op list \<Rightarrow> rt_sys \<Rightarrow> rt_sys option" where
  "rt_exec [] s = Some s"
| "rt_exec (x # xs) s = (if rt_op_ok x s then rt_exec xs (rt_exec1 x s) else None)"

lemma rt_exec1_step: "rt_op_ok x s \<Longrightarrow> rt_step s (rt_exec1 x s)"
  by (cases x) (auto intro: rt_step.intros)

lemma rt_exec_reach: "rt_exec xs s = Some t \<Longrightarrow> rt_reach pid s \<Longrightarrow> rt_reach pid t"
  by (induction xs arbitrary: s)
    (auto split: if_splits intro: rt_exec1_step rt_reach.rt_reach_step)

definition rt_after :: "rt_op list \<Rightarrow> rt_sys" where
  "rt_after xs = the (rt_exec xs (runtime_new 10))"

lemma rt_after_reach: "rt_exec xs (runtime_new 10) \<noteq> None \<Longrightarrow> rt_reach 10 (rt_after xs)"
  by (auto simp: rt_after_def intro: rt_exec_reach rt_reach_new)

text \<open>
  Two threads race on the first request; the process forks and its child builds its own runtime;
  a shutdown overtakes a build.
\<close>

definition race :: "rt_op list" where
  "race = [CallHandle 0, CallHandle 1, Run 0, Run 0, Run 0, Run 1, Run 1, Run 1, Run 0, Run 0, Run 1]"

definition fork_race :: "rt_op list" where
  "fork_race = race @ [Fork 20, CallHandle 0, Run 0, Run 0, Run 0]"

definition child_request :: "rt_op list" where
  "child_request = fork_race @ [Run 0, Run 0]"

definition late_install :: "rt_op list" where
  "late_install =
     fork_race @ [CallShutdown 1, Run 1, Run 1, Run 0, Run 0, Run 0, Run 0, Run 0, Run 0]"

lemma rt_exec_append:
  "rt_exec (xs @ ys) s = (case rt_exec xs s of None \<Rightarrow> None | Some t \<Rightarrow> rt_exec ys t)"
  by (induction xs arbitrary: s) auto

lemmas rt_exec_simps =
  thread_step_def slot_for_def stop_slot_def goto_rt_def runtime_new_def rt_exec_append

lemma race_runs:
  "rt_exec race (runtime_new 10) =
     Some \<lparr>rt_current = Some 0, rt_closed = False,
       rt_slots = [\<lparr>rs_pid = 10, rs_running = True\<rparr>, \<lparr>rs_pid = 10, rs_running = False\<rparr>], rt_pid = 10,
       rt_thread_at = (\<lambda>_. Idle)(0 := Got 0, 1 := Got 0)\<rparr>"
  by (simp add: race_def rt_exec_simps)

lemma fork_race_runs:
  "rt_exec fork_race (runtime_new 10) =
     Some \<lparr>rt_current = Some 0, rt_closed = False,
       rt_slots = [\<lparr>rs_pid = 10, rs_running = True\<rparr>, \<lparr>rs_pid = 10, rs_running = False\<rparr>,
         \<lparr>rs_pid = 20, rs_running = True\<rparr>], rt_pid = 20,
       rt_thread_at = (\<lambda>_. Idle)(0 := BSwap (Some 0) 2)\<rparr>"
  unfolding fork_race_def rt_exec_append race_runs by (simp add: rt_exec_simps numeral_2_eq_2)

lemma child_request_runs:
  "rt_exec child_request (runtime_new 10) =
     Some \<lparr>rt_current = Some 2, rt_closed = False,
       rt_slots = [\<lparr>rs_pid = 10, rs_running = True\<rparr>, \<lparr>rs_pid = 10, rs_running = False\<rparr>,
         \<lparr>rs_pid = 20, rs_running = True\<rparr>], rt_pid = 20,
       rt_thread_at = (\<lambda>_. Idle)(0 := Got 2)\<rparr>"
  unfolding child_request_def rt_exec_append fork_race_runs by (simp add: rt_exec_simps numeral_2_eq_2)

lemma late_install_runs:
  "rt_exec late_install (runtime_new 10) =
     Some \<lparr>rt_current = None, rt_closed = True,
       rt_slots = [\<lparr>rs_pid = 10, rs_running = True\<rparr>, \<lparr>rs_pid = 10, rs_running = False\<rparr>,
         \<lparr>rs_pid = 20, rs_running = False\<rparr>, \<lparr>rs_pid = 20, rs_running = False\<rparr>], rt_pid = 20,
       rt_thread_at = (\<lambda>_. Idle)(0 := Raised runtime_closed_error, 1 := ShutDown)\<rparr>"
  unfolding late_install_def rt_exec_append fork_race_runs
  by (simp add: rt_exec_simps numeral_2_eq_2 numeral_3_eq_3 fun_upd_twist)


section \<open>What callers rely on\<close>

text \<open>
  C7. \<open>handle\<close> only ever returns a runtime built by the process that called it, never one inherited
  across a fork, and until \<open>shutdown\<close> all threads of a process hold the same one, which is running.
\<close>

theorem handle_own_runtime:
  assumes "rt_reach pid s" "rt_thread_at s i = Got n"
  shows "n < length (rt_slots s) \<and> rs_pid (rt_slots s ! n) = rt_pid s \<and>
    (\<not> rt_closed s \<longrightarrow>
       rs_running (rt_slots s ! n) \<and> (\<forall>j m. rt_thread_at s j = Got m \<longrightarrow> m = n))"
proof -
  have "rt_refs s" "rt_open s" using rt_reach_inv [OF assms(1)] by (rule rt_invD)+
  have current: "rt_current s = Some m" if "\<not> rt_closed s" "rt_thread_at s j = Got m" for j m
    using \<open>rt_open s\<close> that has_handle.simps(2) [of m] unfolding rt_open_def by (metis singletonI)
  have "n \<in> has_handle (rt_thread_at s i)" using assms(2) by simp
  with \<open>rt_refs s\<close> have own: "own s n" unfolding rt_refs_def by blast
  with \<open>rt_open s\<close> current [OF _ assms(2)] have "\<not> rt_closed s \<Longrightarrow> rs_running (rt_slots s ! n)"
    unfolding rt_open_def by blast
  moreover have "m = n" if "\<not> rt_closed s" "rt_thread_at s j = Got m" for j m
    using current [OF that] current [OF that(1) assms(2)] by simp
  ultimately show ?thesis using own unfolding own_def by blast
qed

lemma handle_own_runtime_witness:
  "\<exists>n. rt_thread_at (rt_after child_request) 0 = Got n \<and>
     rs_pid (rt_slots (rt_after child_request) ! n) = 20 \<and>
     rs_running (rt_slots (rt_after child_request) ! n)"
proof -
  let ?s = "rt_after child_request"
  have "rt_reach 10 ?s" by (rule rt_after_reach) (simp add: child_request_runs)
  moreover have "rt_thread_at ?s 0 = Got 2" "\<not> rt_closed ?s" "rt_pid ?s = 20"
    by (simp_all add: rt_after_def child_request_runs)
  ultimately show ?thesis using handle_own_runtime [of 10 ?s 0 2] by metis
qed

text \<open>
  C8. Once \<open>shutdown\<close> has set its flag and every call that was under way has returned, no runtime of
  the process is left running: the one it took, and any a racing \<open>build\<close> installed behind it, have
  been shut down.
\<close>

theorem nothing_outlives_shutdown:
  assumes "rt_reach pid s" "rt_closed s" "\<forall>i. resting (rt_thread_at s i)"
  shows "\<forall>slot \<in> set (rt_slots s). rs_pid slot = rt_pid s \<longrightarrow> \<not> rs_running slot"
proof -
  have owned: "rt_owned s" using rt_reach_inv [OF assms(1)] by (rule rt_invD)
  have free: "holding (rt_thread_at s i) = {}" and gone: "\<not> will_retire (rt_thread_at s i) n" for i n
    using assms(3) [rule_format, of i] by (cases "rt_thread_at s i"; simp)+
  have "\<not> rs_running (rt_slots s ! n)" if "own s n" for n
    using owned free assms(2) that gone unfolding rt_owned_def by (metis emptyE)
  then show ?thesis by (auto simp: in_set_conv_nth own_def)
qed

lemma nothing_outlives_shutdown_witness:
  "map rs_pid (rt_slots (rt_after late_install)) = [10, 10, 20, 20] \<and>
   \<not> rs_running (rt_slots (rt_after late_install) ! 2) \<and>
   \<not> rs_running (rt_slots (rt_after late_install) ! 3)"
proof -
  let ?s = "rt_after late_install"
  have "rt_reach 10 ?s" by (rule rt_after_reach) (simp add: late_install_runs)
  moreover have "\<forall>i. resting (rt_thread_at ?s i)" "rt_closed ?s" "rt_pid ?s = 20"
    "map rs_pid (rt_slots ?s) = [10, 10, 20, 20]"
    by (simp_all add: rt_after_def late_install_runs)
  ultimately show ?thesis using nothing_outlives_shutdown [of 10 ?s] by (auto simp: map_eq_Cons_conv)
qed

text \<open>
  C10. The build loop cannot spin: however the other threads run, a call of \<open>handle\<close> or of
  \<open>shutdown\<close> returns within nine steps of its own, since a lost exchange is tried again at most
  once, against null, after the pointer first seen was an inherited one.
\<close>

theorem runtime_wait_free:
  assumes "rt_reach pid s" "\<not> resting (rt_thread_at s i)"
  shows "steps_left (rt_thread_at (thread_step failed i s) i) < steps_left (rt_thread_at s i) \<and>
    steps_left (rt_thread_at s i) \<le> 9 \<and>
    (\<forall>j. j \<noteq> i \<longrightarrow> rt_thread_at (thread_step failed i s) j = rt_thread_at s j)"
proof -
  have refs: "rt_refs s" using rt_reach_inv [OF assms(1)] by (rule rt_invD)
  have mine: "rt_current s = c \<or> rt_current s = None \<or> own_current s"
    if "c \<in> saw (rt_thread_at s i)" for c
    using rt_reach_follow [OF assms(1)] that by (auto simp: rt_follow_def)
  have "steps_left (rt_thread_at (thread_step failed i s) i) < steps_left (rt_thread_at s i)"
    using assms(2) mine
    by (cases "rt_thread_at s i" rule: steps_left.cases)
      (auto simp: thread_step_def own_current_def slot_for_own [OF refs] steps_left_build
        split: option.split)
  moreover have "rt_thread_at (thread_step failed i s) j = rt_thread_at s j" if "j \<noteq> i" for j
    using that by (auto simp: thread_step_def split: rt_thread.split option.split)
  ultimately show ?thesis using steps_left_bound by simp
qed

lemma runtime_wait_free_witness:
  "steps_left (rt_thread_at (thread_step None 0 (rt_after fork_race)) 0) <
   steps_left (rt_thread_at (rt_after fork_race) 0)"
proof -
  let ?s = "rt_after fork_race"
  have "rt_reach 10 ?s" by (rule rt_after_reach) (simp add: fork_race_runs)
  moreover have "\<not> resting (rt_thread_at ?s 0)" by (simp add: rt_after_def fork_race_runs)
  ultimately show ?thesis using runtime_wait_free [of 10 ?s 0 None] by blast
qed

text \<open>Once the flag is up it stays up, and a thread at rest never gets a runtime again.\<close>

definition refused :: "rt_thread \<Rightarrow> bool" where
  "refused t \<longleftrightarrow>
     t \<in> {Idle, HClosed, Raised runtime_closed_error, SClose, SSwap, ShutDown} \<or> (\<exists>n. t = SStop n)"

lemma closed_step:
  assumes "rt_step s t" "rt_closed s" "resting (rt_thread_at s i) \<or> refused (rt_thread_at s i)"
  shows "rt_closed t \<and> (rt_thread_at t i = rt_thread_at s i \<or> refused (rt_thread_at t i))"
  using assms(1)
proof cases
  case (run failed j)
  with assms(2,3) show ?thesis
    by (cases "j = i"; cases "rt_thread_at s j")
      (auto simp: thread_step_def refused_def split: option.splits)
qed (use assms(2) in \<open>auto simp: refused_def\<close>)

text \<open>
  After \<open>shutdown\<close> has begun, a thread that was not inside a call never gets a runtime again:
  in every later state it has been refused with the closed error, or is about to be.
\<close>

theorem shutdown_is_final:
  assumes "rt_step\<^sup>*\<^sup>* s t" "rt_closed s" "resting (rt_thread_at s i)"
  shows "rt_closed t \<and> (rt_thread_at t i = rt_thread_at s i \<or> refused (rt_thread_at t i))"
  using assms(1)
proof (induction rule: rtranclp_induct)
  case base
  show ?case using assms(2) by simp
next
  case (step t u)
  with assms(3) closed_step [OF step.hyps(2), of i] show ?case by auto
qed

lemma shutdown_is_final_witness:
  "refused (rt_thread_at (thread_step None 0 (goto_rt 0 HClosed (rt_after late_install))) 0)"
proof -
  let ?s = "rt_after late_install" and ?t = "goto_rt 0 HClosed (rt_after late_install)"
  have s: "rt_closed ?s" "resting (rt_thread_at ?s 0)"
    by (simp_all add: rt_after_def late_install_runs)
  have "rt_step ?s ?t" using s by (intro call_handle)
  moreover have "rt_step ?t (thread_step None 0 ?t)" by (rule run)
  ultimately have "rt_step\<^sup>*\<^sup>* ?s (thread_step None 0 ?t)" by simp
  from shutdown_is_final [OF this s] show ?thesis
    by (auto simp: rt_after_def late_install_runs refused_def)
qed


section \<open>Where a future runs\<close>

text \<open>
  \<^verbatim>\<open>Bridge::spawn\<close>: the handle handed in through the thread-local \<open>cell\<close>, or else the
  runtime the calling thread is a worker of, \<open>ambient\<close>; \<open>fallback\<close> is what asking \<open>handle\<close>
  again would give, and \<open>None\<close> is its panic.  \<^verbatim>\<open>spawn_blocking\<close> does not look at the cell.
\<close>

definition bridge_spawn :: "nat option \<Rightarrow> nat option \<Rightarrow> py_err + nat \<Rightarrow> nat option" where
  "bridge_spawn cell ambient fallback =
     (case cell of
        Some h \<Rightarrow> Some h
      | None \<Rightarrow>
          (case ambient of
             Some h \<Rightarrow> Some h
           | None \<Rightarrow> (case fallback of Inr h \<Rightarrow> Some h | Inl _ \<Rightarrow> None)))"

definition bridge_spawn_blocking :: "nat option \<Rightarrow> py_err + nat \<Rightarrow> nat option" where
  "bridge_spawn_blocking ambient fallback = bridge_spawn None ambient fallback"

text \<open>
  \<^verbatim>\<open>future_into_py\<close> with the calls \<^verbatim>\<open>pyo3-async-runtimes\<close> makes: one spawn on the calling
  thread while the cell is set, and from inside that task a second spawn and the blocking call that
  delivers the result.  \<open>caller\<close> is the tokio runtime the calling thread happens to be inside.
\<close>

definition future_spawns ::
  "py_err + nat \<Rightarrow> nat option \<Rightarrow> (nat \<Rightarrow> py_err + nat) \<Rightarrow> py_err + nat option list" where
  "future_spawns handle caller fallback =
     (case handle of
        Inl e \<Rightarrow> Inl e
      | Inr h \<Rightarrow>
          (let outer = bridge_spawn (Some h) caller (fallback 0);
               nested = bridge_spawn None outer (fallback 1);
               delivery = bridge_spawn_blocking outer (fallback 2)
           in Inr [outer, nested, delivery]))"

text \<open>
  A future and the delivery of its result run on the runtime \<open>handle\<close> resolved, whatever runtime
  the caller is inside and even if \<open>handle\<close> would refuse by then, as it does during
  \<open>shutdown\<close>; nothing panics.
\<close>

lemma future_spawns_on_handle:
  "future_spawns (Inr h) caller fallback = Inr [Some h, Some h, Some h]"
  by (simp add: future_spawns_def bridge_spawn_def bridge_spawn_blocking_def Let_def)

text \<open>
  \<^verbatim>\<open>Bridge::scope\<close> and \<^verbatim>\<open>get_task_locals\<close>: a task sees the cell of the innermost scope
  around it, a write-once cell, or none.  \<open>None\<close> from \<open>task_scope\<close> is its \<^verbatim>\<open>expect\<close> failing.
\<close>

type_synonym 'l task_cell = "'l option"

definition cell_set :: "'l \<Rightarrow> 'l task_cell \<Rightarrow> ('l task_cell) option" where
  "cell_set v c = (case c of None \<Rightarrow> Some (Some v) | Some _ \<Rightarrow> None)"

definition task_scope ::
  "'l \<Rightarrow> ('l task_cell option \<Rightarrow> 'a) \<Rightarrow> ('l task_cell option \<Rightarrow> 'a) option" where
  "task_scope locals fut = map_option (\<lambda>cell outer. fut (Some cell)) (cell_set locals None)"

definition get_task_locals :: "'l task_cell option \<Rightarrow> 'l option" where
  "get_task_locals at = (case at of None \<Rightarrow> None | Some cell \<Rightarrow> cell)"

text \<open>A scoped future sees the locals it was given, in whatever scope it is awaited; setting them never fails.\<close>

lemma task_scope_locals:
  "\<exists>g. task_scope l (\<lambda>at. f at (get_task_locals at)) = Some g \<and> (\<forall>outer. g outer = f (Some (Some l)) (Some l))"
  by (simp add: task_scope_def cell_set_def get_task_locals_def)

text \<open>\<^verbatim>\<open>prepare_fork\<close>, with its \<^verbatim>\<open>Once\<close>; \<open>build\<close> is what building a client does to the process.\<close>

definition prepare_fork :: "('w \<Rightarrow> 'w) \<Rightarrow> bool \<times> 'w \<Rightarrow> bool \<times> 'w" where
  "prepare_fork build s = (case s of (done, w) \<Rightarrow> if done then (done, w) else (True, build w))"

text \<open>However often a process forks, it builds one client.\<close>

lemma prepare_fork_once: "(prepare_fork build ^^ Suc n) (False, w) = (True, build w)"
  by (induction n) (simp_all add: prepare_fork_def)

end
