(* ===== verification/Rqx_Aiter.thy ===== *)
theory Rqx_Aiter
  imports Rqx_Iter
begin

text \<open>
  The asynchronous iterators of \<^verbatim>\<open>rqx/src/stream.rs\<close> under concurrency: any number of
  \<^verbatim>\<open>__anext__\<close> futures of one iterator, each of which may be cancelled, and closes of the
  response, in any order.

  The iterator's state is behind a mutex that a future holds from its first poll to its end.  A
  future gives way to others only where it awaits: at the mutex and at \<^verbatim>\<open>next_chunk\<close>.  What it
  does in between is one step here; \<open>Rqx_Live\<close> has the steps of \<^verbatim>\<open>next_chunk\<close> and
  \<^verbatim>\<open>close\<close> themselves.  Dropping a future that awaits \<^verbatim>\<open>next_chunk\<close> consumes nothing of
  the stream.
\<close>

datatype 'p anext_call =
    AQueued | ATurn | APull
  | AReturned 'p | AStopped | ARaised rqx_error | APanicked | ACancelled

record ('it, 'p) anext_sys =
  an_live :: live
  an_iter :: 'it
  an_owner :: "nat option"
  an_call :: "nat \<Rightarrow> 'p anext_call"
  an_pieces :: "'p list"

text \<open>The head of the loop, up to the await or the return; \<open>AStopped\<close> is \<^verbatim>\<open>StopAsyncIteration\<close>.\<close>

definition anext_turn :: "('it, 'p) iter_ops \<Rightarrow> live \<Rightarrow> 'it \<Rightarrow> 'it \<times> 'p anext_call" where
  "anext_turn ops l it =
     (case (if it_finished ops it then Inr () else check_open l) of
        Inl e \<Rightarrow> (it, ARaised e)
      | Inr _ \<Rightarrow>
          (case it_pop ops it of
             None \<Rightarrow> (it, APanicked)
           | Some (Some p, it1) \<Rightarrow> (it1, AReturned p)
           | Some (None, it1) \<Rightarrow>
               if it_finished ops it1 then
                 (case it_flush ops it1 of
                    None \<Rightarrow> (it1, APanicked)
                  | Some (Some p, it2) \<Rightarrow> (it2, AReturned p)
                  | Some (None, it2) \<Rightarrow> (it2, AStopped))
               else (it1, APull)))"

text \<open>The rest of the loop, when \<^verbatim>\<open>next_chunk\<close> has an answer.\<close>

definition anext_pull :: "('it, 'p) iter_ops \<Rightarrow> live \<Rightarrow> 'it \<Rightarrow> live \<times> 'it \<times> 'p anext_call" where
  "anext_pull ops l it =
     (case live_next l of
        (l1, Inl e) \<Rightarrow> (l1, it, ARaised e)
      | (l1, Inr (Some b)) \<Rightarrow>
          (case it_data ops b it of None \<Rightarrow> (l1, it, APanicked) | Some it1 \<Rightarrow> (l1, it1, ATurn))
      | (l1, Inr None) \<Rightarrow>
          (case it_end ops it of None \<Rightarrow> (l1, it, APanicked) | Some it1 \<Rightarrow> (l1, it1, ATurn)))"

fun in_loop :: "'p anext_call \<Rightarrow> bool" where
  "in_loop ATurn = True"
| "in_loop APull = True"
| "in_loop _ = False"

fun piece_of :: "'p anext_call \<Rightarrow> 'p list" where
  "piece_of (AReturned p) = [p]"
| "piece_of _ = []"

text \<open>A future moves to \<open>c\<close>: one that leaves the loop drops the lock.\<close>

definition anext_goto :: "nat \<Rightarrow> 'p anext_call \<Rightarrow> ('it, 'p) anext_sys \<Rightarrow> ('it, 'p) anext_sys" where
  "anext_goto i c s =
     s\<lparr>an_call := (an_call s)(i := c), an_owner := if in_loop c then Some i else None,
       an_pieces := an_pieces s @ piece_of c\<rparr>"

inductive anext_step :: "('it, 'p) iter_ops \<Rightarrow> ('it, 'p) anext_sys \<Rightarrow> ('it, 'p) anext_sys \<Rightarrow> bool"
  for ops where
  a_lock: "an_call s i = AQueued \<Longrightarrow> an_owner s = None \<Longrightarrow> anext_step ops s (anext_goto i ATurn s)"
| a_turn: "an_call s i = ATurn \<Longrightarrow> anext_turn ops (an_live s) (an_iter s) = (it, c) \<Longrightarrow>
    anext_step ops s (anext_goto i c (s\<lparr>an_iter := it\<rparr>))"
| a_pull: "an_call s i = APull \<Longrightarrow> anext_pull ops (an_live s) (an_iter s) = (l, it, c) \<Longrightarrow>
    anext_step ops s (anext_goto i c (s\<lparr>an_live := l, an_iter := it\<rparr>))"
| a_cancel_queued: "an_call s i = AQueued \<Longrightarrow>
    anext_step ops s (s\<lparr>an_call := (an_call s)(i := ACancelled)\<rparr>)"
| a_cancel_pull: "an_call s i = APull \<Longrightarrow> anext_step ops s (anext_goto i ACancelled s)"
| a_close: "anext_step ops s (s\<lparr>an_live := live_close (an_live s)\<rparr>)"

text \<open>Every future is there from the start, waiting for the mutex.\<close>

definition anext_init :: "live \<Rightarrow> 'it \<Rightarrow> ('it, 'p) anext_sys" where
  "anext_init l it =
     \<lparr>an_live = l, an_iter = it, an_owner = None, an_call = (\<lambda>_. AQueued), an_pieces = []\<rparr>"

inductive anext_reach ::
  "('it, 'p) iter_ops \<Rightarrow> live \<Rightarrow> 'it \<Rightarrow> ('it, 'p) anext_sys \<Rightarrow> bool" for ops l it where
  anext_reach_init: "anext_reach ops l it (anext_init l it)"
| anext_reach_step: "anext_reach ops l it s \<Longrightarrow> anext_step ops s t \<Longrightarrow> anext_reach ops l it t"

lemma anext_goto_simps [simp]:
  "an_live (anext_goto i c s) = an_live s" "an_iter (anext_goto i c s) = an_iter s"
  "an_owner (anext_goto i c s) = (if in_loop c then Some i else None)"
  "an_call (anext_goto i c s) = (an_call s)(i := c)"
  "an_pieces (anext_goto i c s) = an_pieces s @ piece_of c"
  by (simp_all add: anext_goto_def)


section \<open>A future left alone is the synchronous iterator\<close>

function anext_run :: "('it, 'p) iter_ops \<Rightarrow> live \<Rightarrow> 'it \<Rightarrow> live \<times> 'it \<times> 'p anext_call" where
  "anext_run ops l it =
     (case anext_turn ops l it of
        (it1, APull) \<Rightarrow>
          (case anext_pull ops l it1 of
             (l2, it2, ATurn) \<Rightarrow> anext_run ops l2 it2
           | r \<Rightarrow> r)
      | (it1, c) \<Rightarrow> (l, it1, c))"
  by pat_completeness auto
termination
  by (relation "measure (\<lambda>(ops, l, it). live_size l)")
    (auto simp: anext_pull_def dest: live_next_size
      split: prod.splits sum.splits option.splits)

declare anext_run.simps [simp del]

lemma anext_run_done:
  "anext_turn ops l it = (it1, c) \<Longrightarrow> c \<noteq> APull \<Longrightarrow> anext_run ops l it = (l, it1, c)"
  by (subst anext_run.simps) (simp split: anext_call.split)

lemma anext_run_pull:
  "anext_turn ops l it = (it1, APull) \<Longrightarrow> anext_run ops l it =
     (case anext_pull ops l it1 of (l2, it2, ATurn) \<Rightarrow> anext_run ops l2 it2 | r \<Rightarrow> r)"
  by (subst anext_run.simps) simp

fun anext_result :: "rqx_error + 'p option \<Rightarrow> 'p anext_call" where
  "anext_result (Inl e) = ARaised e"
| "anext_result (Inr None) = AStopped"
| "anext_result (Inr (Some p)) = AReturned p"

text \<open>One round of \<^verbatim>\<open>__next__\<close>, in the steps of \<^verbatim>\<open>__anext__\<close>.\<close>

lemma iter_next_round:
  assumes "iter_next ops l it = Some (l', it', r)"
  shows "anext_turn ops l it = (it', anext_result r) \<and> l' = l \<or>
    (\<exists>it1. anext_turn ops l it = (it1, APull) \<and>
      (anext_pull ops l it1 = (l', it', anext_result r) \<or>
       (\<exists>l1 it2. anext_pull ops l it1 = (l1, it2, ATurn) \<and> live_size l1 < live_size l \<and>
         iter_next ops l1 it2 = Some (l', it', r))))"
proof (cases "if it_finished ops it then Inr () else check_open l")
  case (Inl e)
  with assms show ?thesis
    unfolding anext_turn_def iter_next.simps [of ops l it] Inl by auto
next
  case open_l: (Inr u)
  note here = assms [unfolded iter_next.simps [of ops l it] open_l]
  then obtain q it1 where pop: "it_pop ops it = Some (q, it1)" by (auto split: option.splits)
  show ?thesis
  proof (cases "q = None \<and> \<not> it_finished ops it1")
    case False
    with here show ?thesis unfolding anext_turn_def open_l pop by (auto split: option.splits)
  next
    case True
    then have "anext_turn ops l it = (it1, APull)" unfolding anext_turn_def open_l pop by simp
    moreover obtain l1 x where "live_next l = (l1, x)" by force
    ultimately show ?thesis
      using here True pop live_next_size [of l l1] by (cases x) (auto simp: anext_pull_def split: option.splits)
  qed
qed

text \<open>
  C15. The asynchronous classes iterate as the synchronous ones do: an \<^verbatim>\<open>__anext__\<close> future that
  runs undisturbed leaves the iterator and the stream as \<^verbatim>\<open>__next__\<close> does and returns the same
  piece, error or end.
\<close>

theorem anext_agrees:
  assumes "iter_next ops l it = Some (l', it', r)"
  shows "anext_run ops l it = (l', it', anext_result r)"
  using assms
proof (induction "live_size l" arbitrary: l it rule: less_induct)
  case less
  have "anext_result r \<noteq> APull" "anext_result r \<noteq> ATurn" by (cases r rule: anext_result.cases; simp)+
  with iter_next_round [OF less.prems] less.hyps show ?case
    by (cases r rule: anext_result.cases) (auto simp: anext_run_done anext_run_pull)
qed

lemma anext_agrees_witness:
  "anext_run byte_ops (live_new (map Data [[1], [2, 3]])) (byte_start (Some 2)) =
    (\<lparr>slot = Some [], closed = False, permit = False\<rparr>,
     \<lparr>bi_chunker = \<lparr>bc_size = Some 2, carry = [], head = [3]\<rparr>, bi_finished = False\<rparr>, AReturned [1, 2])"
proof -
  have "iter_next byte_ops (live_new (map Data [[1], [2, 3]])) (byte_start (Some 2)) =
    Some (\<lparr>slot = Some [], closed = False, permit = False\<rparr>,
      \<lparr>bi_chunker = \<lparr>bc_size = Some 2, carry = [], head = [3]\<rparr>, bi_finished = False\<rparr>, Inr (Some [1, 2]))"
    by code_simp
  then show ?thesis using anext_agrees by fastforce
qed


section \<open>Any number of futures\<close>

lemma live_next_cases:
  assumes "live_next l = (l', r)"
  shows "(\<exists>e. r = Inl e \<and> (closed l' \<or> slot l' = None) \<and> (closed l \<longrightarrow> closed l')) \<or>
    (\<not> closed l \<and> \<not> permit l \<and> \<not> closed l' \<and> \<not> permit l' \<and>
      ((\<exists>b n. slot l = Some (Data b # n) \<and> slot l' = Some n \<and> r = Inr (Some b)) \<or>
       (slot l = Some [] \<and> slot l' = None \<and> r = Inr None)))"
proof (cases "closed l \<or> permit l \<or> slot l = None")
  case True
  with assms show ?thesis by (auto simp: live_next_def check_open_def split: option.splits if_splits)
next
  case False
  then obtain n where n: "slot l = Some n" by auto
  with False assms show ?thesis
    by (cases n rule: poll_net.cases) (auto simp: live_next_def check_open_def)
qed

context piece_iterator
begin

text \<open>
  What has been handed out, \<open>ps\<close>, and what the iterator still holds or will read make up the whole
  iteration of the chunks \<open>bs0\<close>; \<open>tail\<close> is what ends the stream.
\<close>

definition accounts :: "'it \<Rightarrow> bytes list \<Rightarrow> net \<Rightarrow> live \<Rightarrow> 'it \<Rightarrow> 'p list \<Rightarrow> bool" where
  "accounts it0 bs0 tail l it ps \<longleftrightarrow>
     ok it \<and>
     (if it_finished ops it then tail = [] \<and> out it0 bs0 True = ps @ out it [] True
      else \<exists>bs. (\<forall>e. out it0 bs0 e = ps @ out it bs e) \<and>
        (closed l \<or> slot l = None \<or> \<not> permit l \<and> slot l = Some (map Data bs @ tail)))"

lemma accounts_prefix:
  "accounts it0 bs0 tail l it ps \<Longrightarrow> \<exists>rest. out it0 bs0 (tail = []) = ps @ rest"
  by (auto simp: accounts_def split: if_splits)

lemma accounts_close: "accounts it0 bs0 tail l it ps \<Longrightarrow> accounts it0 bs0 tail (live_close l) it ps"
  unfolding accounts_def by (cases "it_finished ops it") (auto simp: live_close_def mark_closed_def)

lemma turn_accounts:
  assumes "accounts it0 bs0 tail l it ps" "anext_turn ops l it = (it', c)"
  shows "accounts it0 bs0 tail l it' (ps @ piece_of c) \<and>
    (c = APull \<longrightarrow> idle it' \<and> \<not> it_finished ops it') \<and>
    (c = AStopped \<longrightarrow> it_finished ops it' \<and> out it' [] True = []) \<and>
    (it_finished ops it \<longrightarrow> it_finished ops it') \<and> c \<noteq> APanicked"
proof (cases "if it_finished ops it then Inr () else check_open l")
  case (Inl e)
  with assms show ?thesis unfolding anext_turn_def Inl by auto
next
  case open_l: (Inr u)
  have ok: "ok it" using assms(1) by (simp add: accounts_def)
  obtain q it1 where pop: "it_pop ops it = Some (q, it1)" "ok it1" "it_finished ops it1 = it_finished ops it"
    and q: "case q of Some p \<Rightarrow> (\<forall>bs e. (it_finished ops it \<longrightarrow> bs = [] \<and> e) \<longrightarrow> out it bs e = p # out it1 bs e)
       | None \<Rightarrow> idle it1 \<and> out it [] False = [] \<and>
           (\<forall>bs e. (it_finished ops it \<longrightarrow> bs = [] \<and> e) \<longrightarrow> out it bs e = out it1 bs e)"
    using pop_law [OF ok] by blast
  have same: "accounts it0 bs0 tail l it1 (ps @ (case q of Some p \<Rightarrow> [p] | None \<Rightarrow> []))"
    using assms(1) pop(2,3) q by (cases q) (auto simp: accounts_def split: if_splits)
  show ?thesis
  proof (cases "q = None \<and> it_finished ops it1")
    case False
    with assms(2) same pop q show ?thesis
      unfolding anext_turn_def open_l pop(1) by (cases q) auto
  next
    case True
    with q obtain q' it2 where flush: "it_flush ops it1 = Some (q', it2)" "ok it2" "it_finished ops it2"
      "out it1 [] True = (case q' of None \<Rightarrow> [] | Some p \<Rightarrow> p # out it2 [] True)"
      "q' = None \<longrightarrow> out it2 [] True = []"
      using flush_law [OF pop(2)] by auto
    with assms(2) same True flush show ?thesis
      unfolding anext_turn_def open_l pop(1) by (cases q') (auto simp: accounts_def)
  qed
qed

lemma pull_accounts:
  assumes "accounts it0 bs0 tail l it ps" "idle it" "\<not> it_finished ops it"
    "tail = [] \<or> (\<exists>x. tail = [Fail x])" "anext_pull ops l it = (l', it', c)"
  shows "accounts it0 bs0 tail l' it' ps \<and> (c = ATurn \<or> (\<exists>e. c = ARaised e))"
proof -
  obtain l1 r where next_l: "live_next l = (l1, r)" by force
  obtain bs where ok: "ok it" and bs: "\<And>e. out it0 bs0 e = ps @ out it bs e"
    and at: "closed l \<or> slot l = None \<or> \<not> permit l \<and> slot l = Some (map Data bs @ tail)"
    using assms(1,3) by (auto simp: accounts_def)
  show ?thesis
  proof (cases r)
    case (Inl e)
    with live_next_cases [OF next_l] ok bs assms(3,5) next_l show ?thesis
      by (auto simp: anext_pull_def accounts_def)
  next
    case (Inr b)
    with live_next_cases [OF next_l] at have open_l: "\<not> closed l1" "\<not> permit l1"
      and got: "(\<exists>d n. slot l1 = Some n \<and> b = Some d \<and> map Data bs @ tail = Data d # n) \<or>
        (slot l1 = None \<and> b = None \<and> bs = [] \<and> tail = [])"
      by auto
    show ?thesis
    proof (cases b)
      case None
      with end_law [OF ok assms(2,3)] got bs next_l Inr assms(5) show ?thesis
        by (auto simp: anext_pull_def accounts_def)
    next
      case (Some d)
      with got assms(4) obtain bs' where bs': "bs = d # bs'" "slot l1 = Some (map Data bs' @ tail)"
        by (cases bs) auto
      with data_law [OF ok assms(2,3), of d] Some bs next_l Inr assms(5) open_l show ?thesis
        by (auto simp: anext_pull_def accounts_def)
    qed
  qed
qed

definition anext_inv :: "'it \<Rightarrow> bytes list \<Rightarrow> net \<Rightarrow> ('it, 'p) anext_sys \<Rightarrow> bool" where
  "anext_inv it0 bs0 tail s \<longleftrightarrow>
     accounts it0 bs0 tail (an_live s) (an_iter s) (an_pieces s) \<and>
     (\<forall>i. in_loop (an_call s i) \<longrightarrow> an_owner s = Some i) \<and>
     (\<forall>i. an_call s i = APull \<longrightarrow> idle (an_iter s) \<and> \<not> it_finished ops (an_iter s)) \<and>
     (\<forall>i. an_call s i = AStopped \<longrightarrow>
        it_finished ops (an_iter s) \<and> out it0 bs0 True = an_pieces s) \<and>
     (\<forall>i. an_call s i \<noteq> APanicked)"

lemma anext_inv_step:
  assumes "anext_step ops s t" "anext_inv it0 bs0 tail s" "tail = [] \<or> (\<exists>x. tail = [Fail x])"
  shows "anext_inv it0 bs0 tail t"
  using assms(1)
proof cases
  case (a_turn i it c)
  note inv = assms(2) [unfolded anext_inv_def]
  have turn: "accounts it0 bs0 tail (an_live s) it (an_pieces s @ piece_of c)"
    "c = APull \<longrightarrow> idle it \<and> \<not> it_finished ops it"
    "c = AStopped \<longrightarrow> it_finished ops it \<and> out it [] True = []"
    "it_finished ops (an_iter s) \<longrightarrow> it_finished ops it" "c \<noteq> APanicked"
    using turn_accounts [of it0 bs0 tail "an_live s" "an_iter s" "an_pieces s" it c] inv a_turn by auto
  have alone: "\<not> in_loop (an_call s j)" if "j \<noteq> i" for j
    using inv a_turn(2) that by (metis in_loop.simps(1) option.inject)
  have stopped: "it_finished ops it \<and> out it0 bs0 True = an_pieces s @ piece_of c"
    if "an_call s j = AStopped \<or> c = AStopped" for j
    using that turn inv by (auto simp: accounts_def)
  have loops: "in_loop (an_call t j) \<longrightarrow> an_owner t = Some j" for j
    using alone a_turn(1) by auto
  have "an_call t j = APull \<longrightarrow> idle it \<and> \<not> it_finished ops it" for j
    using alone [of j] turn(2) a_turn(1) by (cases "j = i") auto
  moreover have "an_call t j = AStopped \<longrightarrow> it_finished ops it \<and> out it0 bs0 True = an_pieces t" for j
    using stopped [of j] a_turn(1) by (auto split: if_splits)
  moreover have "an_call t j \<noteq> APanicked" for j
    using inv turn(5) a_turn(1) by auto
  ultimately show ?thesis
    using turn(1) loops a_turn(1) unfolding anext_inv_def by simp
next
  case (a_pull i l it c)
  note inv = assms(2) [unfolded anext_inv_def]
  have pull: "accounts it0 bs0 tail l it (an_pieces s)" "c = ATurn \<or> (\<exists>e. c = ARaised e)"
    using pull_accounts [of it0 bs0 tail "an_live s" "an_iter s" "an_pieces s" l it c]
      inv a_pull assms(3) by auto
  have "in_loop (an_call s j) \<Longrightarrow> j = i" for j
    using inv a_pull(2) by (metis in_loop.simps(2) option.inject)
  moreover have "an_call s j \<noteq> AStopped" for j
    using inv a_pull(2) by metis
  ultimately show ?thesis
    using pull inv a_pull(1) unfolding anext_inv_def by (auto split: if_splits)
next
  case (a_cancel_pull i)
  note inv = assms(2) [unfolded anext_inv_def]
  have "in_loop (an_call s j) \<Longrightarrow> j = i" for j
    using inv a_cancel_pull(2) by (metis in_loop.simps(2) option.inject)
  with inv a_cancel_pull show ?thesis unfolding anext_inv_def by (auto split: if_splits)
qed (use assms(2) in \<open>auto simp: anext_inv_def accounts_close\<close>)

lemma anext_reach_inv:
  assumes "anext_reach ops (live_new (map Data bs0 @ tail)) it0 s"
    "ok it0" "\<not> it_finished ops it0" "tail = [] \<or> (\<exists>x. tail = [Fail x])"
  shows "anext_inv it0 bs0 tail s"
  using assms(1)
proof induction
  case anext_reach_init
  show ?case
    using assms(2,3) by (auto simp: anext_inv_def anext_init_def accounts_def live_new_def)
next
  case (anext_reach_step s t)
  with anext_inv_step assms(4) show ?case by blast
qed

theorem handed_out_once:
  assumes "anext_reach ops (live_new (map Data bs0 @ tail)) it0 s"
    "ok it0" "\<not> it_finished ops it0" "tail = [] \<or> (\<exists>x. tail = [Fail x])"
  shows "\<exists>rest. out it0 bs0 (tail = []) = an_pieces s @ rest \<and>
    ((\<exists>i. an_call s i = AStopped) \<longrightarrow> rest = [] \<and> tail = [])"
    and "an_call s i \<noteq> APanicked"
proof -
  note inv = anext_reach_inv [OF assms, unfolded anext_inv_def]
  obtain rest where "out it0 bs0 (tail = []) = an_pieces s @ rest"
    using inv accounts_prefix by blast
  then show "\<exists>rest. out it0 bs0 (tail = []) = an_pieces s @ rest \<and>
    ((\<exists>i. an_call s i = AStopped) \<longrightarrow> rest = [] \<and> tail = [])"
    using inv by (auto simp: accounts_def)
  show "an_call s i \<noteq> APanicked" using inv by blast
qed

end

text \<open>Schedules, to run the theorems on.\<close>

datatype anext_op = Poll nat | Drop nat | CloseIt

fun anext_exec1 ::
  "('it, 'p) iter_ops \<Rightarrow> anext_op \<Rightarrow> ('it, 'p) anext_sys \<Rightarrow> ('it, 'p) anext_sys" where
  "anext_exec1 ops (Poll i) s =
     (case an_call s i of
        AQueued \<Rightarrow> if an_owner s = None then anext_goto i ATurn s else s
      | ATurn \<Rightarrow>
          (case anext_turn ops (an_live s) (an_iter s) of (it, c) \<Rightarrow> anext_goto i c (s\<lparr>an_iter := it\<rparr>))
      | APull \<Rightarrow>
          (case anext_pull ops (an_live s) (an_iter s) of
             (l, it, c) \<Rightarrow> anext_goto i c (s\<lparr>an_live := l, an_iter := it\<rparr>))
      | _ \<Rightarrow> s)"
| "anext_exec1 ops (Drop i) s =
     (case an_call s i of
        AQueued \<Rightarrow> s\<lparr>an_call := (an_call s)(i := ACancelled)\<rparr>
      | APull \<Rightarrow> anext_goto i ACancelled s
      | _ \<Rightarrow> s)"
| "anext_exec1 ops CloseIt s = s\<lparr>an_live := live_close (an_live s)\<rparr>"

lemma anext_exec_reach:
  "anext_reach ops l it s \<Longrightarrow> anext_reach ops l it (fold (anext_exec1 ops) xs s)"
proof (induction xs arbitrary: s)
  case (Cons x xs)
  have "anext_exec1 ops x s = s \<or> anext_step ops s (anext_exec1 ops x s)"
    by (cases x) (auto split: anext_call.split prod.split intro: anext_step.intros)
  with Cons.prems have "anext_reach ops l it (anext_exec1 ops x s)"
    using anext_reach_step by fastforce
  with Cons.IH show ?case by simp
qed simp

text \<open>The first future is dropped while it waits for the network; the others take over.\<close>

definition dropped_future :: "anext_op list" where
  "dropped_future = [Poll 0, Poll 0, Poll 1, Drop 0, Poll 1, Poll 1, Poll 1, Poll 1, CloseIt, Poll 2, Poll 2]"

text \<open>
  C14. However many \<^verbatim>\<open>__anext__\<close> futures of one line iterator run at once, whichever of them are
  cancelled and whenever the response is closed, the lines handed out, in the order the futures
  return, are the first lines of the body, each exactly once; a future is told that the iteration
  has ended only when every line has been handed out; none panics.
\<close>

theorem async_lines_once:
  assumes "anext_reach (line_ops dec) (live_new (map Data bs)) (line_start dec) s"
  shows "\<exists>rest. split_lines (concat (decoded dec (dec_new dec) bs True)) = an_pieces s @ rest \<and>
    ((\<exists>i. an_call s i = AStopped) \<longrightarrow> rest = []) \<and> (\<forall>i. an_call s i \<noteq> APanicked)"
  using line_it.handed_out_once [of dec bs "[]" "line_start dec" s] assms
  by (auto simp: line_start_out)

lemma async_lines_once_witness:
  "\<exists>rest. split_lines [97, 10, 98] =
     an_pieces (fold (anext_exec1 (line_ops latin1)) dropped_future
       (anext_init (live_new (map Data [[97, 10], [98]])) (line_start latin1))) @ rest"
proof -
  let ?s = "fold (anext_exec1 (line_ops latin1)) dropped_future
       (anext_init (live_new (map Data [[97, 10], [98]])) (line_start latin1))"
  have "anext_reach (line_ops latin1) (live_new (map Data [[97, 10], [98]])) (line_start latin1) ?s"
    by (rule anext_exec_reach, rule anext_reach_init)
  from async_lines_once [OF this] show ?thesis by (auto simp: latin1_def)
qed

text \<open>
  The same for the bytes of a body that may break off: concurrent futures hand out a prefix of
  the pieces sequential iteration would, and none is told the iteration has ended when the body broke
  off instead.
\<close>

theorem async_bytes_once:
  assumes "anext_reach byte_ops (live_new (map Data bs @ tail)) (byte_start n) s"
    "n \<noteq> Some 0" "tail = [] \<or> (\<exists>x. tail = [Fail x])"
  shows "\<exists>rest. pieces_of n [] bs (tail = []) = an_pieces s @ rest \<and>
    ((\<exists>i. an_call s i = AStopped) \<longrightarrow> rest = [] \<and> tail = []) \<and> (\<forall>i. an_call s i \<noteq> APanicked)"
  using byte_it.handed_out_once [of bs tail "byte_start n" s] assms by fastforce

lemma async_bytes_once_witness:
  "an_pieces (fold (anext_exec1 byte_ops) dropped_future
     (anext_init (live_new (map Data [[1, 2, 3]])) (byte_start (Some 2)))) = [[1, 2]] \<and>
   (\<exists>rest. [[1, 2], [3]] = an_pieces (fold (anext_exec1 byte_ops) dropped_future
     (anext_init (live_new (map Data [[1, 2, 3]])) (byte_start (Some 2)))) @ rest)"
proof -
  let ?l = "live_new (map Data [[1, 2, 3]] @ [])" and ?it = "byte_start (Some 2)"
  let ?s = "fold (anext_exec1 byte_ops) dropped_future (anext_init ?l ?it)"
  have "anext_reach byte_ops ?l ?it ?s" by (rule anext_exec_reach, rule anext_reach_init)
  from async_bytes_once [OF this] have "\<exists>rest. [[1, 2], [3]] = an_pieces ?s @ rest"
    by (auto simp: pieces_of_def chop.simps)
  moreover have "an_pieces ?s = [[1, 2]]" by code_simp
  ultimately show ?thesis by simp
qed

text \<open>And for the text of a body, in pieces of a number of characters, whatever the decoder.\<close>

theorem async_text_once:
  assumes "anext_reach (text_ops dec) (live_new (map Data bs @ tail)) (text_start dec n) s"
    "n \<noteq> Some 0" "tail = [] \<or> (\<exists>x. tail = [Fail x])"
  shows "\<exists>rest. pieces_of n [] (decoded dec (dec_new dec) bs (tail = [])) (tail = []) = an_pieces s @ rest \<and>
    ((\<exists>i. an_call s i = AStopped) \<longrightarrow> rest = [] \<and> tail = []) \<and> (\<forall>i. an_call s i \<noteq> APanicked)"
  using text_it.handed_out_once [of dec bs tail "text_start dec n" s] assms by fastforce

end
