(* ===== verification/Rqx_PyUrl.thy ===== *)
theory Rqx_PyUrl
  imports Rqx_Url
begin

text \<open>
  \<^verbatim>\<open>rqx/src/url/py_url.rs\<close>: the Python class over URL references, its arguments, and what holds
  of the references it copies.

  Keyword arguments reach the core in the order a hash map happens to have; \<open>order\<close> is that order,
  some listing of the entries.
\<close>

text \<open>A keyword value: what the object is, or what it answers when asked for an index.\<close>

datatype url_arg =
    UrlNone
  | UrlStr string
  | UrlBytes bytes
  | UrlIndex int string
  | UrlOther params_arg string

definition bad_component :: "string \<Rightarrow> py_err" where
  "bad_component t = new_err PyTypeError
     (''URL components must be str, bytes, int, QueryParams or None, got '' @ t)"

definition url_kwarg ::
  "(params_arg \<Rightarrow> py_err + pairs) \<Rightarrow> url_arg \<Rightarrow> py_err + component_value option" where
  "url_kwarg params v =
     (case v of
        UrlNone \<Rightarrow> Inr None
      | UrlStr s \<Rightarrow> Inr (Some (VStr s))
      | UrlBytes b \<Rightarrow> Inr (Some (VBytes b))
      | UrlIndex i t \<Rightarrow>
          if 0 \<le> i \<and> i < 65536 then Inr (Some (VInt (word_of_int i))) else Inl (bad_component t)
      | UrlOther p t \<Rightarrow>
          (case params p of Inr ps \<Rightarrow> Inr (Some (VPairs ps)) | Inl _ \<Rightarrow> Inl (bad_component t)))"

fun url_kwargs ::
  "(params_arg \<Rightarrow> py_err + pairs) \<Rightarrow> (string \<times> url_arg) list \<Rightarrow>
     py_err + (string \<times> component_value option) list" where
  "url_kwargs params [] = Inr []"
| "url_kwargs params ((k, v) # kvs) =
     (case url_kwarg params v of
        Inl e \<Rightarrow> Inl e
      | Inr x \<Rightarrow> map_sum id (\<lambda>xs. (k, x) # xs) (url_kwargs params kvs))"

text \<open>A URL argument.\<close>

datatype ('u, 'r) url_obj = UrlObj "('u, 'r) url_reference" | UrlText string | NotUrl string

definition url_extract ::
  "'u url_lib \<Rightarrow> 'r iri_lib \<Rightarrow> ('u, 'r) url_obj \<Rightarrow> py_rqx_error + ('u, 'r) url_reference" where
  "url_extract ul il x =
     (case x of
        UrlObj u \<Rightarrow> Inr u
      | UrlText s \<Rightarrow> map_sum Core id (url_parse ul il s)
      | NotUrl t \<Rightarrow> Inl (Py (new_err PyTypeError
          (''Invalid type for url. Expected str or rqx.URL, got '' @ t))))"

definition py_url_copy_with ::
  "'u url_lib \<Rightarrow> 'r iri_lib \<Rightarrow> (pairs \<Rightarrow> string) \<Rightarrow> (params_arg \<Rightarrow> py_err + pairs) \<Rightarrow>
     ((string \<times> component_value option) list \<Rightarrow> (string \<times> component_value option) list) \<Rightarrow>
     (string \<times> url_arg) list \<Rightarrow> ('u, 'r) url_reference \<Rightarrow>
     py_rqx_error + ('u, 'r) url_reference" where
  "py_url_copy_with ul il form_serialize params order kwargs x =
     (case url_kwargs params kwargs of
        Inl e \<Rightarrow> Inl (Py e)
      | Inr kvs \<Rightarrow> map_sum Core id (copy_with ul il form_serialize (order kvs) x))"

definition py_url_new ::
  "'u url_lib \<Rightarrow> 'r iri_lib \<Rightarrow> (pairs \<Rightarrow> string) \<Rightarrow> (params_arg \<Rightarrow> py_err + pairs) \<Rightarrow>
     ((string \<times> component_value option) list \<Rightarrow> (string \<times> component_value option) list) \<Rightarrow>
     ('u, 'r) url_reference option \<Rightarrow> (string \<times> url_arg) list \<Rightarrow>
     py_rqx_error + ('u, 'r) url_reference" where
  "py_url_new ul il form_serialize params order url kwargs =
     (case (case url of Some u \<Rightarrow> Inr u | None \<Rightarrow> map_sum Core id (url_parse ul il [])) of
        Inl e \<Rightarrow> Inl e
      | Inr base \<Rightarrow> py_url_copy_with ul il form_serialize params order kwargs base)"

text \<open>\<^verbatim>\<open>join\<close>: a string joins as written.\<close>

definition py_url_join ::
  "'u url_lib \<Rightarrow> 'r iri_lib \<Rightarrow> ('u, 'r) url_obj \<Rightarrow> ('u, 'r) url_reference \<Rightarrow>
     py_rqx_error + ('u, 'r) url_reference" where
  "py_url_join ul il other x =
     (case (case other of UrlText s \<Rightarrow> Inr s | _ \<Rightarrow> map_sum id (url_display ul il) (url_extract ul il other)) of
        Inl e \<Rightarrow> Inl e
      | Inr s \<Rightarrow> map_sum Core id (url_join ul il x s))"

definition py_url_eq ::
  "'u url_lib \<Rightarrow> 'r iri_lib \<Rightarrow> ('u, 'r) url_obj \<Rightarrow> ('u, 'r) url_reference \<Rightarrow> bool" where
  "py_url_eq ul il other x \<longleftrightarrow>
     (case url_extract ul il other of Inr y \<Rightarrow> url_eq ul il x y | Inl _ \<Rightarrow> False)"

definition py_url_repr :: "'u url_lib \<Rightarrow> 'r iri_lib \<Rightarrow> ('u, 'r) url_reference \<Rightarrow> string" where
  "py_url_repr ul il x = ''URL('' @ QUOTE @ masked ul il x @ QUOTE @ '')''"


section \<open>Keyword arguments are a set\<close>

definition component_at ::
  "(pairs \<Rightarrow> string) \<Rightarrow> (string \<rightharpoonup> component_value option) \<Rightarrow> string \<Rightarrow> string option \<Rightarrow> string option" where
  "component_at f m key old = (case m key of Some v \<Rightarrow> field_str f v | None \<Rightarrow> old)"

lemma component_at_upd [simp]:
  "component_at f (m(k \<mapsto> v)) key old = (if key = k then field_str f v else component_at f m key old)"
  by (simp add: component_at_def)

text \<open>The components after the keywords \<open>m\<close>, read off \<open>m\<close> itself.\<close>

definition components_of ::
  "(pairs \<Rightarrow> string) \<Rightarrow> (string \<rightharpoonup> component_value option) \<Rightarrow> url_components \<Rightarrow> url_components" where
  "components_of f m c =
     \<lparr>c_scheme = component_at f m ''scheme'' (c_scheme c),
      c_username = component_at f m ''username'' (c_username c),
      c_password = component_at f m ''password'' (c_password c),
      c_host = component_at f m ''host'' (c_host c),
      c_port = (case m ''port'' of
          Some v \<Rightarrow> (case field_u16 v of Inr p \<Rightarrow> Some p | Inl _ \<Rightarrow> c_port c) | None \<Rightarrow> c_port c),
      c_path = component_at f m ''path'' (c_path c),
      c_query = component_at f m ''query'' (component_at f m ''params'' (c_query c)),
      c_fragment = component_at f m ''fragment'' (c_fragment c)\<rparr>"

text \<open>The keywords \<open>from_hash_map\<close> accepts.\<close>

definition good_kwarg :: "string \<times> component_value option \<Rightarrow> bool" where
  "good_kwarg kv \<longleftrightarrow>
     fst kv \<in> {''scheme'', ''username'', ''password'', ''host'', ''port'', ''path'', ''query'',
       ''fragment'', ''params''} \<and> (fst kv = ''port'' \<longrightarrow> \<not> isl (field_u16 (snd kv)))"

lemma with_component_good: "\<not> isl (with_component f k v c) \<longleftrightarrow> good_kwarg (k, v)"
  by (auto simp: with_component_def good_kwarg_def Let_def split: sum.split)

lemma with_component_sets:
  assumes "with_component f k v c = Inr c1" "k \<notin> dom m"
    and "\<not> (k = ''query'' \<and> ''params'' \<in> dom m)" "\<not> (k = ''params'' \<and> ''query'' \<in> dom m)"
  shows "components_of f m c1 = components_of f (m(k \<mapsto> v)) c"
proof -
  have "good_kwarg (k, v)" using assms(1) with_component_good [of f k v c] by simp
  then have "k = ''scheme'' \<or> k = ''username'' \<or> k = ''password'' \<or> k = ''host'' \<or> k = ''port'' \<or>
    k = ''path'' \<or> k = ''query'' \<or> k = ''fragment'' \<or> k = ''params''"
    by (simp add: good_kwarg_def)
  moreover have "m k = None" "k = ''query'' \<Longrightarrow> m ''params'' = None" "k = ''params'' \<Longrightarrow> m ''query'' = None"
    using assms(2-4) by (auto simp: domIff)
  ultimately show ?thesis
    using assms(1)
    by (elim disjE)
      (auto simp: with_component_def components_of_def component_at_def Let_def
        split: sum.splits cong: option.case_cong sum.case_cong)
qed

lemma components_loop_set:
  assumes "distinct (map fst kvs)" "\<not> {''query'', ''params''} \<subseteq> fst ` set kvs"
  shows "components_loop f kvs c = Inr c' \<longleftrightarrow>
    list_all good_kwarg kvs \<and> c' = components_of f (map_of kvs) c"
  using assms
proof (induction kvs arbitrary: c)
  case Nil
  show ?case by (auto simp: components_of_def component_at_def)
next
  case (Cons kv kvs)
  obtain k v where kv: "kv = (k, v)" by (cases kv)
  have fresh: "k \<notin> dom (map_of kvs)" using Cons.prems(1) kv by (simp add: dom_map_of_conv_image_fst)
  show ?case
  proof (cases "with_component f k v c")
    case (Inl e)
    with with_component_good [of f k v c] kv show ?thesis by simp
  next
    case (Inr c1)
    have "components_of f (map_of kvs) c1 = components_of f ((map_of kvs)(k \<mapsto> v)) c"
      using Inr fresh Cons.prems(2) kv
      by (intro with_component_sets) (auto simp: dom_map_of_conv_image_fst)
    moreover have "\<not> {''query'', ''params''} \<subseteq> fst ` set kvs" "distinct (map fst kvs)"
      using Cons.prems by auto
    ultimately show ?thesis
      using Cons.IH [of c1] with_component_good [of f k v c] Inr kv by (simp add: fun_upd_def)
  qed
qed

text \<open>A keyword that is rejected gives its own error, whatever was set before it.\<close>

lemma with_component_error:
  "with_component f k v c = Inl e \<longleftrightarrow> with_component f k v no_components = Inl e"
  by (auto simp: with_component_def Let_def split: sum.splits)

lemma components_loop_error:
  "components_loop f kvs c = Inl e \<Longrightarrow>
    \<exists>kv \<in> set kvs. \<not> good_kwarg kv \<and> with_component f (fst kv) (snd kv) no_components = Inl e"
proof (induction kvs arbitrary: c)
  case (Cons kv kvs)
  obtain k v where kv: "kv = (k, v)" by (cases kv)
  show ?case
  proof (cases "with_component f k v c")
    case (Inl e')
    with Cons.prems kv with_component_error [of f k v c] with_component_good [of f k v c] show ?thesis by auto
  next
    case (Inr c1)
    with Cons kv show ?thesis by auto
  qed
qed simp

definition bad_kwargs :: "(string \<times> component_value option) list \<Rightarrow> nat" where
  "bad_kwargs kvs = length (filter (\<lambda>kv. \<not> good_kwarg kv) kvs)"

lemma one_bad_kwarg:
  assumes "bad_kwargs kvs \<le> 1" "x \<in> set kvs" "\<not> good_kwarg x" "y \<in> set kvs" "\<not> good_kwarg y"
  shows "x = y"
proof -
  have "x \<in> set (filter (\<lambda>kv. \<not> good_kwarg kv) kvs)" "y \<in> set (filter (\<lambda>kv. \<not> good_kwarg kv) kvs)"
    using assms(2-5) by simp_all
  with assms(1) show ?thesis
    unfolding bad_kwargs_def by (cases "filter (\<lambda>kv. \<not> good_kwarg kv) kvs") auto
qed

text \<open>
  C33. The keyword arguments of a URL are a set: as long as \<open>query\<close> and \<open>params\<close> are not both given,
  the order in which the hash map yields them changes neither whether they are accepted, which is when each of them
  is good, nor what they set, which is exactly the components they name; and as long as no more than one is bad,
  nor the error.  The error for two bad ones is that of the one the hash map yields first
  (\<open>two_bad_kwargs\<close>).
\<close>

theorem kwargs_are_a_set:
  assumes "distinct (map fst kvs)" "mset kvs' = mset kvs" "\<not> {''query'', ''params''} \<subseteq> fst ` set kvs"
  shows "(isl (components_from_map f kvs) \<longleftrightarrow> \<not> list_all good_kwarg kvs) \<and>
    (case components_from_map f kvs of
      Inr c \<Rightarrow> components_from_map f kvs' = Inr c \<and> c = components_of f (map_of kvs) no_components
    | Inl e \<Rightarrow> isl (components_from_map f kvs') \<and>
        (bad_kwargs kvs \<le> 1 \<longrightarrow> components_from_map f kvs' = Inl e))"
proof -
  have same: "set kvs' = set kvs" using assms(2) by (rule mset_eq_setD)
  have distinct: "distinct (map fst kvs')"
    using assms(1,2) by (metis mset_map mset_eq_imp_distinct_iff)
  have maps: "map_of kvs' = map_of kvs"
    using map_of_inject_set [OF distinct assms(1)] same by simp
  have goods: "list_all good_kwarg kvs' = list_all good_kwarg kvs"
    using same by (simp add: list_all_iff)
  have run: "components_from_map f kvs = Inr c \<longleftrightarrow>
      list_all good_kwarg kvs \<and> c = components_of f (map_of kvs) no_components" for c
    using components_loop_set [OF assms(1,3)] by (simp add: components_from_map_def)
  have run': "components_from_map f kvs' = Inr c \<longleftrightarrow>
      list_all good_kwarg kvs \<and> c = components_of f (map_of kvs) no_components" for c
    using components_loop_set [OF distinct] assms(3) same maps goods by (simp add: components_from_map_def)
  show ?thesis
  proof (cases "components_from_map f kvs")
    case (Inr c)
    with run run' show ?thesis by auto
  next
    case (Inl e)
    then have bad: "\<not> list_all good_kwarg kvs" using run by auto
    then obtain e' where e': "components_from_map f kvs' = Inl e'"
      using run' by (cases "components_from_map f kvs'") auto
    have "e' = e" if "bad_kwargs kvs \<le> 1"
    proof -
      obtain x where x: "x \<in> set kvs" "\<not> good_kwarg x" "with_component f (fst x) (snd x) no_components = Inl e"
        using components_loop_error Inl unfolding components_from_map_def by blast
      obtain y where y: "y \<in> set kvs" "\<not> good_kwarg y" "with_component f (fst y) (snd y) no_components = Inl e'"
        using components_loop_error e' same unfolding components_from_map_def by blast
      from one_bad_kwarg [OF that x(1,2) y(1,2)] x(3) y(3) show ?thesis by simp
    qed
    with Inl bad e' show ?thesis by simp
  qed
qed

lemma kwargs_are_a_set_witness:
  "components_from_map (\<lambda>_. []) [(''port'', Some (VInt 8080)), (''host'', Some (VStr ''h''))] =
     Inr (no_components\<lparr>c_host := Some ''h'', c_port := Some (Some 8080)\<rparr>) \<and>
   components_from_map (\<lambda>_. []) [(''foo'', None), (''host'', Some (VStr ''h''))] =
     Inl (UnknownKeyword (QUOTE @ ''foo'' @ QUOTE @ '' is an invalid keyword argument for URL()''))"
proof -
  let ?kvs = "[(''host'', Some (VStr ''h'')), (''port'', Some (VInt 8080))]"
  let ?bad = "[(''host'', Some (VStr ''h'')), (''foo'', None)]"
  have runs: "components_from_map (\<lambda>_. []) ?kvs = Inr (no_components\<lparr>c_host := Some ''h'', c_port := Some (Some 8080)\<rparr>)"
    "components_from_map (\<lambda>_. []) ?bad =
      Inl (UnknownKeyword (QUOTE @ ''foo'' @ QUOTE @ '' is an invalid keyword argument for URL()''))"
    by (simp_all add: components_from_map_def with_component_def field_str_def component_display_def
        field_u16_def no_components_def)
  have sets: "distinct (map fst ?kvs)" "\<not> {''query'', ''params''} \<subseteq> fst ` set ?kvs"
    "distinct (map fst ?bad)" "\<not> {''query'', ''params''} \<subseteq> fst ` set ?bad" by simp_all
  have swapped: "mset [(''port'', Some (VInt 8080)), (''host'', Some (VStr ''h''))] = mset ?kvs"
    "mset [(''foo'', None), (''host'', Some (VStr ''h''))] = mset ?bad"
    by (simp_all only: mset.simps add_mset_commute)
  have "bad_kwargs ?bad \<le> 1" by (simp add: bad_kwargs_def good_kwarg_def)
  with runs kwargs_are_a_set [OF sets(1) swapped(1) sets(2), of "\<lambda>_. []"]
    kwargs_are_a_set [OF sets(3) swapped(2) sets(4), of "\<lambda>_. []"]
  show ?thesis by simp
qed

text \<open>Two bad keywords: the hash map's order, random in each process, picks the class of the exception.\<close>

lemma two_bad_kwargs:
  "components_from_map f [(''foo'', None), (''port'', Some (VStr p))] =
     Inl (UnknownKeyword (QUOTE @ ''foo'' @ QUOTE @ '' is an invalid keyword argument for URL()''))"
  "components_from_map f [(''port'', Some (VStr p)), (''foo'', None)] =
     Inl (InvalidURL ''Component value must be u16 for u16 field, but got str'')"
  by (simp_all add: components_from_map_def with_component_def field_u16_def component_type_name_def)

text \<open>\<open>query\<close> and \<open>params\<close> given together: the last one the hash map yields wins.\<close>

lemma query_and_params:
  "map_sum id c_query (components_from_map f [(''query'', a), (''params'', b)]) = Inr (field_str f b)"
  "map_sum id c_query (components_from_map f [(''params'', b), (''query'', a)]) = Inr (field_str f a)"
  by (simp_all add: components_from_map_def with_component_def)


section \<open>Copies\<close>

text \<open>
  The serializer of the URL standard, for a URL with a host: what \<^verbatim>\<open>Url::as_str\<close> documents.
  The query is an argument, for the copies that differ in it.
\<close>

definition url_text_with :: "'u url_lib \<Rightarrow> string option \<Rightarrow> 'u \<Rightarrow> string" where
  "url_text_with ul query u =
     u_scheme ul u @ ''://'' @
     (if u_username ul u = [] \<and> u_password ul u = None then []
      else u_username ul u @ (case u_password ul u of None \<Rightarrow> [] | Some p \<Rightarrow> '':'' @ p) @ ''@'') @
     or_empty (u_host_str ul u) @
     (case u_port ul u of None \<Rightarrow> [] | Some p \<Rightarrow> '':'' @ show_nat (unat p)) @
     u_path ul u @
     (case query of None \<Rightarrow> [] | Some q \<Rightarrow> ''?'' @ q) @
     (case u_fragment ul u of None \<Rightarrow> [] | Some f \<Rightarrow> ''#'' @ f)"

definition url_text :: "'u url_lib \<Rightarrow> 'u \<Rightarrow> string" where
  "url_text ul u = url_text_with ul (u_query ul u) u"

text \<open>
  A URL with a host as the parser leaves it: its scheme is not empty, an empty password is none, the
  path is empty or rooted.  Excluded are the URLs that end in the bare \<^verbatim>\<open>?\<close> or \<^verbatim>\<open>#\<close> of an empty
  query or fragment, which a copy drops.
\<close>

definition hosted :: "'u url_lib \<Rightarrow> 'u \<Rightarrow> bool" where
  "hosted ul u \<longleftrightarrow>
     u_scheme ul u \<noteq> [] \<and> u_host_str ul u \<notin> {None, Some []} \<and> u_password ul u \<noteq> Some [] \<and>
     (u_path ul u = [] \<or> starts_with ''/'' (u_path ul u)) \<and> u_fragment ul u \<noteq> Some []"

definition url_serializes :: "'u url_lib \<Rightarrow> 'u \<Rightarrow> bool" where
  "url_serializes ul u \<longleftrightarrow>
     u_parse ul (u_str ul u) = Inr u \<and> u_str ul u = url_text ul u \<and> hosted ul u \<and>
     u_query ul u \<noteq> Some []"

definition nonempty :: "string \<Rightarrow> string option" where
  "nonempty s = (if s = [] then None else Some s)"

lemma nonempty_or_empty [simp]:
  "or_empty (nonempty s) = s" "q \<noteq> Some [] \<Longrightarrow> nonempty (or_empty q) = q"
  by (auto simp: nonempty_def or_empty_def split: option.split)

lemma assemble_text:
  assumes "hosted ul u"
  shows "assemble (u_scheme ul u) (u_username ul u) (or_empty (u_password ul u))
    (or_empty (u_host_str ul u)) (u_port ul u) (u_path ul u) q (or_empty (u_fragment ul u)) =
    url_text_with ul (nonempty q) u"
proof -
  note laws = assms [unfolded hosted_def]
  have "or_empty (u_host_str ul u) \<noteq> []" "u_scheme ul u \<noteq> []"
    "\<not> (u_path ul u \<noteq> [] \<and> \<not> starts_with ''/'' (u_path ul u))"
    "or_empty (u_password ul u) = [] \<longleftrightarrow> u_password ul u = None"
    using laws by (auto simp: or_empty_def split: option.split)
  moreover have "(if q = [] then [] else ''?'' @ q) =
      (case nonempty q of None \<Rightarrow> [] | Some q \<Rightarrow> ''?'' @ q)"
    "(if or_empty (u_fragment ul u) = [] then [] else ''#'' @ or_empty (u_fragment ul u)) =
      (case u_fragment ul u of None \<Rightarrow> [] | Some f \<Rightarrow> ''#'' @ f)"
    "(if u_password ul u = None then [] else '':'' @ or_empty (u_password ul u)) =
      (case u_password ul u of None \<Rightarrow> [] | Some p \<Rightarrow> '':'' @ p)"
    using laws by (auto simp: or_empty_def nonempty_def split: option.split)
  ultimately show ?thesis
    by (simp only: assemble_def url_text_with_def if_False if_True append_assoc append.simps simp_thms)
qed

text \<open>Keyword arguments that repeat the URL's own components.\<close>

definition own_kwarg ::
  "(pairs \<Rightarrow> string) \<Rightarrow> 'u url_lib \<Rightarrow> 'u \<Rightarrow> string \<times> component_value option \<Rightarrow> bool" where
  "own_kwarg f ul u kv \<longleftrightarrow>
     (case kv of (k, v) \<Rightarrow>
        (k = ''scheme'' \<and> field_str f v = Some (u_scheme ul u)) \<or>
        (k = ''username'' \<and> field_str f v = Some (u_username ul u)) \<or>
        (k = ''password'' \<and> field_str f v = Some (or_empty (u_password ul u))) \<or>
        (k = ''host'' \<and> field_str f v = Some (or_empty (u_host_str ul u))) \<or>
        (k = ''port'' \<and> field_u16 v = Inr (u_port ul u)) \<or>
        (k = ''path'' \<and> field_str f v = Some (u_path ul u)) \<or>
        (k \<in> {''query'', ''params''} \<and> field_str f v = Some (or_empty (u_query ul u))) \<or>
        (k = ''fragment'' \<and> field_str f v = Some (or_empty (u_fragment ul u))))"

definition own_components :: "'u url_lib \<Rightarrow> 'u \<Rightarrow> url_components \<Rightarrow> bool" where
  "own_components ul u c \<longleftrightarrow>
     pick (c_scheme c) (u_scheme ul u) = u_scheme ul u \<and>
     pick (c_username c) (u_username ul u) = u_username ul u \<and>
     pick (c_password c) (or_empty (u_password ul u)) = or_empty (u_password ul u) \<and>
     pick (c_host c) (or_empty (u_host_str ul u)) = or_empty (u_host_str ul u) \<and>
     pick (c_port c) (u_port ul u) = u_port ul u \<and> pick (c_path c) (u_path ul u) = u_path ul u \<and>
     pick (c_query c) (or_empty (u_query ul u)) = or_empty (u_query ul u) \<and>
     pick (c_fragment c) (or_empty (u_fragment ul u)) = or_empty (u_fragment ul u)"

lemma pick_simps [simp]: "pick None d = d" "pick (Some x) d = x"
  by (simp_all add: pick_def)

lemma own_kwarg_with:
  assumes "own_kwarg f ul u (k, v)" "own_components ul u c"
  shows "\<exists>c'. with_component f k v c = Inr c' \<and> own_components ul u c'"
  using assms(1) unfolding own_kwarg_def prod.case
  by (elim disjE conjE insertE emptyE)
    (use assms(2) in \<open>simp_all add: with_component_def own_components_def\<close>)

lemma own_kwargs_loop:
  "list_all (own_kwarg f ul u) kvs \<Longrightarrow> own_components ul u c \<Longrightarrow>
   \<exists>c'. components_loop f kvs c = Inr c' \<and> own_components ul u c'"
proof (induction kvs arbitrary: c)
  case (Cons kv kvs)
  obtain k v where kv: "kv = (k, v)" by (cases kv)
  with Cons own_kwarg_with [of f ul u k v c] show ?case by fastforce
qed simp

lemma own_components_compose:
  assumes "url_serializes ul u" "own_components ul u c"
  shows "compose ul il (Some (Absolute u)) c = Inr (Absolute u)"
proof -
  note own = assms(2) [unfolded own_components_def]
  have laws: "u_str ul u = url_text ul u" "hosted ul u" "u_query ul u \<noteq> Some []"
    using assms(1) unfolding url_serializes_def by blast+
  have "compose ul il (Some (Absolute u)) c = url_parse ul il (u_str ul u)"
    by (simp only: laws(1) url_text_def assemble_text [OF laws(2)] nonempty_or_empty(2) [OF laws(3)]
        compose_def url_scheme_def url_username_def url_password_def encoded_host_def Let_def
        url_port_def encoded_path_def url_query_def url_fragment_def own
        option.case bind.simps url_reference.case)
  moreover have "u_parse ul (u_str ul u) = Inr u"
    using assms(1) unfolding url_serializes_def by (rule conjunct1)
  ultimately show ?thesis by (simp only: url_parse_def sum.case)
qed

text \<open>
  C32. Taking a URL apart and putting it together again loses nothing: copying an absolute URL that has a host, and
  does not end in a bare \<^verbatim>\<open>?\<close> or \<^verbatim>\<open>#\<close>, with any of its own components, each the
  encoded text it has inside the URL, gives the same URL back.  The decoded \<^verbatim>\<open>url.host\<close> is not always that text
  (\<open>Rqx_Attrs.host_loses_brackets\<close>).
\<close>

theorem copy_own_components:
  assumes "url_serializes ul u" "list_all (own_kwarg f ul u) kvs"
  shows "copy_with ul il f kvs (Absolute u) = Inr (Absolute u)"
proof -
  have "own_components ul u no_components" by (simp add: own_components_def no_components_def)
  with own_kwargs_loop [OF assms(2)] own_components_compose [OF assms(1)] show ?thesis
    by (fastforce simp: copy_with_def components_from_map_def)
qed

text \<open>A library that knows one URL, to run the theorems on.\<close>

definition one_url :: "string \<Rightarrow> string option \<Rightarrow> string \<Rightarrow> unit url_lib" where
  "one_url scheme host path =
     (let str = scheme @ '':'' @ (case host of None \<Rightarrow> [] | Some h \<Rightarrow> ''//'' @ h) @ path
      in \<lparr>u_parse = (\<lambda>s. if s = str then Inr () else Inl RelativeUrlWithoutBase), u_str = (\<lambda>_. str),
          u_scheme = (\<lambda>_. scheme), u_username = (\<lambda>_. []), u_password = (\<lambda>_. None),
          u_host = (\<lambda>_. map_option Domain host), u_host_str = (\<lambda>_. host), u_port = (\<lambda>_. None),
          u_port_or_known_default = (\<lambda>_. None), u_path = (\<lambda>_. path), u_query = (\<lambda>_. None),
          u_fragment = (\<lambda>_. None), u_has_authority = (\<lambda>_. host \<noteq> None), u_join = (\<lambda>u s. Inr u),
          u_set_path = (\<lambda>_ u. u), u_set_query = (\<lambda>_ u. u), u_origin = (\<lambda>_. None)\<rparr>)"

lemma one_url_simps [simp]:
  "u_str (one_url sc h p) u = sc @ '':'' @ (case h of None \<Rightarrow> [] | Some h \<Rightarrow> ''//'' @ h) @ p"
  "u_parse (one_url sc h p) s = (if s = u_str (one_url sc h p) () then Inr () else Inl RelativeUrlWithoutBase)"
  "u_scheme (one_url sc h p) u = sc" "u_username (one_url sc h p) u = []"
  "u_password (one_url sc h p) u = None" "u_host_str (one_url sc h p) u = h"
  "u_port (one_url sc h p) u = None" "u_path (one_url sc h p) u = p" "u_query (one_url sc h p) u = None"
  "u_fragment (one_url sc h p) u = None"
  by (simp_all add: one_url_def Let_def)

definition plain_refs :: "string iri_lib" where
  "plain_refs =
     \<lparr>r_new = Inr, r_str = id, r_authority = (\<lambda>_. None), r_authority_str = (\<lambda>_. None), r_path = id,
      r_query = (\<lambda>_. None), r_fragment = (\<lambda>_. None), enc_path = id, enc_query = id, enc_fragment = id,
      mask_password = (\<lambda>_. None), domain_to_unicode = (\<lambda>_. None), percent_decode_lossy = id\<rparr>"

lemma copy_own_components_witness:
  "copy_with (one_url ''http'' (Some ''h'') ''/a'') plain_refs (\<lambda>_. [])
     [(''path'', Some (VStr ''/a'')), (''port'', None)] (Absolute ()) = Inr (Absolute ())"
proof (rule copy_own_components)
  show "url_serializes (one_url ''http'' (Some ''h'') ''/a'') ()"
    by (simp add: url_serializes_def hosted_def url_text_def url_text_with_def or_empty_def starts_with_def)
  show "list_all (own_kwarg (\<lambda>_. []) (one_url ''http'' (Some ''h'') ''/a'') ())
      [(''path'', Some (VStr ''/a'')), (''port'', None)]"
    by (simp add: own_kwarg_def field_str_def field_u16_def component_display_def)
qed

text \<open>
  A URL without a host loses its scheme in every copy that does not name a host: what
  \<open>copy_with\<close> (and every \<open>copy_*_param\<close>) builds from \<open>mailto:\<close>, \<open>data:\<close> or
  \<open>file:///\<close> is parsed from the path, the query and the fragment alone.
\<close>

theorem hostless_copy_drops_scheme:
  assumes "or_empty (u_host_str ul u) = []" "c_host c = None"
  shows "compose ul il (Some (Absolute u)) c =
    url_parse ul il
      (pick (c_path c) (u_path ul u) @
       (let q = pick (c_query c) (or_empty (u_query ul u)) in if q = [] then [] else ''?'' @ q) @
       (let fr = pick (c_fragment c) (or_empty (u_fragment ul u)) in if fr = [] then [] else ''#'' @ fr))"
  using assms
  by (simp add: compose_def assemble_def url_scheme_def url_username_def url_password_def encoded_host_def
      url_port_def encoded_path_def url_query_def url_fragment_def)

lemma hostless_copy_drops_scheme_witness:
  "compose (one_url ''mailto'' None ''a@b'') plain_refs (Some (Absolute ()))
     (no_components\<lparr>c_fragment := Some ''x''\<rparr>) = Inr (Relative ''a@b#x'')"
proof -
  have "compose (one_url ''mailto'' None ''a@b'') plain_refs (Some (Absolute ()))
      (no_components\<lparr>c_fragment := Some ''x''\<rparr>) =
    url_parse (one_url ''mailto'' None ''a@b'') plain_refs ''a@b#x''"
    by (subst hostless_copy_drops_scheme) (simp_all add: or_empty_def no_components_def)
  also have "\<dots> = Inr (Relative ''a@b#x'')"
    by (simp add: url_parse_def parse_relative_def plain_refs_def)
  finally show ?thesis .
qed

section \<open>Parameters\<close>

definition py_url_copy_set_param where
  "py_url_copy_set_param ul il form_parse form_serialize show_float key val x =
     map_sum Core id (copy_set_param ul il form_parse form_serialize show_float key val x)"

definition py_url_copy_add_param where
  "py_url_copy_add_param ul il form_parse form_serialize show_float key val x =
     map_sum Core id (copy_add_param ul il form_parse form_serialize show_float key val x)"

definition py_url_copy_remove_param where
  "py_url_copy_remove_param ul il form_parse form_serialize key x =
     map_sum Core id (copy_remove_param ul il form_parse form_serialize key x)"

definition py_url_copy_merge_params where
  "py_url_copy_merge_params ul il form_parse form_serialize params x =
     map_sum Core id (copy_merge_params ul il form_parse form_serialize params x)"

text \<open>A call of one of them, what it does to a URL, and what the same call does to a \<^verbatim>\<open>QueryParams\<close>.\<close>

datatype param_edit =
    SetParam string "scalar_value option"
  | AddParam string "scalar_value option"
  | RemoveParam string
  | MergeParams "pairs option"

fun copy_edit ::
  "'u url_lib \<Rightarrow> 'r iri_lib \<Rightarrow> (string \<Rightarrow> pairs) \<Rightarrow> (pairs \<Rightarrow> string) \<Rightarrow> (fl \<Rightarrow> string) \<Rightarrow> param_edit \<Rightarrow>
     ('u, 'r) url_reference \<Rightarrow> py_rqx_error + ('u, 'r) url_reference" where
  "copy_edit ul il p f sf (SetParam k v) x = py_url_copy_set_param ul il p f sf k v x"
| "copy_edit ul il p f sf (AddParam k v) x = py_url_copy_add_param ul il p f sf k v x"
| "copy_edit ul il p f sf (RemoveParam k) x = py_url_copy_remove_param ul il p f k x"
| "copy_edit ul il p f sf (MergeParams ps) x = py_url_copy_merge_params ul il p f ps x"

fun copy_edits ::
  "'u url_lib \<Rightarrow> 'r iri_lib \<Rightarrow> (string \<Rightarrow> pairs) \<Rightarrow> (pairs \<Rightarrow> string) \<Rightarrow> (fl \<Rightarrow> string) \<Rightarrow> param_edit list \<Rightarrow>
     ('u, 'r) url_reference \<Rightarrow> py_rqx_error + ('u, 'r) url_reference" where
  "copy_edits ul il p f sf [] x = Inr x"
| "copy_edits ul il p f sf (e # es) x =
     (case copy_edit ul il p f sf e x of Inl err \<Rightarrow> Inl err | Inr y \<Rightarrow> copy_edits ul il p f sf es y)"

fun edit_params :: "(fl \<Rightarrow> string) \<Rightarrow> param_edit \<Rightarrow> pairs \<Rightarrow> pairs" where
  "edit_params sf (SetParam k v) ps = qp_set k (qp_scalar sf v) ps"
| "edit_params sf (AddParam k v) ps = qp_add k (qp_scalar sf v) ps"
| "edit_params sf (RemoveParam k) ps = qp_remove k ps"
| "edit_params sf (MergeParams q) ps = py_params_merge q ps"

definition grouped_edit :: "param_edit \<Rightarrow> bool" where
  "grouped_edit e \<longleftrightarrow> (case e of MergeParams (Some q) \<Rightarrow> grouped q | _ \<Rightarrow> True)"

lemma edit_params_grouped: "grouped_edit e \<Longrightarrow> grouped ps \<Longrightarrow> grouped (edit_params sf e ps)"
  by (cases e) (auto simp: grouped_edit_def py_params_merge_def query.keep split: option.split)

definition same_but_query :: "'u url_lib \<Rightarrow> 'u \<Rightarrow> 'u \<Rightarrow> bool" where
  "same_but_query ul u v \<longleftrightarrow>
     u_scheme ul v = u_scheme ul u \<and> u_username ul v = u_username ul u \<and>
     u_password ul v = u_password ul u \<and> u_host_str ul v = u_host_str ul u \<and>
     u_port ul v = u_port ul u \<and> u_path ul v = u_path ul u \<and> u_fragment ul v = u_fragment ul u"

text \<open>
  What the URL parser does with the serialization of a parsed URL in which only the query is replaced by
  form-encoded text: it has nothing to normalize, and finds the same components and that query.
\<close>

definition query_law :: "'u url_lib \<Rightarrow> (pairs \<Rightarrow> string) \<Rightarrow> bool" where
  "query_law ul f \<longleftrightarrow>
     (\<forall>u ps. hosted ul u \<longrightarrow>
        (\<exists>v. u_parse ul (url_text_with ul (nonempty (f ps)) u) = Inr v \<and>
           u_query ul v = nonempty (f ps) \<and> same_but_query ul u v))"

lemma with_params_query:
  assumes "query_law ul f" "hosted ul u" "grouped ps" "p (f ps) = ps"
  shows "\<exists>v. with_params ul il f ps (Absolute u) = Inr (Absolute v) \<and> same_but_query ul u v \<and>
    url_params p ul il (Absolute v) = ps"
proof -
  obtain v where v: "u_parse ul (url_text_with ul (nonempty (f ps)) u) = Inr v"
    "u_query ul v = nonempty (f ps)" "same_but_query ul u v"
    using assms(1,2) unfolding query_law_def by blast
  have "with_params ul il f ps (Absolute u) = url_parse ul il (url_text_with ul (nonempty (f ps)) u)"
    by (simp add: with_params_def compose_def Let_def qp_display_def no_components_def url_scheme_def
        url_username_def url_password_def encoded_host_def url_port_def encoded_path_def url_fragment_def
        assemble_text [OF assms(2)])
  moreover have "url_params p ul il (Absolute v) = ps"
    using query_display_parse [of ps p f] assms(3,4) v(2)
    by (simp add: url_params_def url_query_def qp_display_def)
  ultimately show ?thesis using v(1,3) by (simp add: url_parse_def)
qed

lemma same_but_query_refl: "same_but_query ul u u"
  by (simp add: same_but_query_def)

lemma same_but_query_trans: "same_but_query ul u v \<Longrightarrow> same_but_query ul v w \<Longrightarrow> same_but_query ul u w"
  by (simp add: same_but_query_def)

lemma same_but_query_hosted: "same_but_query ul u v \<Longrightarrow> hosted ul u \<Longrightarrow> hosted ul v"
  by (simp add: same_but_query_def hosted_def)

lemma url_params_grouped: "grouped (url_params p ul il x)"
  by (simp add: url_params_def query_always_grouped)

lemma copy_edit_params:
  assumes "query_law ul f" "hosted ul u" "\<forall>ps. p (f ps) = ps" "grouped_edit e"
  shows "\<exists>v. copy_edit ul il p f sf e (Absolute u) = Inr (Absolute v) \<and> same_but_query ul u v \<and>
    url_params p ul il (Absolute v) = edit_params sf e (url_params p ul il (Absolute u))"
proof -
  let ?ps = "edit_params sf e (url_params p ul il (Absolute u))"
  have "grouped ?ps" using assms(4) url_params_grouped by (rule edit_params_grouped)
  then obtain v where "with_params ul il f ?ps (Absolute u) = Inr (Absolute v)" "same_but_query ul u v"
    "url_params p ul il (Absolute v) = ?ps"
    using with_params_query [OF assms(1,2)] assms(3) by blast
  then show ?thesis
    using same_but_query_refl [of ul u]
    by (cases e)
      (auto simp: py_url_copy_set_param_def copy_set_param_def py_url_copy_add_param_def copy_add_param_def
        py_url_copy_remove_param_def copy_remove_param_def py_url_copy_merge_params_def
        copy_merge_params_def py_params_merge_def split: option.splits)
qed

text \<open>
  C34. The parameters of an absolute URL that has a host, and does not end in the bare \<^verbatim>\<open>#\<close> of an empty
  fragment, are a dictionary like any \<^verbatim>\<open>QueryParams\<close>: after any sequence of \<open>copy_set_param\<close>,
  \<open>copy_add_param\<close>, \<open>copy_remove_param\<close> and \<open>copy_merge_params\<close> the URL's parameters are what the
  same operations make of its parameters, and no other component has changed.  The URL library reads back the
  form-encoded query a copy is given, and the form encoding what it wrote.
\<close>

theorem url_params_dictionary:
  assumes "query_law ul form_serialize" "hosted ul u" "\<forall>ps. form_parse (form_serialize ps) = ps"
    "list_all grouped_edit es"
  shows "\<exists>v. copy_edits ul il form_parse form_serialize show_float es (Absolute u) = Inr (Absolute v) \<and>
    same_but_query ul u v \<and>
    url_params form_parse ul il (Absolute v) =
      fold (edit_params show_float) es (url_params form_parse ul il (Absolute u))"
  using assms(2,4)
proof (induction es arbitrary: u)
  case Nil
  show ?case by (simp add: same_but_query_refl)
next
  case (Cons e es)
  obtain v where v: "copy_edit ul il form_parse form_serialize show_float e (Absolute u) = Inr (Absolute v)"
    "same_but_query ul u v" "url_params form_parse ul il (Absolute v) =
      edit_params show_float e (url_params form_parse ul il (Absolute u))"
    using copy_edit_params [OF assms(1) Cons.prems(1) assms(3), of e il show_float] Cons.prems(2) by auto
  with Cons.IH [OF same_but_query_hosted [OF v(2) Cons.prems(1)]] Cons.prems(2) show ?case
    by (auto intro: same_but_query_trans)
qed

text \<open>A library whose URLs differ in their query only, and a form encoding that has an inverse.\<close>

definition query_urls :: "string url_lib" where
  "query_urls =
     \<lparr>u_parse = (\<lambda>s. if s = ''http://h'' then Inr []
        else if starts_with ''http://h?'' s then Inr (drop 9 s) else Inl RelativeUrlWithoutBase),
      u_str = (\<lambda>u. ''http://h'' @ (if u = [] then [] else ''?'' @ u)), u_scheme = (\<lambda>_. ''http''),
      u_username = (\<lambda>_. []), u_password = (\<lambda>_. None), u_host = (\<lambda>_. Some (Domain ''h'')),
      u_host_str = (\<lambda>_. Some ''h''), u_port = (\<lambda>_. None), u_port_or_known_default = (\<lambda>_. Some 80),
      u_path = (\<lambda>_. []), u_query = nonempty, u_fragment = (\<lambda>_. None), u_has_authority = (\<lambda>_. True),
      u_join = (\<lambda>u s. Inr u), u_set_path = (\<lambda>_ u. u), u_set_query = (\<lambda>q u. or_empty q),
      u_origin = (\<lambda>_. Some (''http'', Domain ''h'', 80))\<rparr>"

lemma query_urls_law: "hosted query_urls u" "query_law query_urls f"
  by (auto simp: hosted_def query_law_def query_urls_def url_text_with_def same_but_query_def
      nonempty_def or_empty_def starts_with_def)

definition toy_text :: "string \<Rightarrow> string" where
  "toy_text s = concat (map (\<lambda>c. [CHR ''+'', c]) s)"

definition toy_serialize :: "pairs \<Rightarrow> string" where
  "toy_serialize ps = concat (map (\<lambda>(k, v). toy_text k @ ''=='' @ toy_text v @ ''&&'') ps)"

fun toy_scan :: "string \<Rightarrow> string \<Rightarrow> string \<Rightarrow> pairs" where
  "toy_scan k cur (a # b # s) =
     (if a = CHR ''+'' then toy_scan k (cur @ [b]) s
      else if a = CHR ''='' then toy_scan cur [] s
      else (k, cur) # toy_scan [] [] s)"
| "toy_scan k cur _ = []"

lemma toy_scan_text: "toy_scan k cur (toy_text s @ r) = toy_scan k (cur @ s) r"
  by (induction s arbitrary: cur) (auto simp: toy_text_def)

lemma toy_round: "toy_scan [] [] (toy_serialize ps) = ps"
  by (induction ps) (auto simp: toy_serialize_def toy_scan_text)

lemma url_params_dictionary_witness:
  "\<exists>v. copy_edits query_urls plain_refs (toy_scan [] []) toy_serialize (\<lambda>_. [])
     [AddParam ''a'' (Some (SInt 1)), AddParam ''b'' None, SetParam ''a'' (Some (SBool True)),
      MergeParams (Some [(''b'', ''x'')]), RemoveParam ''c''] (Absolute []) = Inr (Absolute v) \<and>
     url_params (toy_scan [] []) query_urls plain_refs (Absolute v) = [(''a'', ''true''), (''b'', ''x'')]"
proof -
  let ?es = "[AddParam ''a'' (Some (SInt 1)), AddParam ''b'' None, SetParam ''a'' (Some (SBool True)),
      MergeParams (Some [(''b'', ''x'')]), RemoveParam ''c'']"
  have "grouped [(''b'', ''x'')]"
    unfolding grouped_def by (rule exI [of _ "[(''b'', [''x''])]"]) (simp add: odict_ok_def)
  then have "list_all grouped_edit ?es" by (simp add: grouped_edit_def)
  moreover have "fold (edit_params (\<lambda>_. [])) ?es (url_params (toy_scan [] []) query_urls plain_refs (Absolute [])) =
      [(''a'', ''true''), (''b'', ''x'')]"
    by code_simp
  ultimately show ?thesis
    using url_params_dictionary [OF query_urls_law(2) query_urls_law(1), of "toy_scan [] []" toy_serialize ?es
        plain_refs "\<lambda>_. []" "[]"] toy_round by fastforce
qed


section \<open>Text, equality and hashing\<close>

definition py_url_str :: "'u url_lib \<Rightarrow> 'r iri_lib \<Rightarrow> ('u, 'r) url_reference \<Rightarrow> string" where
  "py_url_str ul il x = url_display ul il x"

definition py_url_hash ::
  "'u url_lib \<Rightarrow> 'r iri_lib \<Rightarrow> (string \<Rightarrow> 'a) \<Rightarrow> ('u, 'r) url_reference \<Rightarrow> 'a" where
  "py_url_hash ul il hasher x = url_hash ul il hasher x"

definition py_url_params ::
  "(string \<Rightarrow> pairs) \<Rightarrow> 'u url_lib \<Rightarrow> 'r iri_lib \<Rightarrow> ('u, 'r) url_reference \<Rightarrow> pairs" where
  "py_url_params form_parse ul il x = url_params form_parse ul il x"

definition py_url_is_absolute :: "'u url_lib \<Rightarrow> ('u, 'r) url_reference \<Rightarrow> bool" where
  "py_url_is_absolute ul x \<longleftrightarrow> is_absolute ul x"

definition py_url_is_relative :: "'u url_lib \<Rightarrow> ('u, 'r) url_reference \<Rightarrow> bool" where
  "py_url_is_relative ul x \<longleftrightarrow> \<not> is_absolute ul x"

text \<open>
  Two URL objects are equal exactly when they print alike, and then they hash alike; a string is equal to a
  URL exactly when it parses to one that prints alike, and nothing else is equal to a URL.
\<close>

theorem url_equality:
  "(py_url_eq ul il (UrlObj y) x \<longleftrightarrow> py_url_str ul il x = py_url_str ul il y) \<and>
   (py_url_eq ul il (UrlObj y) x \<longrightarrow> py_url_hash ul il hasher x = py_url_hash ul il hasher y) \<and>
   (py_url_eq ul il (UrlText s) x \<longleftrightarrow>
      (\<exists>y. url_parse ul il s = Inr y \<and> py_url_str ul il y = py_url_str ul il x)) \<and>
   \<not> py_url_eq ul il (NotUrl t) x"
  by (cases "url_parse ul il s")
    (auto simp: py_url_eq_def url_extract_def url_eq_def py_url_str_def py_url_hash_def url_hash_def)

text \<open>
  So a URL is equal to strings that are not equal to each other, and no hash of the URL can be the hash
  of each of them, whatever \<open>str_hash\<close> Python has: a URL and a string it is equal to are two keys of
  a dictionary.
\<close>

theorem url_equal_strings_hash_apart:
  assumes "url_parse ul il s = Inr x" "url_parse ul il t = Inr y" "py_url_str ul il x = py_url_str ul il y"
    "str_hash s \<noteq> str_hash t"
  shows "py_url_eq ul il (UrlText s) x \<and> py_url_eq ul il (UrlText t) x \<and>
    (py_url_hash ul il hasher x \<noteq> str_hash s \<or> py_url_hash ul il hasher x \<noteq> str_hash t)"
  using assms by (auto simp: py_url_eq_def url_extract_def url_eq_def py_url_str_def)

lemma url_equal_strings_hash_apart_witness:
  "\<exists>x. py_url_eq ((one_url ''http'' (Some ''h'') ''/'')\<lparr>u_parse := \<lambda>_. Inr ()\<rparr>) plain_refs (UrlText ''http://h'') x \<and>
     py_url_eq ((one_url ''http'' (Some ''h'') ''/'')\<lparr>u_parse := \<lambda>_. Inr ()\<rparr>) plain_refs (UrlText ''http://h/'') x"
  using url_equal_strings_hash_apart [of "(one_url ''http'' (Some ''h'') ''/'')\<lparr>u_parse := \<lambda>_. Inr ()\<rparr>"
      plain_refs "''http://h''" "Absolute ()" "''http://h/''" "Absolute ()" length length]
  by (auto simp: url_parse_def)

end
