(* ===== verification/Rqx_Python.thy ===== *)
theory Rqx_Python
  imports Rqx_Context Rqx_PyUrl
begin

text \<open>
  The remaining Python classes: \<^verbatim>\<open>Headers\<close> (\<^verbatim>\<open>rqx/src/headers.rs\<close>) as an object that a
  response shares with its caller, \<^verbatim>\<open>QueryParams\<close> (\<^verbatim>\<open>rqx/src/query_params.rs\<close>), the two
  transports (\<^verbatim>\<open>rqx/src/transport.rs\<close>), \<^verbatim>\<open>Retry\<close> and \<^verbatim>\<open>RedirectPolicy\<close>.
\<close>


section \<open>Headers\<close>

definition py_headers_new ::
  "('h, 'v) header_map \<Rightarrow> (string \<times> string) list option \<Rightarrow> py_rqx_error + 'h" where
  "py_headers_new hm init = map_sum Core id (headers_new hm init)"

definition py_headers_getitem :: "('h, 'v) header_map \<Rightarrow> string \<Rightarrow> 'h \<Rightarrow> py_rqx_error + string" where
  "py_headers_getitem hm key h = map_sum Core id (get_joined hm key h)"

definition py_headers_setitem ::
  "('h, 'v) header_map \<Rightarrow> string \<Rightarrow> string \<Rightarrow> 'h \<Rightarrow> 'h \<times> (py_rqx_error + unit)" where
  "py_headers_setitem hm key val h =
     (case set_item hm key val h of Inl e \<Rightarrow> (h, Inl (Core e)) | Inr h' \<Rightarrow> (h', Inr ()))"

definition py_headers_delitem ::
  "('h, 'v) header_map \<Rightarrow> string \<Rightarrow> 'h \<Rightarrow> 'h \<times> (py_rqx_error + unit)" where
  "py_headers_delitem hm key h = (case delete_item hm key h of (h', r) \<Rightarrow> (h', map_sum Core id r))"

definition py_headers_contains :: "('h, 'v) header_map \<Rightarrow> string \<Rightarrow> 'h \<Rightarrow> bool" where
  "py_headers_contains hm key h = headers_contains hm key h"

text \<open>What iterating yields.\<close>

definition py_headers_iter :: "('h, 'v) header_map \<Rightarrow> 'h \<Rightarrow> string list" where
  "py_headers_iter hm h = headers_keys hm h"

definition py_headers_len :: "('h, 'v) header_map \<Rightarrow> 'h \<Rightarrow> nat" where
  "py_headers_len hm h = headers_length hm h"

definition py_headers_keys :: "('h, 'v) header_map \<Rightarrow> 'h \<Rightarrow> string list" where
  "py_headers_keys hm h = headers_keys hm h"

definition py_headers_values :: "('h, 'v) header_map \<Rightarrow> 'h \<Rightarrow> string list" where
  "py_headers_values hm h = headers_values hm h"

definition py_headers_items :: "('h, 'v) header_map \<Rightarrow> 'h \<Rightarrow> (string \<times> string) list" where
  "py_headers_items hm h = headers_items hm h"

text \<open>
  \<^verbatim>\<open>Headers\<close> as a mapping: iterating gives each name once, and the length, membership,
  \<^verbatim>\<open>[]\<close> and \<^verbatim>\<open>get\<close> go by it, a lookup joining the values \<^verbatim>\<open>items\<close> has for
  the name.  But \<^verbatim>\<open>values\<close> has an entry for every stored value, as \<^verbatim>\<open>items\<close> does: it is as
  long as \<^verbatim>\<open>keys\<close> exactly when no name is stored twice, and lined up with it only then.
\<close>

lemma distinct_length_set: "distinct xs \<Longrightarrow> set xs = set ys \<Longrightarrow> length xs \<le> length ys \<and> (length xs = length ys \<longleftrightarrow> distinct ys)"
  by (metis card_distinct card_length distinct_card)

theorem headers_mapping:
  assumes "header_map_ok hm"
  shows "distinct (py_headers_iter hm h) \<and> py_headers_keys hm h = py_headers_iter hm h \<and>
    py_headers_len hm h = length (py_headers_iter hm h) \<and>
    set (py_headers_iter hm h) = fst ` set (py_headers_items hm h) \<and>
    py_headers_getitem hm k h =
      (if py_headers_contains hm k h then
         Inr (join_str '', '' (map snd (filter (\<lambda>(n, _). hm_name hm k = Inr n) (py_headers_items hm h))))
       else Inl (Core (MissingKey k))) \<and>
    (headers_get hm k d h = d \<or> py_headers_contains hm k h) \<and>
    py_headers_values hm h = map snd (py_headers_items hm h) \<and>
    py_headers_len hm h \<le> length (py_headers_values hm h) \<and>
    (py_headers_len hm h = length (py_headers_values hm h) \<longleftrightarrow> distinct (map fst (py_headers_items hm h)))"
proof -
  note laws = header_map_laws [OF assms]
  have len: "headers_length hm h = length (headers_keys hm h)"
    using assms by (simp add: headers_length_def headers_keys_def header_map_ok_def)
  have items: "map fst (headers_items hm h) = map fst (hm_entries hm h)"
    by (simp add: headers_items_def case_prod_beta' comp_def)
  then have keys: "set (headers_keys hm h) = set (map fst (headers_items hm h))"
    using laws(5) by (simp add: headers_keys_def)
  note count = distinct_length_set [OF laws(6) [folded headers_keys_def] keys]
  have joined: "map snd (filter (\<lambda>(n, _). hm_name hm k = Inr n) (headers_items hm h)) =
      map (shown_value hm) (entries_for hm k h)"
    by (simp add: entries_for_def headers_items_def filter_map case_prod_beta' comp_def)
  have "headers_values hm h = map snd (headers_items hm h)"
    by (simp add: headers_values_def headers_items_def case_prod_beta' comp_def)
  moreover have "py_headers_getitem hm k h =
      (if py_headers_contains hm k h then
         Inr (join_str '', '' (map snd (filter (\<lambda>(n, _). hm_name hm k = Inr n) (headers_items hm h))))
       else Inl (Core (MissingKey k)))"
    unfolding joined py_headers_getitem_def get_joined_def py_headers_contains_def headers_contains_def laws(2,4) Let_def
    by simp
  moreover have "headers_get hm k d h = d \<or> py_headers_contains hm k h"
    unfolding headers_get_def get_joined_def py_headers_contains_def headers_contains_def laws(2,4) Let_def by simp
  ultimately show ?thesis
    using len count keys laws(6) [of h] by (simp add: py_headers_iter_def py_headers_keys_def py_headers_len_def
        py_headers_items_def py_headers_values_def headers_keys_def [symmetric])
qed

text \<open>
  The object that \<^verbatim>\<open>response.headers\<close> returns is the one in the response's cache, so what a
  program does to it is done to the cache.
\<close>

definition on_pr_headers ::
  "('h \<Rightarrow> 'h \<times> 'a) \<Rightarrow> ('h, 'u) py_response \<Rightarrow> ('h, 'u) py_response \<times> 'a" where
  "on_pr_headers f r =
     (case pr_get_headers r of (r', h) \<Rightarrow> (case f h of (h', x) \<Rightarrow> (r'\<lparr>pr_headers := Some h'\<rparr>, x)))"

definition on_sr_headers ::
  "('h \<Rightarrow> 'h \<times> 'a) \<Rightarrow> ('h, 'u) stream_response \<Rightarrow> ('h, 'u) stream_response \<times> 'a" where
  "on_sr_headers f r =
     (case sr_get_headers r of (r', h) \<Rightarrow> (case f h of (h', x) \<Rightarrow> (r'\<lparr>sr_headers := Some h'\<rparr>, x)))"

text \<open>A sequence of assignments and deletions on \<^verbatim>\<open>response.headers\<close>.\<close>

datatype header_edit = SetHeader string string | DelHeader string

fun edit_headers :: "('h, 'v) header_map \<Rightarrow> header_edit \<Rightarrow> 'h \<Rightarrow> 'h \<times> (py_rqx_error + unit)" where
  "edit_headers hm (SetHeader k v) h = py_headers_setitem hm k v h"
| "edit_headers hm (DelHeader k) h = py_headers_delitem hm k h"

definition edit_response ::
  "('h, 'v) header_map \<Rightarrow> header_edit list \<Rightarrow> ('h, 'u) py_response \<Rightarrow> ('h, 'u) py_response" where
  "edit_response hm es r = fold (\<lambda>e r. fst (on_pr_headers (edit_headers hm e) r)) es r"

lemma edit_response_view:
  "pr_inner (edit_response hm es r) = pr_inner r \<and>
   snd (pr_get_headers (edit_response hm es r)) =
     fold (\<lambda>e h. fst (edit_headers hm e h)) es (snd (pr_get_headers r))"
proof (induction es arbitrary: r)
  case Nil
  show ?case by (simp add: edit_response_def)
next
  case (Cons e es)
  have "pr_inner (fst (on_pr_headers (edit_headers hm e) r)) = pr_inner r \<and>
      snd (pr_get_headers (fst (on_pr_headers (edit_headers hm e) r))) =
        fst (edit_headers hm e (snd (pr_get_headers r)))"
    by (cases "pr_headers r")
      (simp_all add: on_pr_headers_def pr_get_headers_def get_or_init_def split: prod.split)
  with Cons.IH [of "fst (on_pr_headers (edit_headers hm e) r)"] show ?case
    by (simp add: edit_response_def)
qed

text \<open>
  \<^verbatim>\<open>response.headers\<close> is a mutable view that shadows the response: edits of it are all seen by
  later reads of \<^verbatim>\<open>response.headers\<close>, in order, and by nothing else, so neither the text, the
  JSON, the encoding nor the outcome of \<^verbatim>\<open>raise_for_status\<close> can be changed through it.
\<close>

theorem header_edits_only_shadow:
  "snd (pr_get_headers (edit_response hm es (py_response_from b))) =
     fold (\<lambda>e h. fst (edit_headers hm e h)) es (headers (b_parts b)) \<and>
   pr_text hm en (edit_response hm es r) = pr_text hm en r \<and>
   pr_json hm parse (edit_response hm es r) = pr_json hm parse r \<and>
   encoding hm en (b_parts (pr_inner (edit_response hm es r))) = encoding hm en (b_parts (pr_inner r)) \<and>
   status_error hm reason show_url (b_parts (pr_inner (edit_response hm es r))) =
     status_error hm reason show_url (b_parts (pr_inner r))"
proof -
  have "snd (pr_get_headers (py_response_from b)) = headers (b_parts b)"
    by (simp add: pr_get_headers_def py_response_from_def get_or_init_def)
  then show ?thesis
    using edit_response_view [of hm es r] edit_response_view [of hm es "py_response_from b"]
    by (simp add: pr_text_def pr_json_def)
qed


section \<open>Query parameters\<close>

definition py_params_get :: "string \<Rightarrow> string option \<Rightarrow> pairs \<Rightarrow> string option" where
  "py_params_get key dflt ps = (case qp_get key ps of Some v \<Rightarrow> Some v | None \<Rightarrow> dflt)"

definition py_params_values :: "pairs \<Rightarrow> string list" where
  "py_params_values ps = map snd (qp_first_items ps)"

definition py_params_set :: "(fl \<Rightarrow> string) \<Rightarrow> string \<Rightarrow> scalar_value option \<Rightarrow> pairs \<Rightarrow> pairs" where
  "py_params_set show_float key v ps = qp_set key (qp_scalar show_float v) ps"

definition py_params_add :: "(fl \<Rightarrow> string) \<Rightarrow> string \<Rightarrow> scalar_value option \<Rightarrow> pairs \<Rightarrow> pairs" where
  "py_params_add show_float key v ps = qp_add key (qp_scalar show_float v) ps"

definition py_params_update :: "py_err + unit" where
  "py_params_update = Inl (immutable ''merge(...)'')"

definition py_params_setitem :: "py_err + unit" where
  "py_params_setitem = Inl (immutable ''set(key, value)'')"

definition py_params_get_list :: "string \<Rightarrow> pairs \<Rightarrow> string list" where
  "py_params_get_list key ps = qp_get_list key ps"

definition py_params_keys :: "pairs \<Rightarrow> string list" where
  "py_params_keys ps = qp_keys ps"

definition py_params_items :: "pairs \<Rightarrow> (string \<times> string) list" where
  "py_params_items ps = qp_first_items ps"

definition py_params_multi_items :: "pairs \<Rightarrow> (string \<times> string) list" where
  "py_params_multi_items ps = map (\<lambda>(key, v). (key, v)) ps"

definition py_params_remove :: "string \<Rightarrow> pairs \<Rightarrow> pairs" where
  "py_params_remove key ps = qp_remove key ps"

definition py_params_contains :: "string \<Rightarrow> pairs \<Rightarrow> bool" where
  "py_params_contains key ps = qp_contains key ps"

text \<open>What iterating yields.\<close>

definition py_params_iter :: "pairs \<Rightarrow> string list" where
  "py_params_iter ps = qp_keys ps"

definition py_params_str :: "(pairs \<Rightarrow> string) \<Rightarrow> pairs \<Rightarrow> string" where
  "py_params_str form_serialize ps = qp_display form_serialize ps"

text \<open>\<open>None\<close> is an object of another class.\<close>

definition py_params_eq :: "pairs option \<Rightarrow> pairs \<Rightarrow> bool" where
  "py_params_eq other ps = (case other of Some q \<Rightarrow> qp_eq ps q | None \<Rightarrow> False)"

definition py_params_hash :: "(pairs \<Rightarrow> 'a) \<Rightarrow> pairs \<Rightarrow> 'a" where
  "py_params_hash hasher ps = qp_hash hasher ps"

definition py_params_bool :: "pairs \<Rightarrow> bool" where
  "py_params_bool ps \<longleftrightarrow> ps \<noteq> []"

definition py_params_repr :: "(pairs \<Rightarrow> string) \<Rightarrow> pairs \<Rightarrow> string" where
  "py_params_repr form_serialize ps =
     ''QueryParams('' @ QUOTE @ qp_display form_serialize ps @ QUOTE @ '')''"


lemma keys_loop_set: "set (keys_loop ks ps) = set ks \<union> fst ` set ps"
  by (induction ks ps rule: keys_loop.induct) auto

lemma keys_loop_distinct: "distinct ks \<Longrightarrow> distinct (keys_loop ks ps)"
  by (induction ks ps rule: keys_loop.induct) auto

lemma qp_keys_set: "set (qp_keys ps) = fst ` set ps" "distinct (qp_keys ps)"
  by (simp_all add: qp_keys_def keys_loop_set keys_loop_distinct)

lemma qp_get_keys: "qp_get k ps = None \<longleftrightarrow> k \<notin> set (qp_keys ps)"
  by (force simp: qp_get_def qp_keys_set find_None_iff)

lemma map_of_first_items: "map_of (qp_first_items ps) k = qp_get k ps"
  using qp_get_keys [of k ps]
  by (auto simp: qp_first_items_def map_of_map_restrict restrict_map_def split: option.split)

text \<open>
  \<^verbatim>\<open>QueryParams\<close> is a Python mapping from each key to its first value, for any pairs: iterating
  gives the keys, each once; the length, membership, \<^verbatim>\<open>[]\<close>, \<^verbatim>\<open>get\<close>, \<^verbatim>\<open>keys\<close>,
  \<^verbatim>\<open>values\<close> and \<^verbatim>\<open>items\<close> agree with it, \<^verbatim>\<open>get_list\<close> has all the values and begins
  with that one, and a value is false when it is empty.  Equality ignores the order of the pairs and nothing
  else, equal values hash equally under any hasher, and assignment and \<^verbatim>\<open>update\<close> raise.
\<close>

theorem query_params_mapping:
  "distinct (py_params_iter ps) \<and> py_params_keys ps = py_params_iter ps \<and>
   py_params_len ps = length (py_params_iter ps) \<and> (py_params_bool ps \<longleftrightarrow> py_params_len ps \<noteq> 0) \<and>
   (py_params_contains k ps \<longleftrightarrow> k \<in> set (py_params_iter ps)) \<and>
   map fst (py_params_items ps) = py_params_iter ps \<and> map snd (py_params_items ps) = py_params_values ps \<and>
   py_params_getitem k ps = (case map_of (py_params_items ps) k of Some v \<Rightarrow> Inr v | None \<Rightarrow> Inl (new_err PyKeyError k)) \<and>
   py_params_get k d ps = (case map_of (py_params_items ps) k of Some v \<Rightarrow> Some v | None \<Rightarrow> d) \<and>
   py_params_get_list k ps = map snd (filter (\<lambda>(k', _). k' = k) (py_params_multi_items ps)) \<and>
   py_params_getitem k ps = (case py_params_get_list k ps of [] \<Rightarrow> Inl (new_err PyKeyError k) | v # _ \<Rightarrow> Inr v) \<and>
   (py_params_eq (Some qs) ps \<longleftrightarrow> mset (py_params_multi_items qs) = mset (py_params_multi_items ps)) \<and>
   (\<not> py_params_eq (Some qs) ps \<or> py_params_hash hasher qs = py_params_hash hasher ps) \<and>
   isl py_params_setitem \<and> isl py_params_update"
proof -
  have "qp_keys ps = [] \<longleftrightarrow> ps = []" using qp_keys_set(1) [of ps] by (metis image_is_empty set_empty)
  then have "py_params_bool ps \<longleftrightarrow> py_params_len ps \<noteq> 0" by (simp add: py_params_bool_def py_params_len_def)
  moreover have "py_params_eq (Some qs) ps \<longleftrightarrow> mset qs = mset ps"
    by (simp add: py_params_eq_def qp_eq_def qp_sorted_def sort_eq_mset) (auto)
  moreover have "py_params_eq (Some qs) ps \<Longrightarrow> py_params_hash hasher qs = py_params_hash hasher ps"
    by (simp add: py_params_eq_def qp_eq_def py_params_hash_def qp_hash_def)
  moreover have "map fst (qp_first_items ps) = qp_keys ps" by (simp add: qp_first_items_def comp_def)
  moreover have "py_params_multi_items qs = qs" for qs by (simp add: py_params_multi_items_def case_prod_beta')
  ultimately show ?thesis
    using qp_keys_set
    by (auto simp: py_params_iter_def py_params_keys_def py_params_len_def py_params_contains_def contains_iff
        py_params_items_def py_params_values_def py_params_getitem_def py_params_get_def map_of_first_items
        py_params_get_list_def qp_get_list_def [of k ps, symmetric] get_first_of_list py_params_setitem_def
        py_params_update_def split: option.split list.split)
qed


section \<open>Transports and policies\<close>

text \<open>\<^verbatim>\<open>HTTPTransport\<close> and \<^verbatim>\<open>AsyncHTTPTransport\<close> are built alike and share a getter.\<close>

definition py_transport_new ::
  "('c, 'i, 'p) tls_lib \<Rightarrow> (('c, 'i, 'p) client_builder \<Rightarrow> reqwest_error + unit) \<Rightarrow> transport_args \<Rightarrow>
     (py_rqx_error + transport) option" where
  "py_transport_new lib build a =
     (case transport_config_from lib a of
        Inl e \<Rightarrow> Some (Inl e)
      | Inr tc \<Rightarrow> map_option (map_sum Core id) (transport_new build tc))"

definition py_async_transport_new ::
  "('c, 'i, 'p) tls_lib \<Rightarrow> (('c, 'i, 'p) client_builder \<Rightarrow> reqwest_error + unit) \<Rightarrow> transport_args \<Rightarrow>
     (py_rqx_error + transport) option" where
  "py_async_transport_new lib build a =
     (case transport_config_from lib a of
        Inl e \<Rightarrow> Some (Inl e)
      | Inr tc \<Rightarrow> map_option (map_sum Core id) (transport_new build tc))"

definition py_transport_retries :: "transport \<Rightarrow> retry option" where
  "py_transport_retries t = tr_retry t"

definition py_retry_new where
  "py_retry_new tot connect read status factor bmax jitter forcelist methods respect raise timeout =
     retry_new tot connect read status factor bmax jitter forcelist methods respect raise timeout"

definition py_policy_new :: "bool option \<Rightarrow> u32 option \<Rightarrow> bool option \<Rightarrow> redirect_policy" where
  "py_policy_new follow max_redirects raise_on_exceeded =
     policy_with_defaults follow max_redirects raise_on_exceeded"

text \<open>A client given a transport built from the same options is the client given the options.\<close>

definition split_args :: "('u, 'r) client_args \<Rightarrow> transport \<Rightarrow> ('u, 'r) client_args" where
  "split_args a t = a\<lparr>na_verify := None, na_cert := None, na_transport := Some t\<rparr>"

lemma map_sum_Inr: "map_sum f id z = Inr t \<longleftrightarrow> z = Inr t"
  by (cases z) auto

theorem client_from_transport:
  assumes "na_transport a = None" "na_timeout a = None"
    "py_transport_new lib build (default_transport_args\<lparr>ta_verify := na_verify a, ta_cert := na_cert a\<rparr>) =
      Some (Inr t)"
  shows "py_client_new lib build ul il (split_args a t) = py_client_new lib build ul il a"
proof -
  obtain tc where "transport_config_from lib (default_transport_args\<lparr>ta_verify := na_verify a,
      ta_cert := na_cert a\<rparr>) = Inr tc" "transport_new build tc = Some (Inr t)"
    using assms(3) by (auto simp: py_transport_new_def map_sum_Inr split: sum.splits)
  moreover have "default_transport_args\<lparr>ta_verify := na_verify a, ta_cert := na_cert a,
      ta_timeout := None\<rparr> = default_transport_args\<lparr>ta_verify := na_verify a, ta_cert := na_cert a\<rparr>"
    by (simp add: default_transport_args_def)
  moreover have "client_config_from ul il (split_args a t) = client_config_from ul il a"
    by (simp add: split_args_def client_config_from_def cong: sum.case_cong)
  ultimately show ?thesis
    using assms(1,2)
    by (cases "client_config_from ul il a") (simp_all add: py_client_new_def split_args_def)
qed


section \<open>The clients as objects\<close>

text \<open>Their getters, over the core's; the cookies are a copy of the jar.\<close>

definition client_base_url :: "'u client \<Rightarrow> 'u option" where
  "client_base_url cl = cc_base_url (cl_config cl)"

definition client_redirects :: "'u client \<Rightarrow> redirect_policy" where
  "client_redirects cl = cc_redirects (cl_config cl)"

definition cookies_snapshot :: "'w \<times> cookies \<Rightarrow> cookies" where
  "cookies_snapshot s = snd s"

definition py_client_base_url :: "'u client \<Rightarrow> ('u, 'r) url_reference option" where
  "py_client_base_url cl = map_option Absolute (client_base_url cl)"

text \<open>
  The context managers: the sync client's return the client and nothing; the async client's are futures
  on the runtime.  An exit that returns a true value would swallow the exception it is called with.
\<close>

definition py_client_enter :: "'u client \<Rightarrow> 'u client" where
  "py_client_enter cl = cl"

definition py_client_exit :: "'u client \<Rightarrow> 'u client \<times> unit" where
  "py_client_exit cl = (cl, ())"

definition py_async_client_enter :: "py_err option \<Rightarrow> 'u client \<Rightarrow> py_err + ('s, 'u client) future" where
  "py_async_client_enter rt cl = future_into_py rt (\<lambda>s. Some (s, Inr cl))"

definition py_async_client_exit :: "py_err option \<Rightarrow> 'u client \<Rightarrow> py_err + ('s, bool) future" where
  "py_async_client_exit rt cl = future_into_py rt (\<lambda>s. Some (s, Inr False))"

text \<open>
  What the constructor was given is what the getters return: the base URL with its path ended by a slash
  and the policy the options make; and both kinds of client report the same.
\<close>

theorem client_reports_options:
  assumes "py_client_new lib build ul il a = Some (Inr cl)"
  shows "py_async_client_new lib build ul il a = Some (Inr cl) \<and>
    valid_policy_from_options (na_follow_redirects a) (na_max_redirects a) (na_redirects a) =
      Inr (client_redirects cl) \<and>
    py_client_base_url cl = (case na_base_url a of
        None \<Rightarrow> None
      | Some x \<Rightarrow> (case x of Absolute u \<Rightarrow> Some (Absolute (with_trailing_slash ul u)) | Relative _ \<Rightarrow> None))"
  using assms
  by (auto simp: py_async_client_new_def py_client_new_def client_config_from_def client_new_def
      py_client_base_url_def client_base_url_def client_redirects_def client_config_new_def base_url_new_def Let_def
      split: if_splits option.splits sum.splits url_reference.splits)

end
