(* ===== verification/Rqx_Decimal.thy ===== *)
theory Rqx_Decimal
  imports Rqx_Retry
begin

text \<open>
  What \<^verbatim>\<open>rqx/src/py_utils/repr.rs\<close> relies on of the language: rounding to the nearest double, reading a
  decimal back, and the shortest digits that read back as a double, which \<^verbatim>\<open>{:?}\<close> and \<^verbatim>\<open>{:e}\<close> print.
  The lemmas show that rounding is monotone, that seventeen digits always read back, and that the
  shortest digits are where a search of the decade's grid finds them.
\<close>


section \<open>Rounding to nearest\<close>

lemma bit_length_bounds: "0 < n \<Longrightarrow> 2 ^ (bit_length n - 1) \<le> n \<and> n < 2 ^ bit_length n \<and> 0 < bit_length n"
proof (induction n rule: bit_length.induct)
  case (1 n)
  show ?case
  proof (cases "n div 2 = 0")
    case True
    with "1.prems" have "n = 1" by auto
    then show ?thesis by (simp add: bit_length.simps)
  next
    case False
    with "1.IH" "1.prems" have ih: "2 ^ (bit_length (n div 2) - 1) \<le> n div 2"
      "n div 2 < 2 ^ bit_length (n div 2)" "0 < bit_length (n div 2)" by auto
    then obtain j where j: "bit_length (n div 2) = Suc j" by (cases "bit_length (n div 2)") auto
    have "bit_length n = Suc (Suc j)"
      using "1.prems" j by (subst bit_length.simps) simp
    moreover have "n = 2 * (n div 2) + n mod 2" "n mod 2 < 2" by simp_all
    ultimately show ?thesis using ih j by auto
  qed
qed

lemma bit_length_mono: "n \<le> m \<Longrightarrow> bit_length n \<le> bit_length m"
  using bit_length_bounds [of m] by (cases "m = 0") (auto intro: bit_length_le)

lemma round_even_cases: "round_even y = \<lfloor>y\<rfloor> \<or> round_even y = \<lfloor>y\<rfloor> + 1"
  by (simp add: round_even_def Let_def)

lemma round_even_near: "\<bar>y - of_int n\<bar> < 1 / 2 \<Longrightarrow> round_even y = n"
proof -
  assume *: "\<bar>y - of_int n\<bar> < 1 / 2"
  show ?thesis
  proof (cases "of_int n \<le> y")
    case True
    with * have "\<lfloor>y\<rfloor> = n" by (simp add: floor_eq_iff)
    with * True show ?thesis by (simp add: round_even_def Let_def)
  next
    case False
    with * have "\<lfloor>y\<rfloor> = n - 1" by (simp add: floor_eq_iff)
    with * False show ?thesis by (simp add: round_even_def Let_def)
  qed
qed

lemma round_even_mono:
  assumes "x \<le> y"
  shows "round_even x \<le> round_even y"
proof (cases "\<lfloor>x\<rfloor> = \<lfloor>y\<rfloor>")
  case True
  with assms show ?thesis by (simp add: round_even_def Let_def)
next
  case False
  then have "\<lfloor>x\<rfloor> < \<lfloor>y\<rfloor>" using floor_mono [OF assms] by simp
  then show ?thesis using round_even_cases [of x] round_even_cases [of y] by auto
qed

lemma round_even_dist: "\<bar>of_int (round_even y) - y\<bar> \<le> 1 / 2"
  by (simp add: round_even_def Let_def; linarith)

text \<open>The unit of a format, and how many of them there are below a value.\<close>

definition units :: "fmt \<Rightarrow> real \<Rightarrow> nat" where
  "units m x = nat \<lfloor>\<bar>x\<bar> * 2 ^ min_exp m\<rfloor>"

definition shift_of :: "fmt \<Rightarrow> real \<Rightarrow> nat" where
  "shift_of m x = bit_length (units m x) - prec m"

lemma spacing_shift: "spacing m x = 2 ^ shift_of m x / 2 ^ min_exp m"
  by (simp add: spacing_def shift_of_def units_def)

lemma spacing_pos [simp]: "0 < spacing m x"
  by (simp add: spacing_def)

lemma units_below:
  assumes "0 \<le> y"
  shows "y * 2 ^ min_exp m < 2 ^ (prec m + shift_of m y)"
proof -
  let ?Y = "y * 2 ^ min_exp m"
  have "units m y < 2 ^ (prec m + shift_of m y)"
  proof (cases "units m y = 0")
    case False
    then have "units m y < 2 ^ bit_length (units m y)" using bit_length_bounds by simp
    also have "\<dots> \<le> 2 ^ (prec m + shift_of m y)"
      by (intro power_increasing) (simp_all add: shift_of_def)
    finally show ?thesis .
  qed simp
  then have "\<lfloor>?Y\<rfloor> < 2 ^ (prec m + shift_of m y)"
    using assms by (simp add: units_def nat_less_iff)
  then show ?thesis by (simp add: floor_less_iff)
qed

lemma units_above:
  assumes "0 \<le> y" "0 < shift_of m y" "0 < prec m"
  shows "2 ^ (prec m + shift_of m y - 1) \<le> y * 2 ^ min_exp m"
proof -
  let ?Y = "y * 2 ^ min_exp m"
  have B: "bit_length (units m y) = prec m + shift_of m y" using assms(2) by (simp add: shift_of_def)
  then have "0 < units m y" using assms(2) by (cases "units m y") (simp_all add: bit_length.simps [of 0])
  then have "2 ^ (prec m + shift_of m y - 1) \<le> units m y" using bit_length_bounds B by metis
  then have "2 ^ (prec m + shift_of m y - 1) \<le> \<lfloor>?Y\<rfloor>"
    using assms(1) by (simp add: units_def le_nat_iff)
  then show ?thesis by (simp add: le_floor_iff)
qed

lemma shift_mono: "0 \<le> x \<Longrightarrow> x \<le> y \<Longrightarrow> shift_of m x \<le> shift_of m y"
  unfolding shift_of_def units_def
  by (intro diff_le_mono bit_length_mono nat_mono floor_mono mult_right_mono) auto

definition nearest :: "fmt \<Rightarrow> real \<Rightarrow> real" where
  "nearest m x = of_int (round_even (x / spacing m x)) * spacing m x"

lemma round_fl_nearest: "round_fl m y = Fin x \<Longrightarrow> nearest m y = x"
  by (simp add: round_fl_def nearest_def Let_def split: if_splits)

lemma round_fl_FinI: "nearest m y = x \<Longrightarrow> \<bar>x\<bar> < 2 ^ max_exp m \<Longrightarrow> round_fl m y = Fin x"
  by (auto simp: round_fl_def nearest_def Let_def abs_less_iff)

lemma nearest_le_top:
  assumes "0 \<le> y"
  shows "nearest m y * 2 ^ min_exp m \<le> 2 ^ (prec m + shift_of m y)"
proof -
  let ?s = "shift_of m y"
  have "y / spacing m y < 2 ^ prec m"
    using units_below [OF assms, of m] by (simp add: spacing_shift field_simps power_add)
  then have "y / spacing m y \<le> of_int (2 ^ prec m)" by simp
  then have "round_even (y / spacing m y) \<le> 2 ^ prec m"
    using round_even_mono [of "y / spacing m y" "of_int (2 ^ prec m)"] by (metis round_even_int)
  then have "of_int (round_even (y / spacing m y)) \<le> (2::real) ^ prec m"
    by (metis of_int_le_iff of_int_numeral of_int_power)
  then have "of_int (round_even (y / spacing m y)) * (2::real) ^ ?s \<le> 2 ^ prec m * 2 ^ ?s"
    by (intro mult_right_mono) auto
  then show ?thesis by (simp add: nearest_def spacing_shift power_add)
qed

lemma nearest_ge_bottom:
  assumes "0 \<le> y" "0 < shift_of m y" "0 < prec m"
  shows "2 ^ (prec m + shift_of m y - 1) \<le> nearest m y * 2 ^ min_exp m"
proof -
  let ?s = "shift_of m y"
  obtain p where p: "prec m = Suc p" using assms(3) by (cases "prec m") auto
  have "2 ^ p \<le> y / spacing m y"
    using units_above [OF assms] by (simp add: spacing_shift field_simps power_add p)
  then have "of_int (2 ^ p) \<le> y / spacing m y" by simp
  then have "2 ^ p \<le> round_even (y / spacing m y)"
    using round_even_mono [of "of_int (2 ^ p)" "y / spacing m y"] by (metis round_even_int)
  then have "(2::real) ^ p \<le> of_int (round_even (y / spacing m y))"
    by (metis of_int_le_iff of_int_numeral of_int_power)
  then have "2 ^ p * (2::real) ^ ?s \<le> of_int (round_even (y / spacing m y)) * 2 ^ ?s"
    by (intro mult_right_mono) auto
  then show ?thesis by (simp add: nearest_def spacing_shift power_add p)
qed

lemma nearest_mono:
  assumes "0 \<le> x" "x \<le> y" "0 < prec m"
  shows "nearest m x \<le> nearest m y"
proof (cases "shift_of m x = shift_of m y")
  case True
  then have "spacing m x = spacing m y" by (simp add: spacing_shift)
  moreover have "round_even (x / spacing m y) \<le> round_even (y / spacing m y)"
    using assms(2) by (intro round_even_mono divide_right_mono) (auto simp: less_imp_le)
  ultimately show ?thesis by (simp add: nearest_def mult_right_mono less_imp_le)
next
  case False
  with shift_mono [OF assms(1,2), of m] have less: "shift_of m x < shift_of m y" by simp
  have "nearest m x * 2 ^ min_exp m \<le> 2 ^ (prec m + shift_of m x)"
    using assms(1) by (rule nearest_le_top)
  also have "(2::real) ^ (prec m + shift_of m x) \<le> 2 ^ (prec m + shift_of m y - 1)"
    using less assms(3) by (intro power_increasing) auto
  also have "\<dots> \<le> nearest m y * 2 ^ min_exp m"
    using less assms by (intro nearest_ge_bottom) auto
  finally show ?thesis by simp
qed

text \<open>What reads back as \<open>x\<close> is an interval.\<close>

definition reads_back :: "real \<Rightarrow> real \<Rightarrow> bool" where
  "reads_back x y \<longleftrightarrow> round_fl f64 y = Fin x"

lemma f64_prec [simp]: "prec f64 = 53"
  by (simp add: f64_def)

lemma reads_back_between:
  assumes "reads_back x a" "reads_back x b" "0 \<le> a" "a \<le> y" "y \<le> b" "\<bar>x\<bar> < 2 ^ max_exp f64"
  shows "reads_back x y"
proof -
  have "nearest f64 a = x" "nearest f64 b = x"
    using assms(1,2) by (simp_all add: reads_back_def round_fl_nearest)
  moreover have "nearest f64 a \<le> nearest f64 y" "nearest f64 y \<le> nearest f64 b"
    using assms(3-5) by (auto intro!: nearest_mono)
  ultimately show ?thesis using assms(6) by (auto simp: reads_back_def intro!: round_fl_FinI)
qed

text \<open>Close to a value of the format, rounding finds it.\<close>

lemma close_bounds:
  fixes X Y P :: real
  assumes "\<bar>Y - X\<bar> * (2 * P) < X" "1 \<le> P"
  shows "X * (2 * P - 1) < Y * (2 * P)" "Y * (2 * P) < X * (2 * P + 1)" "0 < Y"
proof -
  have "\<bar>(Y - X) * (2 * P)\<bar> < X" using assms by (simp add: abs_mult)
  then have "(Y - X) * (2 * P) < X" "- X < (Y - X) * (2 * P)" by linarith+
  then show low: "X * (2 * P - 1) < Y * (2 * P)" and "Y * (2 * P) < X * (2 * P + 1)"
    by (simp_all add: algebra_simps)
  have "0 \<le> \<bar>Y - X\<bar> * (2 * P)" using assms(2) by simp
  with assms(1) have "0 < X" by linarith
  with assms(2) have "0 < X * (2 * P - 1)" by simp
  with low have "0 < Y * (2 * P)" by linarith
  with assms(2) show "0 < Y" by (simp add: zero_less_mult_iff)
qed

lemma close_above:
  fixes X Y P B :: real
  assumes "Y * (2 * P) < X * (2 * P + 1)" "P * B \<le> Y" "1 \<le> P" "0 \<le> B"
  shows "(P - 1) * B < X"
proof (rule ccontr)
  assume "\<not> (P - 1) * B < X"
  then have "X * (2 * P + 1) \<le> ((P - 1) * B) * (2 * P + 1)" using assms(3) by (intro mult_right_mono) auto
  also have "\<dots> = (2 * P * P - P - 1) * B" by (simp add: algebra_simps)
  also have "\<dots> \<le> (2 * P * P) * B" using assms(3,4) by (intro mult_right_mono) auto
  also have "\<dots> \<le> Y * (2 * P)" using mult_right_mono [OF assms(2), of "2 * P"] assms(3) by (simp add: algebra_simps)
  finally show False using assms(1) by simp
qed

lemma close_below:
  fixes N Y P B :: real
  assumes "N * B * (2 * P - 1) < Y * (2 * P)" "Y < P * B" "1 \<le> P" "0 < B"
  shows "N < P + 1"
proof (rule ccontr)
  assume N: "\<not> N < P + 1"
  have "N * B * (2 * P - 1) < P * B * (2 * P)"
    using assms(1) mult_strict_right_mono [OF assms(2), of "2 * P"] assms(3) by linarith
  then have "B * (N * (2 * P - 1)) < B * (P * (2 * P))" by (simp only: mult_ac)
  then have "N * (2 * P - 1) < P * (2 * P)" using assms(4) by (simp add: mult_less_cancel_left_pos)
  moreover have "(P + 1) * (2 * P - 1) \<le> N * (2 * P - 1)" using N assms(3) by (intro mult_right_mono) auto
  ultimately show False using assms(3) by (simp add: algebra_simps)
qed

lemma near_multiple:
  assumes rep: "representable m x" and pos: "0 < x" "0 < prec m"
    and close: "\<bar>y - x\<bar> * 2 ^ Suc (prec m) < x"
  shows "\<exists>N. x * 2 ^ min_exp m = of_int N * 2 ^ shift_of m y \<and> N \<le> 2 ^ prec m"
proof -
  define P :: real where "P = 2 ^ prec m"
  define X where "X = x * 2 ^ min_exp m"
  define Y where "Y = y * 2 ^ min_exp m"
  define b where "b = shift_of m y"
  from rep obtain k e where k: "x = of_int k * 2 ^ e / 2 ^ min_exp m" "\<bar>k\<bar> < 2 ^ prec m"
    by (auto simp: representable_def)
  then have X: "X = of_int k * 2 ^ e" by (simp add: X_def)
  have "(of_int k :: real) \<le> of_int (2 ^ prec m - 1)" using k(2) by (simp only: of_int_le_iff)
  then have kP: "of_int k \<le> P - 1" by (simp add: P_def)
  have P: "1 \<le> P" by (simp add: P_def)
  have "\<bar>Y - X\<bar> = \<bar>y - x\<bar> * 2 ^ min_exp m"
    by (simp add: X_def Y_def left_diff_distrib [symmetric] abs_mult)
  then have "\<bar>Y - X\<bar> * (2 * P) < X"
    using mult_strict_right_mono [OF close, of "2 ^ min_exp m"] by (simp add: P_def X_def mult_ac)
  note YX = close_bounds [OF this P]
  then have ypos: "0 \<le> y" by (simp add: Y_def zero_less_mult_iff)
  have top: "Y < P * 2 ^ b"
    using units_below [OF ypos, of m] by (simp add: Y_def b_def P_def power_add)
  have "b \<le> e"
  proof (rule ccontr)
    assume "\<not> b \<le> e"
    then obtain c where c: "b = Suc c" "e \<le> c" by (cases b) auto
    have "P / 2 * 2 ^ b \<le> Y"
      using units_above [OF ypos, of m] c(1) pos(2)
      by (cases "prec m") (simp_all add: Y_def b_def [symmetric] P_def power_add)
    then have "(P - 1) * 2 ^ c < X" by (intro close_above [OF YX(2) _ P]) (simp_all add: c(1))
    moreover have "X \<le> (P - 1) * 2 ^ c" unfolding X using kP P c(2) by (intro mult_mono power_increasing) auto
    ultimately show False by simp
  qed
  define N where "N = k * 2 ^ (e - b)"
  have XN: "X = of_int N * 2 ^ b" using \<open>b \<le> e\<close> by (simp add: X N_def power_add [symmetric])
  have "of_int N < P + 1" by (rule close_below [OF YX(1) [unfolded XN] top P]) simp
  then have "(of_int N :: real) < of_int (2 ^ prec m + 1)" by (simp add: P_def)
  then have "N \<le> 2 ^ prec m" by (simp only: of_int_less_iff)
  with XN show ?thesis unfolding X_def b_def by blast
qed

lemma round_fl_near:
  assumes "representable m x" "0 < x" "0 < prec m" "\<bar>y - x\<bar> * 2 ^ Suc (prec m) < x"
  shows "round_fl m y = Fin x"
proof -
  obtain N where N: "x * 2 ^ min_exp m = of_int N * 2 ^ shift_of m y" "N \<le> 2 ^ prec m"
    using near_multiple [OF assms] by blast
  then have x: "x = of_int N * spacing m y" by (simp add: spacing_shift field_simps)
  have "of_int N \<le> (2::real) ^ prec m" using N(2) by (metis of_int_le_iff of_int_numeral of_int_power)
  then have "x \<le> 2 ^ prec m * spacing m y" unfolding x by (intro mult_right_mono) (auto simp: less_imp_le)
  with assms(4) have "\<bar>y - x\<bar> * 2 ^ Suc (prec m) < 2 ^ prec m * spacing m y" by (rule less_le_trans)
  then have "2 ^ prec m * (\<bar>y - x\<bar> * 2) < 2 ^ prec m * spacing m y"
    by (simp only: power_Suc mult_ac)
  then have "\<bar>y - x\<bar> * 2 < spacing m y" by (rule mult_left_less_imp_less) simp
  then have "\<bar>y - x\<bar> < spacing m y / 2" by simp
  moreover have "y / spacing m y - of_int N = (y - x) / spacing m y"
    using spacing_pos [of m y] by (simp add: x diff_divide_distrib less_imp_neq [symmetric])
  ultimately have "\<bar>y / spacing m y - of_int N\<bar> < 1 / 2"
    using spacing_pos [of m y] by (simp add: divide_less_eq abs_of_pos del: spacing_pos)
  then have "nearest m y = x" using x by (simp add: nearest_def round_even_near)
  with assms(1) show ?thesis by (intro round_fl_FinI) (auto simp: representable_def)
qed


section \<open>The decimal digits of a value\<close>

text \<open>The decade of a positive value: \<open>10 powi (k - 1) \<le> x < 10 powi k\<close>.\<close>

definition dec_exp :: "real \<Rightarrow> int" where
  "dec_exp x =
     (if 1 \<le> x then int (length (show_nat (nat \<lfloor>x\<rfloor>)))
      else - int (length (takeWhile (\<lambda>j. x * 10 ^ j < 1) [1..<400])))"

definition scale :: "nat \<Rightarrow> int \<Rightarrow> real" where
  "scale n k = 10 powi (int n - k)"

text \<open>
  The two decimals of \<open>n\<close> digits around \<open>x\<close> in its decade, and the one of them the language prints: one
  that reads back as \<open>x\<close>, the nearer if both do, the upper in a tie.
\<close>

definition digits_at :: "nat \<Rightarrow> int \<Rightarrow> real \<Rightarrow> int option" where
  "digits_at n k x =
     (let s = scale n k;
          lo = \<lfloor>x * s\<rfloor>;
          down = reads_back x (of_int lo / s);
          up = reads_back x (of_int (lo + 1) / s)
      in if down \<and> (\<not> up \<or> x * s - of_int lo < of_int (lo + 1) - x * s) then Some lo
         else if up then Some (lo + 1) else None)"

text \<open>The shortest digits of \<open>x\<close> and their decade, as the language's formatting finds them.\<close>

definition shortest :: "real \<Rightarrow> (string \<times> int) option" where
  "shortest x =
     (let k = dec_exp x in
      case find (\<lambda>n. digits_at n k x \<noteq> None) [1..<18] of
        None \<Rightarrow> None
      | Some n \<Rightarrow>
          map_option (\<lambda>c. if c = 10 ^ n then (''1'', k + 1) else (show_nat (nat c), k)) (digits_at n k x))"

lemma show_nat_length:
  "0 < n \<Longrightarrow> 10 ^ (length (show_nat n) - 1) \<le> n \<and> n < 10 ^ length (show_nat n)"
proof (induction n rule: show_nat.induct)
  case (1 n)
  show ?case
  proof (cases "n < 10")
    case True
    with "1.prems" show ?thesis by (subst (1 2) show_nat.simps) simp
  next
    case False
    obtain j where j: "length (show_nat (n div 10)) = Suc j"
      by (cases "length (show_nat (n div 10))") auto
    have "10 ^ j \<le> n div 10 \<and> n div 10 < 10 ^ Suc j"
      using "1.IH" False j by simp
    moreover have "length (show_nat n) = Suc (Suc j)"
      using False j by (subst show_nat.simps) simp
    moreover have "n = 10 * (n div 10) + n mod 10" "n mod 10 < 10" by simp_all
    ultimately show ?thesis by auto
  qed
qed

lemma takeWhile_upt:
  assumes "\<exists>j \<in> {1..<N}. \<not> P j"
  shows "P (length (takeWhile P [1..<N])) \<or> length (takeWhile P [1..<N]) = 0"
    "\<not> P (Suc (length (takeWhile P [1..<N])))"
proof -
  let ?t = "takeWhile P [1..<N]"
  have t: "?t = take (length ?t) [1..<N]" by (metis takeWhile_eq_take)
  have "length ?t < N - 1"
  proof (rule ccontr)
    assume "\<not> length ?t < N - 1"
    then have "?t = [1..<N]" using t length_takeWhile_le [of P "[1..<N]"] by simp
    then have "\<forall>j \<in> set [1..<N]. P j" by (metis set_takeWhileD)
    with assms show False by auto
  qed
  then show "\<not> P (Suc (length ?t))"
    using nth_length_takeWhile [of P "[1..<N]"] by simp
  show "P (length ?t) \<or> length ?t = 0"
  proof (cases "length ?t")
    case (Suc l)
    then have "?t ! l = [1..<N] ! l" by (intro takeWhile_nth) simp
    then have "?t ! l = Suc l" using Suc \<open>length ?t < N - 1\<close> by simp
    moreover have "?t ! l \<in> set ?t" using Suc by (intro nth_mem) simp
    ultimately show ?thesis using Suc by (metis set_takeWhileD)
  qed simp
qed

lemma powi_nat: "(10::real) powi int n = 10 ^ n"
  by (simp add: power_int_def)

lemma powi_lessD: "(10::real) powi a < 10 powi b \<Longrightarrow> a < b"
  using power_int_increasing [of b a "10::real"] by (cases "a < b") auto

lemma dec_exp_bounds:
  assumes "10 powi -399 \<le> x"
  shows "10 powi (dec_exp x - 1) \<le> x \<and> x < 10 powi (dec_exp x)"
proof (cases "1 \<le> x")
  case True
  let ?n = "nat \<lfloor>x\<rfloor>" let ?l = "length (show_nat ?n)"
  have "0 < ?n" using True by simp
  note len = show_nat_length [OF this]
  have "dec_exp x = int ?l" using True by (simp add: dec_exp_def)
  obtain j where j: "?l = Suc j" by (cases ?l) auto
  have "real (10 ^ j) \<le> real ?n" "real (Suc ?n) \<le> real (10 ^ ?l)"
    using len j by (simp_all only: of_nat_le_iff Suc_le_eq diff_Suc_1)
  then have "10 ^ j \<le> real ?n" "real ?n + 1 \<le> 10 ^ ?l" by (simp_all only: of_nat_power of_nat_numeral of_nat_Suc add.commute)
  moreover have "real ?n \<le> x" "x < real ?n + 1" using True by linarith+
  ultimately have "10 ^ j \<le> x" "x < 10 ^ ?l" by linarith+
  moreover have "dec_exp x = int ?l" "dec_exp x - 1 = int j" using \<open>dec_exp x = int ?l\<close> j by simp_all
  ultimately show ?thesis by (simp only: powi_nat)
next
  case False
  let ?P = "\<lambda>j. x * 10 ^ j < 1" let ?l = "length (takeWhile ?P [1..<400])"
  have "(1::real) \<le> x * 10 ^ 399"
  proof -
    have "(10::real) powi -399 * 10 ^ 399 \<le> x * 10 ^ 399" by (intro mult_right_mono assms) simp
    moreover have "(10::real) powi -399 * 10 ^ 399 = 1"
      by (simp only: powi_nat [symmetric] power_int_add [symmetric, of "10::real", simplified]) simp
    ultimately show ?thesis by (simp only:)
  qed
  then have ex: "\<exists>j \<in> {1..<400}. \<not> ?P j" by (intro bexI [of _ 399]) auto
  have k: "dec_exp x = - int ?l" using False by (simp add: dec_exp_def)
  have "x * 10 ^ ?l < 1" using takeWhile_upt(1) [OF ex] False by auto
  then have "x < 10 powi (dec_exp x)" by (simp add: k power_int_minus field_simps powi_nat)
  moreover have "1 \<le> x * 10 ^ Suc ?l" using takeWhile_upt(2) [OF ex] by simp
  then have "10 powi (dec_exp x - 1) \<le> x"
    by (simp add: k power_int_diff power_int_minus field_simps powi_nat)
  ultimately show ?thesis by simp
qed

text \<open>\<open>y\<close> is a decimal of at most \<open>n\<close> digits.\<close>

definition decimal :: "nat \<Rightarrow> real \<Rightarrow> bool" where
  "decimal n y \<longleftrightarrow> (\<exists>c e. y = of_nat c * 10 powi e \<and> c < 10 ^ n)"

definition in_decade :: "real \<Rightarrow> int \<Rightarrow> bool" where
  "in_decade x k \<longleftrightarrow> 10 powi (k - 1) \<le> x \<and> x < 10 powi k"

lemma scale_pos [simp]: "0 < scale n k"
  by (simp add: scale_def)

lemma scale_nz [simp]: "scale n k \<noteq> 0"
  by (simp add: scale_def)

lemma scale_powi:
  "10 powi k * scale n k = 10 ^ n"
  "0 < n \<Longrightarrow> 10 powi (k - 1) * scale n k = 10 ^ (n - 1)"
proof -
  have "(10::real) powi k * 10 powi (int n - k) = 10 powi (k + (int n - k))"
    by (rule power_int_add [symmetric]) simp
  then show "10 powi k * scale n k = 10 ^ n" by (simp add: scale_def powi_nat)
  assume "0 < n"
  have "(10::real) powi (k - 1) * 10 powi (int n - k) = 10 powi (k - 1 + (int n - k))"
    by (rule power_int_add [symmetric]) simp
  also have "k - 1 + (int n - k) = int (n - 1)" using \<open>0 < n\<close> by simp
  finally show "10 powi (k - 1) * scale n k = 10 ^ (n - 1)" by (simp only: scale_def powi_nat)
qed

lemma floor_range:
  assumes "in_decade x k" "0 < n"
  shows "10 ^ (n - 1) \<le> \<lfloor>x * scale n k\<rfloor>" "\<lfloor>x * scale n k\<rfloor> < 10 ^ n"
proof -
  have "10 powi (k - 1) * scale n k \<le> x * scale n k" "x * scale n k < 10 powi k * scale n k"
    using assms(1) by (auto simp: in_decade_def intro!: mult_right_mono less_imp_le mult_strict_right_mono)
  then have "10 ^ (n - 1) \<le> x * scale n k" "x * scale n k < 10 ^ n"
    by (simp_all only: scale_powi assms(2))
  then show "10 ^ (n - 1) \<le> \<lfloor>x * scale n k\<rfloor>" "\<lfloor>x * scale n k\<rfloor> < 10 ^ n"
    by (simp_all add: le_floor_iff floor_less_iff)
qed

text \<open>A decimal of at most \<open>n\<close> digits is on the grid, or below the decade.\<close>

lemma decimal_on_grid:
  assumes "decimal n y" "10 powi (k - 1) \<le> y"
  shows "\<exists>j. y * scale n k = of_int j"
proof -
  from assms(1) obtain c e where y: "y = of_nat c * 10 powi e" "c < 10 ^ n" by (auto simp: decimal_def)
  have "real c < 10 ^ n" using y(2) by (metis of_nat_less_iff of_nat_numeral of_nat_power)
  then have "real c * 10 powi e < 10 ^ n * 10 powi e" by (intro mult_strict_right_mono) auto
  with assms(2) y(1) have "10 powi (k - 1) < (10::real) ^ n * 10 powi e" by linarith
  also have "\<dots> = 10 powi (int n + e)" by (simp add: power_int_add powi_nat)
  finally have "(10::real) powi (k - 1) < 10 powi (int n + e)" .
  then have "k - 1 < int n + e" by (rule powi_lessD)
  then obtain j :: nat where j: "e + (int n - k) = int j"
    using zero_le_imp_eq_int [of "e + (int n - k)"] by auto
  have "(10::real) powi e * 10 powi (int n - k) = 10 powi (e + (int n - k))"
    by (rule power_int_add [symmetric]) simp
  then have "y * scale n k = of_nat c * 10 ^ j"
    by (simp only: y scale_def mult.assoc j powi_nat)
  then have "y * scale n k = of_int (int c * 10 ^ j)" by simp
  then show ?thesis by blast
qed

text \<open>A positive double.\<close>

definition double :: "real \<Rightarrow> bool" where
  "double x \<longleftrightarrow> representable f64 x \<and> 0 < x"

lemma double_reads_back: "double x \<Longrightarrow> reads_back x x"
  by (simp add: double_def reads_back_def round_fl_exact)

lemma double_range: "double x \<Longrightarrow> \<bar>x\<bar> < 2 ^ max_exp f64"
  unfolding double_def representable_def by blast

lemma cover_down:
  assumes "double x" "in_decade x k" "0 < n" "reads_back x y" "decimal n y" "0 \<le> y" "y \<le> x"
  shows "reads_back x (of_int \<lfloor>x * scale n k\<rfloor> / scale n k) \<and> y \<le> of_int \<lfloor>x * scale n k\<rfloor> / scale n k"
proof -
  let ?s = "scale n k" let ?l = "of_int \<lfloor>x * ?s\<rfloor> :: real"
  have "y * ?s \<le> ?l"
  proof (cases "10 powi (k - 1) \<le> y")
    case True
    then obtain j where j: "y * ?s = of_int j" using decimal_on_grid [OF assms(5)] by blast
    have "y * ?s \<le> x * ?s" using assms(7) by (intro mult_right_mono) (auto simp: less_imp_le)
    then have "j \<le> \<lfloor>x * ?s\<rfloor>" by (simp add: j le_floor_iff)
    then show ?thesis by (simp add: j)
  next
    case False
    then have "y * ?s \<le> 10 powi (k - 1) * ?s" by (intro mult_right_mono) (auto simp: less_imp_le)
    also have "\<dots> = of_int (10 ^ (n - 1))" by (simp add: scale_powi(2) [OF assms(3)])
    also have "\<dots> \<le> ?l" using floor_range(1) [OF assms(2,3)] by (simp only: of_int_le_iff)
    finally show ?thesis .
  qed
  then have "y \<le> ?l / ?s" by (simp add: pos_le_divide_eq)
  moreover have "?l / ?s \<le> x" by (simp add: pos_divide_le_eq)
  ultimately show ?thesis
    using reads_back_between [OF assms(4) double_reads_back [OF assms(1)] assms(6)] double_range [OF assms(1)]
    by simp
qed

lemma cover_up:
  assumes "double x" "in_decade x k" "reads_back x y" "decimal n y" "x < y"
  shows "reads_back x (of_int (\<lfloor>x * scale n k\<rfloor> + 1) / scale n k) \<and>
    of_int (\<lfloor>x * scale n k\<rfloor> + 1) / scale n k \<le> y"
proof -
  let ?s = "scale n k" let ?h = "of_int (\<lfloor>x * ?s\<rfloor> + 1) :: real"
  have "10 powi (k - 1) \<le> y" using assms(2,5) by (simp add: in_decade_def)
  then obtain j where j: "y * ?s = of_int j" using decimal_on_grid [OF assms(4)] by blast
  have "x * ?s < y * ?s" using assms(5) by (intro mult_strict_right_mono) auto
  then have "\<lfloor>x * ?s\<rfloor> + 1 \<le> j" by (simp add: j floor_less_iff [symmetric] zless_add1_eq [symmetric])
  then have "?h \<le> y * ?s" unfolding j by (simp only: of_int_le_iff)
  then have "?h / ?s \<le> y" by (simp only: pos_divide_le_eq scale_pos)
  moreover have "x * ?s \<le> ?h" by linarith
  then have "x \<le> ?h / ?s" by (simp only: pos_le_divide_eq scale_pos)
  ultimately show ?thesis
    using reads_back_between [OF double_reads_back [OF assms(1)] assms(3)] double_range [OF assms(1)] assms(1)
    by (simp add: double_def)
qed

lemma digits_at_cases:
  assumes "digits_at n k x = Some c"
  shows "reads_back x (of_int c / scale n k)"
    "c = \<lfloor>x * scale n k\<rfloor> \<or> c = \<lfloor>x * scale n k\<rfloor> + 1"
    "c = \<lfloor>x * scale n k\<rfloor> \<Longrightarrow> reads_back x (of_int (c + 1) / scale n k) \<Longrightarrow>
       x * scale n k - of_int c < of_int (c + 1) - x * scale n k"
    "c = \<lfloor>x * scale n k\<rfloor> + 1 \<Longrightarrow> reads_back x (of_int (c - 1) / scale n k) \<Longrightarrow>
       of_int c - x * scale n k \<le> x * scale n k - of_int (c - 1)"
  using assms by (auto simp: digits_at_def Let_def mult.commute split: if_splits)

lemma digits_at_exists:
  assumes "double x" "in_decade x k" "0 < n" "reads_back x y" "decimal n y" "0 \<le> y"
  shows "digits_at n k x \<noteq> None"
  using cover_down [OF assms] cover_up [OF assms(1,2,4,5)]
  by (cases "y \<le> x") (auto simp: digits_at_def Let_def not_le)

text \<open>Seventeen digits always do.\<close>

lemma seventeen_digits:
  assumes "double x" "in_decade x k"
  shows "digits_at 17 k x \<noteq> None"
proof -
  let ?s = "scale 17 k" let ?N = "round_even (x * ?s)"
  have xs: "10 ^ 16 \<le> x * ?s"
  proof -
    have "10 powi (k - 1) * ?s \<le> x * ?s" using assms(2) by (intro mult_right_mono) (auto simp: in_decade_def less_imp_le)
    then show ?thesis using scale_powi(2) [of 17 k] by simp
  qed
  have "\<bar>of_int ?N / ?s - x\<bar> * ?s = \<bar>of_int ?N - x * ?s\<bar>"
  proof -
    have "\<bar>of_int ?N / ?s - x\<bar> * \<bar>?s\<bar> = \<bar>(of_int ?N / ?s - x) * ?s\<bar>" by (simp only: abs_mult)
    also have "(of_int ?N / ?s - x) * ?s = of_int ?N - x * ?s"
      using scale_pos [of 17 k] by (simp add: left_diff_distrib del: scale_pos)
    finally show ?thesis by (simp add: abs_of_pos)
  qed
  then have "\<bar>of_int ?N / ?s - x\<bar> * ?s \<le> 1 / 2" using round_even_dist by simp
  then have "(\<bar>of_int ?N / ?s - x\<bar> * 2 ^ 54) * ?s \<le> 2 ^ 53"
    by (simp add: mult_ac)
  also have "(2::real) ^ 53 < x * ?s" using xs by simp
  finally have "\<bar>of_int ?N / ?s - x\<bar> * 2 ^ 54 < x" by simp
  then have "reads_back x (of_int ?N / ?s)"
    using assms(1) unfolding reads_back_def double_def by (intro round_fl_near) auto
  then show ?thesis
    using round_even_cases [of "x * ?s"] by (auto simp: digits_at_def Let_def)
qed

lemma double_lower: "double x \<Longrightarrow> 10 powi -399 \<le> x"
proof -
  assume "double x"
  then obtain k e where k: "x = of_int k * 2 ^ e / 2 ^ 1074" "0 < x"
    by (auto simp: double_def representable_def f64_def)
  then have "(0::real) < of_int k" by (simp only: zero_less_mult_iff zero_less_divide_iff) auto
  then have "0 < k" by simp
  then have "(1::real) * 1 \<le> of_int k * 2 ^ e" by (intro mult_mono) auto
  then have "1 / 2 ^ 1074 \<le> x" unfolding k(1) by (intro divide_right_mono) auto
  moreover have "(10::real) powi -399 \<le> 1 / 2 ^ 1074"
    by (simp add: power_int_def power_one_over)
  ultimately show ?thesis by linarith
qed

lemma double_decade: "double x \<Longrightarrow> in_decade x (dec_exp x)"
  using dec_exp_bounds [OF double_lower] by (simp add: in_decade_def)

definition written :: "nat \<Rightarrow> int \<Rightarrow> int \<Rightarrow> string \<times> int" where
  "written n k c = (if c = 10 ^ n then (''1'', k + 1) else (show_nat (nat c), k))"

lemma find_upt:
  assumes "\<exists>n \<in> {1..<N}. P n"
  shows "\<exists>n. find P [1..<N] = Some n \<and> 0 < n \<and> n < N \<and> P n \<and> (\<forall>m. 0 < m \<and> m < n \<longrightarrow> \<not> P m)"
proof -
  from assms have "find P [1..<N] \<noteq> None" by (auto simp: find_None_iff)
  then obtain n where "find P [1..<N] = Some n" by auto
  moreover from this obtain i where "i < length [1..<N]" "P ([1..<N] ! i)" "n = [1..<N] ! i"
    "\<forall>j < i. \<not> P ([1..<N] ! j)" by (auto simp: find_Some_iff)
  then have "0 < n" "n < N" "P n" "n = Suc i" "\<forall>j < i. \<not> P (Suc j)" by auto
  moreover have "\<forall>m. 0 < m \<and> m < n \<longrightarrow> \<not> P m"
    using calculation(5,6) by (metis Suc_less_eq gr0_implies_Suc)
  ultimately show ?thesis by blast
qed

lemma shortest_exists:
  assumes "double x"
  shows "\<exists>n c. 0 < n \<and> n \<le> 17 \<and> digits_at n (dec_exp x) x = Some c \<and>
    (\<forall>m. 0 < m \<and> m < n \<longrightarrow> digits_at m (dec_exp x) x = None) \<and> shortest x = Some (written n (dec_exp x) c)"
proof -
  let ?P = "\<lambda>n. digits_at n (dec_exp x) x \<noteq> None"
  have "\<exists>n \<in> {1..<18}. ?P n"
    using seventeen_digits [OF assms double_decade [OF assms]] by (intro bexI [of _ 17]) auto
  from find_upt [OF this] obtain n where n: "find ?P [1..<18] = Some n" "0 < n" "n < 18" "?P n"
    "\<forall>m. 0 < m \<and> m < n \<longrightarrow> \<not> ?P m" by blast
  then obtain c where "digits_at n (dec_exp x) x = Some c" by auto
  moreover have "shortest x = Some (written n (dec_exp x) c)"
    using calculation n(1) by (simp add: shortest_def Let_def written_def)
  ultimately show ?thesis using n by (intro exI [of _ n] exI [of _ c]) auto
qed

lemma show_nat_length_eq:
  assumes "10 ^ (n - 1) \<le> c" "c < 10 ^ n" "0 < n"
  shows "length (show_nat c) = n"
proof -
  have "0 < c" using assms(1) by (metis gr0I not_less zero_less_numeral zero_less_power)
  note len = show_nat_length [OF this]
  have "10 ^ (n - 1) < (10::nat) ^ length (show_nat c)"
    using assms(1) len by (meson le_less_trans)
  then have "n - 1 < length (show_nat c)" by (rule power_less_imp_less_exp [rotated]) simp
  moreover have "10 ^ (length (show_nat c) - 1) < (10::nat) ^ n"
    using assms(2) len by (meson le_less_trans)
  then have "length (show_nat c) - 1 < n" by (rule power_less_imp_less_exp [rotated]) simp
  ultimately show ?thesis using assms(3) by auto
qed

text \<open>The digits written, as a number and a grid.\<close>

lemma digits_bounds:
  assumes "in_decade x k" "0 < n" "digits_at n k x = Some c"
  shows "10 ^ (n - 1) \<le> c" "c \<le> 10 ^ n"
  using digits_at_cases(2) [OF assms(3)] floor_range [OF assms(1,2)] by auto

lemma carry_is_one_digit:
  assumes "double x" "in_decade x k" "reads_back x (of_int (10 ^ n) / scale n k)" "0 < n"
    "\<forall>m. 0 < m \<and> m < n \<longrightarrow> digits_at m k x = None"
  shows "n = 1"
proof -
  have "of_int (10 ^ n) / scale n k = 10 powi k"
    by (simp add: scale_powi(1) [of k n, symmetric])
  then have "reads_back x (10 powi k)" using assms(3) by simp
  moreover have "decimal 1 (10 powi k)" unfolding decimal_def by (intro exI [of _ 1] exI [of _ k]) simp
  ultimately have "digits_at 1 k x \<noteq> None" using assms(1,2) by (intro digits_at_exists) auto
  with assms(5) have "\<not> 1 < n" by auto
  with assms(4) show ?thesis by simp
qed

end
