(* ===== verification/Rqx_Repr.thy ===== *)
theory Rqx_Repr
  imports Rqx_Decimal Rqx_Client
begin

text \<open>
  \<^verbatim>\<open>rqx/src/py_utils/repr.rs\<close>: what \<^verbatim>\<open>__repr__\<close> prints for the values of \<^verbatim>\<open>Timeout\<close> and
  \<^verbatim>\<open>RedirectPolicy\<close>.  \<open>None\<close> is one of its \<^verbatim>\<open>expect\<close>s failing.

  A double is printed with its sign, so here, unlike in \<open>fl\<close>, the two zeros are two values.  The
  language's shortest and rounded decimals are \<open>Rqx_Decimal\<close>.  The file shows that the text is the one
  CPython's \<^verbatim>\<open>repr\<close> has and reads back as the value.
\<close>

datatype f64_val = QNan | Inf bool | Num bool real

definition is_f64 :: "f64_val \<Rightarrow> bool" where
  "is_f64 v \<longleftrightarrow> (case v of Num neg x \<Rightarrow> 0 \<le> x \<and> representable f64 x | _ \<Rightarrow> True)"

definition to_fl :: "f64_val \<Rightarrow> fl" where
  "to_fl v =
     (case v of QNan \<Rightarrow> NaN | Inf neg \<Rightarrow> inf_sign neg | Num neg x \<Rightarrow> Fin (if neg then - x else x))"


section \<open>The formats of the language\<close>

definition zeros :: "nat \<Rightarrow> string" where
  "zeros n = replicate n CHR ''0''"

text \<open>
  Digits with a point after the first \<open>k\<close>, and at least one digit on either side of it: what
  \<^verbatim>\<open>{:?}\<close> writes for the magnitudes from \<open>1e-4\<close> to \<open>1e16\<close>, the only ones the code uses it for.
\<close>

definition positional :: "string \<Rightarrow> int \<Rightarrow> string" where
  "positional ds k =
     (if k \<le> 0 then ''0.'' @ zeros (nat (- k)) @ ds
      else if nat k < length ds then take (nat k) ds @ ''.'' @ drop (nat k) ds
      else ds @ zeros (nat k - length ds) @ ''.0'')"

text \<open>\<^verbatim>\<open>{:e}\<close>.\<close>

definition mantissa_text :: "string \<Rightarrow> string" where
  "mantissa_text ds = take 1 ds @ (if length ds \<le> 1 then [] else ''.'' @ drop 1 ds)"

definition exponential :: "string \<Rightarrow> int \<Rightarrow> string" where
  "exponential ds k = mantissa_text ds @ ''e'' @ show_int (k - 1)"

text \<open>\<^verbatim>\<open>{:.digits$}\<close> and \<^verbatim>\<open>{:.digits$e}\<close>: the exact value, rounded to so many digits, ties to even.\<close>

definition fixed_point :: "nat \<Rightarrow> real \<Rightarrow> string" where
  "fixed_point digits x =
     (let s = show_nat (nat (round_even (x * 10 ^ digits)));
          t = zeros (Suc digits - length s) @ s;
          w = length t - digits
      in take w t @ (if digits = 0 then [] else ''.'' @ drop w t))"

definition fixed_exponential :: "nat \<Rightarrow> real \<Rightarrow> string" where
  "fixed_exponential digits x =
     (let k = dec_exp x; n = Suc digits; c = round_even (x * scale n k) in
      if c = 10 ^ n then exponential (show_nat (10 ^ digits)) (k + 1)
      else exponential (show_nat (nat c)) k)"

definition sign_text :: "bool \<Rightarrow> string" where
  "sign_text neg = (if neg then ''-'' else [])"

definition debug_f64 :: "bool \<Rightarrow> real \<Rightarrow> string option" where
  "debug_f64 neg x =
     (if x = 0 then Some (sign_text neg @ ''0.0'')
      else map_option (\<lambda>(ds, k). sign_text neg @ positional ds k) (shortest x))"

definition lower_exp_f64 :: "bool \<Rightarrow> real \<Rightarrow> string option" where
  "lower_exp_f64 neg x = map_option (\<lambda>(ds, k). sign_text neg @ exponential ds k) (shortest x)"

text \<open>\<^verbatim>\<open>str::parse::<i32>\<close>, and \<^verbatim>\<open>{:+03}\<close>.\<close>

definition parse_i32 :: "string \<Rightarrow> int option" where
  "parse_i32 s =
     (let (neg, ds) = (case s of
          CHR ''-'' # ds \<Rightarrow> (True, ds) | CHR ''+'' # ds \<Rightarrow> (False, ds) | _ \<Rightarrow> (False, s));
          n = (if neg then - int (digits_value ds) else int (digits_value ds))
      in if ds \<noteq> [] \<and> list_all is_ascii_digit ds \<and> - (2 ^ 31) \<le> n \<and> n < 2 ^ 31 then Some n else None)"

definition signed_exponent :: "int \<Rightarrow> string" where
  "signed_exponent e =
     (let s = show_nat (nat \<bar>e\<bar>) in (if e < 0 then ''-'' else ''+'') @ zeros (2 - length s) @ s)"


section \<open>The reprs\<close>

definition py_repr_bool :: "bool \<Rightarrow> string" where
  "py_repr_bool b = (if b then ''True'' else ''False'')"

definition py_repr_u32 :: "u32 \<Rightarrow> string" where
  "py_repr_u32 n = show_nat (unat n)"

definition py_repr_option :: "('a \<Rightarrow> string option) \<Rightarrow> 'a option \<Rightarrow> string option" where
  "py_repr_option repr v = (case v of Some x \<Rightarrow> repr x | None \<Rightarrow> Some ''None'')"

text \<open>The literal \<^verbatim>\<open>1e-4\<close>.\<close>

definition ONE_E_MINUS_4 :: real where
  "ONE_E_MINUS_4 = (case round_fl f64 (1 / 10000) of Fin x \<Rightarrow> x | _ \<Rightarrow> 0)"

definition repr_positional :: "bool \<Rightarrow> real \<Rightarrow> string option" where
  "repr_positional neg x =
     Option.bind (debug_f64 neg x) (\<lambda>text.
     Option.bind (split_once CHR ''.'' text) (\<lambda>(_, fraction).
       let rounded = sign_text neg @ fixed_point (length fraction) x in
       Some (if parse_fl f64 rounded = Some (to_fl (Num neg x)) then rounded else text)))"

definition repr_exponential :: "bool \<Rightarrow> real \<Rightarrow> string option" where
  "repr_exponential neg x =
     Option.bind (lower_exp_f64 neg x) (\<lambda>text.
     Option.bind (split_once CHR ''e'' text) (\<lambda>(mantissa, _).
       let digits = (case split_once CHR ''.'' mantissa of Some (_, fraction) \<Rightarrow> length fraction | None \<Rightarrow> 0);
           rounded = sign_text neg @ fixed_exponential digits x;
           chosen = (if parse_fl f64 rounded = Some (to_fl (Num neg x)) then rounded else text)
       in Option.bind (split_once CHR ''e'' chosen) (\<lambda>(mantissa, exponent).
          map_option (\<lambda>e. mantissa @ ''e'' @ signed_exponent e) (parse_i32 exponent))))"

definition py_repr_f64 :: "f64_val \<Rightarrow> string option" where
  "py_repr_f64 v =
     (case v of
        QNan \<Rightarrow> Some ''nan''
      | Inf neg \<Rightarrow> Some (if neg then ''-inf'' else ''inf'')
      | Num neg x \<Rightarrow>
          if x = 0 \<or> (ONE_E_MINUS_4 \<le> x \<and> x < 10 ^ 16) then repr_positional neg x
          else repr_exponential neg x)"

definition py_policy_repr :: "redirect_policy \<Rightarrow> string" where
  "py_policy_repr p =
     ''RedirectPolicy(follow='' @ py_repr_bool (rp_follow p) @ '', max_redirects='' @
     py_repr_u32 (rp_max_redirects p) @ '', raise_on_exceeded='' @
     py_repr_bool (rp_raise_on_exceeded p) @ '')''"

definition py_timeout_repr ::
  "f64_val option \<Rightarrow> f64_val option \<Rightarrow> f64_val option \<Rightarrow> f64_val option \<Rightarrow> string option" where
  "py_timeout_repr connect read write pool =
     Option.bind (py_repr_option py_repr_f64 connect) (\<lambda>c.
     Option.bind (py_repr_option py_repr_f64 read) (\<lambda>r.
     Option.bind (py_repr_option py_repr_f64 write) (\<lambda>w.
     map_option (\<lambda>p. ''Timeout(connect='' @ c @ '', read='' @ r @ '', write='' @ w @ '', pool='' @ p @ '')'')
       (py_repr_option py_repr_f64 pool))))"


section \<open>Reading text back\<close>

lemma digit_is_digit [simp]: "d < 10 \<Longrightarrow> is_ascii_digit (digit d)"
  by (simp add: is_ascii_digit_def digit_def)

lemma digit_value [simp]: "d < 10 \<Longrightarrow> of_char (digit d) = 48 + d"
  by (simp add: digit_def)

definition all_digits :: "string \<Rightarrow> bool" where
  "all_digits s \<longleftrightarrow> list_all is_ascii_digit s"

lemma all_digits_simps [simp]:
  "all_digits []" "all_digits (a @ b) \<longleftrightarrow> all_digits a \<and> all_digits b"
  "all_digits (zeros n)" "all_digits (c # a) \<longleftrightarrow> is_ascii_digit c \<and> all_digits a"
  by (auto simp: all_digits_def zeros_def is_ascii_digit_def list_all_iff)

lemma all_digits_show [simp]: "all_digits (show_nat n)"
proof (induction n rule: show_nat.induct)
  case (1 n)
  then show ?case by (subst show_nat.simps) (auto simp: all_digits_def)
qed

lemma all_digits_take [simp]: "all_digits s \<Longrightarrow> all_digits (take n s)" "all_digits s \<Longrightarrow> all_digits (drop n s)"
  by (auto simp: all_digits_def list_all_iff dest: in_set_takeD in_set_dropD)

lemma digits_value_foldl: "foldl (\<lambda>acc c. acc * 10 + (of_char c - 48)) n s = n * 10 ^ length s + digits_value s"
proof (induction s arbitrary: n)
  case (Cons c s)
  show ?case
    using Cons [of "n * 10 + (of_char c - 48)"] Cons [of "of_char c - 48"]
    by (simp add: digits_value_def algebra_simps)
qed (simp add: digits_value_def)

lemma digits_value_append: "digits_value (a @ b) = digits_value a * 10 ^ length b + digits_value b"
  using digits_value_foldl [of "digits_value a" b] by (simp add: digits_value_def)

lemma digits_value_zeros [simp]: "digits_value (zeros n) = 0"
proof (induction n)
  case (Suc n)
  have "zeros (Suc n) = zeros n @ ''0''" by (simp add: zeros_def replicate_append_same)
  then show ?case using Suc by (simp add: digits_value_append) (simp add: digits_value_def)
qed (simp add: zeros_def digits_value_def)

lemma digits_value_show [simp]: "digits_value (show_nat n) = n"
proof (induction n rule: show_nat.induct)
  case (1 n)
  show ?case
  proof (cases "n < 10")
    case True
    then show ?thesis by (subst show_nat.simps) (simp add: digits_value_def)
  next
    case False
    have "digits_value (show_nat n) = digits_value (show_nat (n div 10)) * 10 + n mod 10"
      using False by (subst show_nat.simps) (simp add: digits_value_append, simp add: digits_value_def)
    with 1 False show ?thesis by simp
  qed
qed

lemma digits_value_0 [simp]: "digits_value ''0'' = 0"
  by (simp add: digits_value_def)

lemma length_zeros [simp]: "length (zeros n) = n"
  by (simp add: zeros_def)

lemma take_digits:
  "all_digits w \<Longrightarrow> r = [] \<or> \<not> is_ascii_digit (hd r) \<Longrightarrow>
     takeWhile is_ascii_digit (w @ r) = w \<and> dropWhile is_ascii_digit (w @ r) = r"
  by (cases r) (auto simp: all_digits_def list_all_iff)

lemma take_all_digits [simp]:
  "all_digits w \<Longrightarrow> takeWhile is_ascii_digit w = w" "all_digits w \<Longrightarrow> dropWhile is_ascii_digit w = []"
  by (auto simp: all_digits_def list_all_iff)

lemma no_digits [simp]: "\<not> is_ascii_digit CHR ''.''" "\<not> is_ascii_digit CHR ''e''"
  "\<not> is_ascii_digit CHR ''-''" "\<not> is_ascii_digit CHR ''+''"
  by (simp_all add: is_ascii_digit_def)

lemma parse_fixed:
  assumes "all_digits w" "all_digits f" "w \<noteq> []" "e = [] \<or> hd e = CHR ''e''" "parse_exponent e = Some x"
  shows "parse_decimal (w @ ''.'' @ f @ e) = Some (of_nat (digits_value (w @ f)) * 10 powi (x - int (length f)))"
    and "parse_decimal (w @ e) = Some (of_nat (digits_value w) * 10 powi x)"
proof -
  have e: "e = [] \<or> \<not> is_ascii_digit (hd e)" using assms(4) by auto
  note first = take_digits [OF assms(1), of "''.'' @ f @ e", simplified] and second = take_digits [OF assms(2) e]
    and third = take_digits [OF assms(1) e]
  show "parse_decimal (w @ ''.'' @ f @ e) = Some (of_nat (digits_value (w @ f)) * 10 powi (x - int (length f)))"
    using first second assms(3,5) by (simp add: parse_decimal_def Let_def)
  show "parse_decimal (w @ e) = Some (of_nat (digits_value w) * 10 powi x)"
    using third assms by (cases e) (auto simp: parse_decimal_def Let_def)
qed

lemma digit_cases:
  assumes "is_ascii_digit c"
  shows "c \<in> set ''0123456789''"
proof -
  have c: "c = char_of (of_char c :: nat)" by simp
  have "(of_char c :: nat) \<in> {48..57}" using assms by (simp add: is_ascii_digit_def)
  also have "{48..57::nat} = {48, 49, 50, 51, 52, 53, 54, 55, 56, 57}"
    unfolding atLeastAtMost_upt by (simp add: upt_rec)
  finally have "(of_char c :: nat) \<in> {48, 49, 50, 51, 52, 53, 54, 55, 56, 57}" .
  then have "c \<in> char_of ` {48, 49, 50, 51, 52, 53, 54, 55, 56, 57 :: nat}" using c by (rule image_eqI [rotated])
  then show ?thesis by (simp add: char_of_def bit_0)
qed

definition starts_digit :: "string \<Rightarrow> bool" where
  "starts_digit s \<longleftrightarrow> s \<noteq> [] \<and> is_ascii_digit (hd s)"

lemma starts_digit_all: "all_digits s \<Longrightarrow> s \<noteq> [] \<Longrightarrow> starts_digit (s @ r)"
  by (cases s) (simp_all add: starts_digit_def)

lemma unsigned_text:
  "starts_digit t \<Longrightarrow>
     (case t of CHR ''-'' # u \<Rightarrow> (True, u) | CHR ''+'' # u \<Rightarrow> (False, u) | _ \<Rightarrow> (False, t)) = (False, t)"
  by (cases t) (auto simp: starts_digit_def dest!: digit_cases)

lemma parse_fl_signed:
  assumes "starts_digit t" "parse_decimal t = Some y"
  shows "parse_fl f64 (sign_text neg @ t) =
    Some (if neg then fl_neg (round_fl f64 y) else round_fl f64 y)"
proof -
  obtain c r where t: "t = c # r" "is_ascii_digit c" using assms(1) by (cases t) (auto simp: starts_digit_def)
  have "ascii_lower c \<noteq> CHR ''i''" "ascii_lower c \<noteq> CHR ''n''"
    using digit_cases [OF t(2)] by (auto simp: ascii_lower_def)
  then have word: "map ascii_lower t \<noteq> ''inf''" "map ascii_lower t \<noteq> ''infinity''" "map ascii_lower t \<noteq> ''nan''"
    by (simp_all add: t)
  show ?thesis
    using assms(2) word unsigned_text [OF assms(1)]
    by (cases neg) (simp_all add: parse_fl_def sign_text_def)
qed

lemma parse_back:
  assumes "starts_digit t" "parse_decimal t = Some y"
  shows "parse_fl f64 (sign_text neg @ t) = Some (to_fl (Num neg x)) \<longleftrightarrow> reads_back x y"
  using parse_fl_signed [OF assms, of neg]
  by (cases "round_fl f64 y") (auto simp: to_fl_def reads_back_def)

lemma parse_positional:
  assumes "all_digits ds" "ds \<noteq> []"
  shows "parse_decimal (positional ds k) = Some (of_nat (digits_value ds) * 10 powi (k - int (length ds)))"
    "starts_digit (positional ds k)"
proof -
  note fixed = parse_fixed(1) [where e = "[]" and x = 0, simplified]
  have e: "parse_exponent [] = Some 0" by (simp add: parse_exponent_def)
  consider (small) "k \<le> 0" | (middle) "0 < k" "nat k < length ds" | (large) "0 < k" "length ds \<le> nat k"
    by linarith
  then show "parse_decimal (positional ds k) = Some (of_nat (digits_value ds) * 10 powi (k - int (length ds)))"
  proof cases
    case small
    have "digits_value (''0'' @ zeros (nat (- k)) @ ds) = digits_value ds"
      by (simp only: digits_value_append) simp
    moreover have "0 - int (length (zeros (nat (- k)) @ ds)) = k - int (length ds)" using small by simp
    ultimately show ?thesis
      using fixed [OF _ _ _ e, of "''0''" "zeros (nat (- k)) @ ds"] assms small
      by (simp add: positional_def is_ascii_digit_def)
  next
    case middle
    have "0 - int (length (drop (nat k) ds)) = k - int (length ds)" using middle by simp
    then show ?thesis
      using fixed [OF _ _ _ e, of "take (nat k) ds" "drop (nat k) ds"] assms middle by (simp add: positional_def)
  next
    case large
    define j where "j = nat k - length ds"
    have k: "k - int (length ds) = int j" using large by (simp add: j_def)
    have "digits_value ((ds @ zeros j) @ ''0'') = digits_value ds * 10 ^ j * 10"
      by (simp only: digits_value_append) simp
    then have "parse_decimal ((ds @ zeros j) @ ''.0'') = Some (of_nat (digits_value ds * 10 ^ j * 10) * 10 powi (- 1))"
      using fixed [OF _ _ _ e, of "ds @ zeros j" "''0''"] assms by (simp add: is_ascii_digit_def)
    then show ?thesis
      using large by (simp add: positional_def j_def [symmetric] k powi_nat)
  qed
  show "starts_digit (positional ds k)"
    using assms by (cases ds; cases "nat k") (auto simp: positional_def starts_digit_def is_ascii_digit_def)
qed

lemma parse_exponent_digits:
  assumes "all_digits t" "t \<noteq> []"
  shows "parse_exponent (''e'' @ t) = Some (int (digits_value t))"
    "parse_exponent (''e-'' @ t) = Some (- int (digits_value t))"
    "parse_exponent (''e+'' @ t) = Some (int (digits_value t))"
  using assms unsigned_text [OF starts_digit_all [OF assms, of "[]", simplified]]
  by (simp_all add: parse_exponent_def all_digits_def)

lemma parse_show_int:
  "parse_exponent (''e'' @ show_int e) = Some e" "parse_exponent (''e'' @ signed_exponent e) = Some e"
proof -
  show "parse_exponent (''e'' @ show_int e) = Some e"
    using parse_exponent_digits(1,2) [of "show_nat (nat \<bar>e\<bar>)"] by (cases "e < 0") (simp_all add: show_int_def)
  show "parse_exponent (''e'' @ signed_exponent e) = Some e"
    using parse_exponent_digits(2,3) [of "zeros (2 - length (show_nat (nat \<bar>e\<bar>))) @ show_nat (nat \<bar>e\<bar>)"]
    by (cases "e < 0") (simp_all add: signed_exponent_def digits_value_append Let_def)
qed

lemma parse_exponential:
  assumes "all_digits ds" "ds \<noteq> []" "parse_exponent (''e'' @ ex) = Some (k - 1)"
  shows "parse_decimal (mantissa_text ds @ ''e'' @ ex) =
      Some (of_nat (digits_value ds) * 10 powi (k - int (length ds)))"
    "starts_digit (mantissa_text ds @ ''e'' @ ex)"
proof -
  obtain d r where ds: "ds = d # r" using assms(2) by (cases ds) auto
  have "k - 1 - int (length r) = k - int (length ds)" by (simp add: ds)
  then show "parse_decimal (mantissa_text ds @ ''e'' @ ex) =
      Some (of_nat (digits_value ds) * 10 powi (k - int (length ds)))"
    using parse_fixed(1) [of "[d]" r "''e'' @ ex" "k - 1", unfolded \<open>k - 1 - int (length r) = _\<close>]
      parse_fixed(2) [of "[d]" r "''e'' @ ex" "k - 1"] assms
    by (cases "r = []") (simp_all add: ds mantissa_text_def)
  show "starts_digit (mantissa_text ds @ ''e'' @ ex)"
    using assms(1) by (simp add: ds starts_digit_def mantissa_text_def)
qed


section \<open>The digits of Python's \<open>repr\<close>\<close>

definition decimal_value :: "string \<Rightarrow> int \<Rightarrow> real" where
  "decimal_value ds k = of_nat (digits_value ds) * 10 powi (k - int (length ds))"

text \<open>
  What Python documents of \<^verbatim>\<open>repr(float)\<close>: the shortest decimal that reads back as the value, of those
  the nearest to it, and of two equally near the even one -- the one that is an even multiple of the
  distance between them.
\<close>

definition python_digits :: "real \<Rightarrow> string \<Rightarrow> int \<Rightarrow> bool" where
  "python_digits x ds k \<longleftrightarrow>
     all_digits ds \<and> ds \<noteq> [] \<and> 10 ^ (length ds - 1) \<le> digits_value ds \<and>
     reads_back x (decimal_value ds k) \<and>
     (\<forall>m y. 0 \<le> y \<and> decimal m y \<and> reads_back x y \<longrightarrow> length ds \<le> m) \<and>
     (\<forall>y. 0 \<le> y \<and> decimal (length ds) y \<and> reads_back x y \<longrightarrow>
        \<bar>decimal_value ds k - x\<bar> \<le> \<bar>y - x\<bar> \<and>
        (\<bar>decimal_value ds k - x\<bar> = \<bar>y - x\<bar> \<and> y \<noteq> decimal_value ds k \<longrightarrow>
           (\<exists>j::int. decimal_value ds k = of_int (2 * j) * \<bar>decimal_value ds k - y\<bar>)))"

lemma round_even_best:
  assumes "g = \<lfloor>y\<rfloor> \<or> g = \<lfloor>y\<rfloor> + 1"
  shows "\<bar>of_int (round_even y) - y\<bar> \<le> \<bar>of_int g - y\<bar>"
    "\<bar>of_int (round_even y) - y\<bar> = \<bar>of_int g - y\<bar> \<Longrightarrow> g \<noteq> round_even y \<Longrightarrow> even (round_even y)"
  using assms by (auto simp: round_even_def Let_def split: if_splits)

text \<open>The decimal the code settles on: the rounded one if it reads back, the shortest otherwise.\<close>

definition settled :: "real \<Rightarrow> nat \<Rightarrow> int \<Rightarrow> int \<Rightarrow> int" where
  "settled x n k c =
     (let r = round_even (x * scale n k) in if reads_back x (of_int r / scale n k) then r else c)"

lemma settled_cases:
  assumes "digits_at n k x = Some c"
  shows "settled x n k c = \<lfloor>x * scale n k\<rfloor> \<or> settled x n k c = \<lfloor>x * scale n k\<rfloor> + 1"
    "reads_back x (of_int (settled x n k c) / scale n k)"
  using digits_at_cases(1,2) [OF assms] round_even_cases [of "x * scale n k"]
  by (auto simp: settled_def Let_def)

lemma settled_best:
  assumes "digits_at n k x = Some c" "g = \<lfloor>x * scale n k\<rfloor> \<or> g = \<lfloor>x * scale n k\<rfloor> + 1"
    "reads_back x (of_int g / scale n k)"
  defines "f \<equiv> settled x n k c"
  shows "\<bar>of_int f / scale n k - x\<bar> \<le> \<bar>of_int g / scale n k - x\<bar>"
    "\<bar>of_int f / scale n k - x\<bar> = \<bar>of_int g / scale n k - x\<bar> \<Longrightarrow> g \<noteq> f \<Longrightarrow> even f"
proof -
  let ?s = "scale n k" let ?r = "round_even (x * ?s)"
  have dist: "\<bar>of_int h / ?s - x\<bar> = \<bar>of_int h - x * ?s\<bar> / ?s" for h :: int
  proof -
    have "of_int h / ?s - x = (of_int h - x * ?s) / ?s" by (simp add: diff_divide_distrib)
    then show ?thesis using scale_pos [of n k] by (simp add: abs_of_pos del: scale_pos)
  qed
  have best: "\<bar>of_int f - x * ?s\<bar> \<le> \<bar>of_int g - x * ?s\<bar> \<and>
    (\<bar>of_int f - x * ?s\<bar> = \<bar>of_int g - x * ?s\<bar> \<and> g \<noteq> f \<longrightarrow> even f)"
  proof (cases "reads_back x (of_int ?r / ?s)")
    case True
    then show ?thesis using round_even_best [OF assms(2)] by (simp add: f_def settled_def)
  next
    case False
    then have "g \<noteq> ?r" "c \<noteq> ?r" using assms(3) digits_at_cases(1) [OF assms(1)] by auto
    then have "g = c" using digits_at_cases(2) [OF assms(1)] assms(2) round_even_cases [of "x * ?s"] by auto
    with False show ?thesis by (simp add: f_def settled_def)
  qed
  then show "\<bar>of_int f / ?s - x\<bar> \<le> \<bar>of_int g / ?s - x\<bar>"
    unfolding dist by (intro divide_right_mono) (auto simp: less_imp_le)
  show "\<bar>of_int f / ?s - x\<bar> = \<bar>of_int g / ?s - x\<bar> \<Longrightarrow> g \<noteq> f \<Longrightarrow> even f"
    using best by (auto simp: dist)
qed

lemma powi_scale: "of_int f * 10 powi (k - int n) = of_int f / scale n k"
proof -
  have "(10::real) powi (k - int n) = inverse (10 powi (int n - k))"
    by (simp add: power_int_minus [symmetric])
  then show ?thesis by (simp add: scale_def divide_inverse)
qed

lemma written_value:
  assumes "0 < n" "10 ^ (n - 1) \<le> f" "f \<le> 10 ^ n" "f = 10 ^ n \<longrightarrow> n = 1" "written n k f = (ds, k')"
  shows "all_digits ds" "length ds = n" "10 ^ (n - 1) \<le> digits_value ds"
    "decimal_value ds k' = of_int f / scale n k" "f < 10 ^ n \<Longrightarrow> ds = show_nat (nat f) \<and> k' = k"
    "f = 10 ^ n \<Longrightarrow> ds = ''1'' \<and> k' = k + 1"
proof -
  have pos: "0 \<le> f" using assms(2) by (metis order_trans zero_le_numeral zero_le_power)
  have "all_digits ds \<and> length ds = n \<and> 10 ^ (n - 1) \<le> digits_value ds \<and>
      decimal_value ds k' = of_int f / scale n k"
  proof (cases "f = 10 ^ n")
    case True
    with assms(4) have n: "n = 1" by simp
    with True assms(5) have ds: "ds = ''1''" "k' = k + 1" "f = 10" by (auto simp: written_def)
    have "digits_value ''1'' = 1" by (simp add: digits_value_def)
    moreover have "of_int 10 / scale 1 k = 10 powi k" using scale_powi(1) [of k 1] by (simp add: nonzero_divide_eq_eq)
    ultimately show ?thesis by (simp add: ds n decimal_value_def is_ascii_digit_def)
  next
    case False
    with assms(3,5) have f: "f < 10 ^ n" "ds = show_nat (nat f)" "k' = k" by (auto simp: written_def)
    have "10 ^ (n - 1) \<le> nat f" "nat f < 10 ^ n" using assms(2) f(1) pos by (simp_all add: le_nat_iff nat_less_iff)
    moreover from this have "length ds = n" using show_nat_length_eq assms(1) f(2) by simp
    ultimately show ?thesis using pos powi_scale [of f k n] by (simp add: f decimal_value_def)
  qed
  then show "all_digits ds" "length ds = n" "10 ^ (n - 1) \<le> digits_value ds"
    "decimal_value ds k' = of_int f / scale n k" by blast+
  show "f < 10 ^ n \<Longrightarrow> ds = show_nat (nat f) \<and> k' = k" "f = 10 ^ n \<Longrightarrow> ds = ''1'' \<and> k' = k + 1"
    using assms(5) by (auto simp: written_def)
qed

lemma settled_range:
  assumes "double x" "k = dec_exp x" "digits_at n k x = Some c" "0 < n"
    "\<forall>m. 0 < m \<and> m < n \<longrightarrow> digits_at m k x = None"
  shows "10 ^ (n - 1) \<le> settled x n k c" "settled x n k c \<le> 10 ^ n" "settled x n k c = 10 ^ n \<longrightarrow> n = 1"
proof -
  have dec: "in_decade x k" using double_decade [OF assms(1)] assms(2) by simp
  show "10 ^ (n - 1) \<le> settled x n k c" "settled x n k c \<le> 10 ^ n"
    using settled_cases(1) [OF assms(3)] floor_range [OF dec assms(4)] by auto
  show "settled x n k c = 10 ^ n \<longrightarrow> n = 1"
    using carry_is_one_digit [OF assms(1) dec _ assms(4,5)] settled_cases(2) [OF assms(3)] by fastforce
qed

text \<open>Of the two numbers of \<open>n\<close> digits around \<open>x\<close>, one reads back and is as near as any that does.\<close>

lemma neighbour_covers:
  assumes "double x" "in_decade x k" "0 < n" "0 \<le> y" "decimal n y" "reads_back x y"
  shows "\<exists>g. (g = \<lfloor>x * scale n k\<rfloor> \<or> g = \<lfloor>x * scale n k\<rfloor> + 1) \<and> reads_back x (of_int g / scale n k) \<and>
    \<bar>of_int g / scale n k - x\<bar> \<le> \<bar>y - x\<bar> \<and> (\<bar>of_int g / scale n k - x\<bar> = \<bar>y - x\<bar> \<longrightarrow> y = of_int g / scale n k)"
proof -
  let ?s = "scale n k" let ?lo = "\<lfloor>x * ?s\<rfloor>"
  show ?thesis
  proof (cases "y \<le> x")
    case True
    have "of_int ?lo / ?s \<le> x" by (simp add: pos_divide_le_eq)
    with cover_down [OF assms(1-3,6,5,4) True] True show ?thesis by (intro exI [of _ ?lo]) auto
  next
    case False
    then have "x < y" by simp
    have "x * ?s \<le> of_int (?lo + 1)" by linarith
    then have "x \<le> of_int (?lo + 1) / ?s" by (simp only: pos_le_divide_eq scale_pos)
    with cover_up [OF assms(1,2,6,5) \<open>x < y\<close>] \<open>x < y\<close> show ?thesis by (intro exI [of _ "?lo + 1"]) auto
  qed
qed

lemma settled_nearest:
  assumes "double x" "in_decade x k" "0 < n" "digits_at n k x = Some c" "0 \<le> y" "decimal n y" "reads_back x y"
  defines "z \<equiv> of_int (settled x n k c) / scale n k"
  shows "\<bar>z - x\<bar> \<le> \<bar>y - x\<bar>"
    "\<bar>z - x\<bar> = \<bar>y - x\<bar> \<Longrightarrow> y \<noteq> z \<Longrightarrow> \<exists>j::int. z = of_int (2 * j) * \<bar>z - y\<bar>"
proof -
  define f where "f = settled x n k c"
  have z: "z = of_int f / scale n k" by (simp add: z_def f_def)
  note best = settled_best [OF assms(4), folded f_def]
  obtain g where g: "g = \<lfloor>x * scale n k\<rfloor> \<or> g = \<lfloor>x * scale n k\<rfloor> + 1" "reads_back x (of_int g / scale n k)"
    "\<bar>of_int g / scale n k - x\<bar> \<le> \<bar>y - x\<bar>" "\<bar>of_int g / scale n k - x\<bar> = \<bar>y - x\<bar> \<Longrightarrow> y = of_int g / scale n k"
    using neighbour_covers [OF assms(1-3,5-7)] by blast
  from best(1) [OF g(1,2)] g(3) show "\<bar>z - x\<bar> \<le> \<bar>y - x\<bar>" by (simp add: z)
  assume tie: "\<bar>z - x\<bar> = \<bar>y - x\<bar>" "y \<noteq> z"
  then have "\<bar>of_int g / scale n k - x\<bar> = \<bar>y - x\<bar>" using best(1) [OF g(1,2)] g(3) by (simp add: z)
  then have y: "y = of_int g / scale n k" by (rule g(4))
  with tie best(2) [OF g(1,2)] have "even f" by (auto simp: z)
  then obtain j where j: "f = 2 * j" by (rule evenE)
  have "\<bar>f - g\<bar> = 1" using settled_cases(1) [OF assms(4)] g(1) tie(2) y by (auto simp: f_def z)
  then have "\<bar>of_int f - of_int g\<bar> = (1::real)" by (metis of_int_1 of_int_abs of_int_diff)
  moreover have "\<bar>z - y\<bar> = \<bar>of_int f - of_int g\<bar> / scale n k"
    using scale_pos [of n k] by (simp add: y z diff_divide_distrib [symmetric] abs_of_pos del: scale_pos)
  ultimately show "\<exists>j::int. z = of_int (2 * j) * \<bar>z - y\<bar>" by (intro exI [of _ j]) (simp add: z j)
qed

lemma settled_python:
  assumes "double x" "k = dec_exp x" "digits_at n k x = Some c" "0 < n"
    "\<forall>m. 0 < m \<and> m < n \<longrightarrow> digits_at m k x = None" "written n k (settled x n k c) = (ds, k')"
  shows "python_digits x ds k'"
proof -
  have dec: "in_decade x k" using double_decade [OF assms(1)] assms(2) by simp
  note vals = written_value [OF assms(4) settled_range [OF assms(1-5)] assms(6)]
  have "length ds \<le> m" if y: "0 \<le> y" "decimal m y" "reads_back x y" for m y
  proof (cases "m = 0")
    case True
    with y have "round_fl f64 0 = Fin x" by (auto simp: decimal_def reads_back_def)
    with assms(1) show ?thesis by (simp add: double_def round_fl_exact)
  next
    case False
    with digits_at_exists [OF assms(1) dec _ y(3,2,1)] assms(5) vals(2) show ?thesis
      by (meson not_gr_zero not_le)
  qed
  with vals settled_cases(2) [OF assms(3)] settled_nearest [OF assms(1) dec assms(4,3)] assms(4) show ?thesis
    by (auto simp: python_digits_def)
qed


section \<open>What the code prints\<close>

lemma split_once_append: "c \<notin> set a \<Longrightarrow> split_once c (a @ c # b) = Some (a, b)"
  by (induction a) auto

lemma not_in_digits: "all_digits ds \<Longrightarrow> \<not> is_ascii_digit c \<Longrightarrow> c \<notin> set ds"
  by (auto simp: all_digits_def list_all_iff)

lemma not_in_sign: "c \<noteq> CHR ''-'' \<Longrightarrow> c \<notin> set (sign_text neg)"
  by (simp add: sign_text_def)

lemma split_mantissa:
  assumes "all_digits ds"
  shows "split_once CHR ''e'' (sign_text neg @ mantissa_text ds @ ''e'' @ ex) = Some (sign_text neg @ mantissa_text ds, ex)"
    "ds \<noteq> [] \<Longrightarrow> (case split_once CHR ''.'' (sign_text neg @ mantissa_text ds) of
       Some (_, fraction) \<Rightarrow> length fraction | None \<Rightarrow> 0) = length ds - 1"
proof -
  have "CHR ''e'' \<notin> set (sign_text neg @ mantissa_text ds)"
    using not_in_digits [OF assms, of "CHR ''e''"]
    by (auto simp: not_in_sign mantissa_text_def dest: in_set_takeD in_set_dropD)
  from split_once_append [OF this] show "split_once CHR ''e'' (sign_text neg @ mantissa_text ds @ ''e'' @ ex) =
      Some (sign_text neg @ mantissa_text ds, ex)" by simp
  have dot: "CHR ''.'' \<notin> set ds" using not_in_digits [OF assms] by simp
  assume "ds \<noteq> []"
  then obtain d r where ds: "ds = d # r" by (cases ds) auto
  show "(case split_once CHR ''.'' (sign_text neg @ mantissa_text ds) of
       Some (_, fraction) \<Rightarrow> length fraction | None \<Rightarrow> 0) = length ds - 1"
  proof (cases "r = []")
    case True
    then have "split_once CHR ''.'' (sign_text neg @ mantissa_text ds) = None"
      using dot by (simp add: split_once_None ds mantissa_text_def not_in_sign)
    with True show ?thesis by (simp add: ds)
  next
    case False
    then have "split_once CHR ''.'' ((sign_text neg @ [d]) @ CHR ''.'' # r) = Some (sign_text neg @ [d], r)"
      using dot by (intro split_once_append) (simp add: ds not_in_sign)
    with False show ?thesis by (simp add: ds mantissa_text_def)
  qed
qed

lemma fixed_point_positional:
  assumes "0 < d"
  shows "fixed_point d x =
    (let ds = show_nat (nat (round_even (x * 10 ^ d))) in positional ds (int (length ds) - int d))"
proof -
  let ?ds = "show_nat (nat (round_even (x * 10 ^ d)))"
  show ?thesis
  proof (cases "d < length ?ds")
    case True
    then have "nat (int (length ?ds) - int d) = length ?ds - d" by simp
    with True assms show ?thesis by (simp add: fixed_point_def positional_def Let_def zeros_def)
  next
    case False
    then have "Suc d - length ?ds = Suc (d - length ?ds)" "nat (- (int (length ?ds) - int d)) = d - length ?ds" by auto
    with False assms show ?thesis by (simp add: fixed_point_def positional_def Let_def zeros_def)
  qed
qed

lemma parse_i32_show:
  assumes "\<bar>e\<bar> < 1000"
  shows "parse_i32 (show_int e) = Some e"
  using unsigned_text [OF starts_digit_all [of "show_nat (nat e)" "[]", simplified]] assms
  by (cases "e < 0") (simp_all add: parse_i32_def show_int_def all_digits_def [symmetric])

lemma decade_range:
  assumes "double x"
  shows "- 400 < dec_exp x" "dec_exp x < 400"
proof -
  have dec: "10 powi (dec_exp x - 1) \<le> x" "x < 10 powi (dec_exp x)"
    using double_decade [OF assms] by (simp_all add: in_decade_def)
  have "10 powi -399 < (10::real) powi (dec_exp x)" using double_lower [OF assms] dec(2) by linarith
  then have "-399 < dec_exp x" by (rule powi_lessD)
  then show "- 400 < dec_exp x" by simp
  have "x < 2 ^ 1024" using assms by (auto simp: double_def representable_def f64_def abs_less_iff)
  also have "(2::real) ^ 1024 \<le> 10 ^ 399" by simp
  finally have "10 powi (dec_exp x - 1) < (10::real) powi int 399" using dec(1) by (simp only: powi_nat)
  then have "dec_exp x - 1 < int 399" by (rule powi_lessD)
  then show "dec_exp x < 400" by simp
qed

text \<open>The shortest digits found, as one assumption.\<close>

definition found :: "real \<Rightarrow> nat \<Rightarrow> int \<Rightarrow> int \<Rightarrow> bool" where
  "found x n k c \<longleftrightarrow>
     double x \<and> k = dec_exp x \<and> digits_at n k x = Some c \<and> 0 < n \<and>
     (\<forall>m. 0 < m \<and> m < n \<longrightarrow> digits_at m k x = None) \<and> shortest x = Some (written n k c)"

lemma found_exists: "double x \<Longrightarrow> \<exists>n c. found x n (dec_exp x) c"
  using shortest_exists [of x] by (auto simp: found_def)

lemma found_digits:
  assumes "found x n k c"
  shows "double x" "in_decade x k" "0 < n" "digits_at n k x = Some c"
    "10 ^ (n - 1) \<le> c" "c \<le> 10 ^ n" "c = 10 ^ n \<longrightarrow> n = 1"
    "10 ^ (n - 1) \<le> settled x n k c" "settled x n k c \<le> 10 ^ n" "settled x n k c = 10 ^ n \<longrightarrow> n = 1"
    "\<And>ds k'. written n k (settled x n k c) = (ds, k') \<Longrightarrow> python_digits x ds k'"
proof -
  note all = assms [unfolded found_def]
  note f = all [THEN conjunct1] all [THEN conjunct2, THEN conjunct1]
    all [THEN conjunct2, THEN conjunct2, THEN conjunct1]
    all [THEN conjunct2, THEN conjunct2, THEN conjunct2, THEN conjunct1]
    all [THEN conjunct2, THEN conjunct2, THEN conjunct2, THEN conjunct2, THEN conjunct1]
  show dec: "in_decade x k" using double_decade [OF f(1)] f(2) by simp
  show "double x" "0 < n" "digits_at n k x = Some c" by (rule f)+
  show "10 ^ (n - 1) \<le> c" "c \<le> 10 ^ n" using digits_bounds [OF dec f(4,3)] by simp_all
  show "c = 10 ^ n \<longrightarrow> n = 1"
    using carry_is_one_digit [OF f(1) dec _ f(4,5)] digits_at_cases(1) [OF f(3)] by fastforce
  show "10 ^ (n - 1) \<le> settled x n k c" "settled x n k c \<le> 10 ^ n" "settled x n k c = 10 ^ n \<longrightarrow> n = 1"
    by (rule settled_range [OF f])+
  show "\<And>ds k'. written n k (settled x n k c) = (ds, k') \<Longrightarrow> python_digits x ds k'"
    by (rule settled_python [OF f])
qed

lemma written_digits:
  assumes "0 < n" "10 ^ (n - 1) \<le> f" "f \<le> 10 ^ n" "f = 10 ^ n \<longrightarrow> n = 1" "written n k f = (ds, k')"
  shows "all_digits ds \<and> ds \<noteq> [] \<and> length ds = n"
  using written_value(1,2) [OF assms] assms(1) by auto

lemma fixed_exponential_written:
  assumes "found x n k c" "reads_back x (of_int (round_even (x * scale n k)) / scale n k)"
    "written n k (settled x n k c) = (ds, k')"
  shows "fixed_exponential (n - 1) x = exponential ds k'"
proof -
  let ?r = "round_even (x * scale n k)"
  have r: "settled x n k c = ?r" using assms(2) by (simp add: settled_def)
  have k: "dec_exp x = k" "Suc (n - 1) = n" using assms(1) by (auto simp: found_def)
  have one: "show_nat (10 ^ 0) = ''1''" by code_simp
  show ?thesis
  proof (cases "?r = 10 ^ n")
    case True
    then have "n = 1" using found_digits(10) [OF assms(1)] r by simp
    then have "n - 1 = 0" by simp
    with True assms(3) k one show ?thesis
      by (simp only: fixed_exponential_def Let_def written_def r if_True prod.inject) simp
  next
    case False
    with assms(3) k show ?thesis
      by (auto simp: fixed_exponential_def Let_def written_def r)
  qed
qed

lemma fixed_exponential_parse:
  assumes "found x n k c"
  shows "parse_fl f64 (sign_text neg @ fixed_exponential (n - 1) x) = Some (to_fl (Num neg x)) \<longleftrightarrow>
    reads_back x (of_int (round_even (x * scale n k)) / scale n k)"
proof -
  let ?r = "round_even (x * scale n k)"
  note f = found_digits [OF assms]
  have r: "10 ^ (n - 1) \<le> ?r" "?r \<le> 10 ^ n"
    using round_even_cases [of "x * scale n k"] floor_range [OF f(2,3)] by auto
  then have pos: "0 \<le> ?r" by (metis order_trans zero_le_numeral zero_le_power)
  have k: "dec_exp x = k" "Suc (n - 1) = n" using assms by (auto simp: found_def)
  obtain ds k' where tx: "fixed_exponential (n - 1) x = exponential ds k'" and
    ds: "all_digits ds" "ds \<noteq> []" "of_nat (digits_value ds) * 10 powi (k' - int (length ds)) = of_int ?r / scale n k"
  proof (cases "?r = 10 ^ n")
    case True
    have "length (show_nat (10 ^ (n - 1))) = n"
      using f(3) by (intro show_nat_length_eq) simp_all
    moreover have "real (10 ^ (n - 1)) * 10 powi (k + 1 - int n) = of_int (10 ^ n) / scale n k"
    proof -
      have e: "k + 1 - int n = k - int (n - 1)" using f(3) by simp
      have "10 ^ (n - 1) = 10 powi k * scale (n - 1) k" by (rule scale_powi(1) [symmetric])
      then have "real (10 ^ (n - 1)) * 10 powi (k - int (n - 1)) = 10 powi k"
        using powi_scale [of "10 ^ (n - 1)" k "n - 1"] by simp
      moreover have "of_int (10 ^ n) / scale n k = 10 powi k"
        by (simp add: scale_powi(1) [of k n, symmetric])
      ultimately show ?thesis by (simp only: e)
    qed
    ultimately show thesis
      using True k that [of "show_nat (10 ^ (n - 1))" "k + 1"] by (simp add: fixed_exponential_def Let_def)
  next
    case False
    with r have "?r < 10 ^ n" by simp
    then have "length (show_nat (nat ?r)) = n"
      using r(1) pos f(3) by (intro show_nat_length_eq) (simp_all add: le_nat_iff nat_less_iff)
    then show thesis
      using False k pos powi_scale [of ?r k n] that [of "show_nat (nat ?r)" k]
      by (simp add: fixed_exponential_def Let_def)
  qed
  note parse = parse_exponential [OF ds(1,2) parse_show_int(1)]
  show ?thesis
    unfolding tx exponential_def
    using parse_back [OF parse(2,1)] ds(3) by simp
qed

lemma repr_exponential_text:
  assumes "found x n k c" "written n k (settled x n k c) = (ds, k')"
  shows "repr_exponential neg x = Some (sign_text neg @ mantissa_text ds @ ''e'' @ signed_exponent (k' - 1))"
proof -
  note f = found_digits [OF assms(1)]
  obtain ds0 k0 where w: "written n k c = (ds0, k0)" by fastforce
  have d0: "all_digits ds0 \<and> ds0 \<noteq> [] \<and> length ds0 = n" using written_digits [OF f(3,5,6,7) w] .
  have d: "all_digits ds \<and> ds \<noteq> [] \<and> length ds = n" using written_digits [OF f(3,8,9,10) assms(2)] .
  have tx: "lower_exp_f64 neg x = Some (sign_text neg @ exponential ds0 k0)"
    using assms(1) w by (simp add: lower_exp_f64_def found_def)
  let ?ok = "reads_back x (of_int (round_even (x * scale n k)) / scale n k)"
  have chosen: "(if ?ok then sign_text neg @ fixed_exponential (n - 1) x else sign_text neg @ exponential ds0 k0) =
      sign_text neg @ exponential ds k'"
  proof (cases ?ok)
    case True
    with fixed_exponential_written [OF assms(1) True assms(2)] show ?thesis by simp
  next
    case False
    then have "settled x n k c = c" by (simp add: settled_def)
    with assms(2) w False show ?thesis by simp
  qed
  have "k' = k \<or> k' = k + 1" using assms(2) by (auto simp: written_def split: if_splits)
  then have "\<bar>k' - 1\<bar> < 1000" using decade_range [OF f(1)] assms(1) by (auto simp: found_def)
  note i32 = parse_i32_show [OF this]
  have digits: "(case split_once CHR ''.'' (sign_text neg @ mantissa_text ds0) of
      None \<Rightarrow> 0 | Some (u, fraction) \<Rightarrow> length fraction) = n - 1"
    using split_mantissa(2) [of ds0 neg] d0 by (simp add: split: option.splits)
  have "repr_exponential neg x = Option.bind (split_once CHR ''e'' (sign_text neg @ exponential ds k'))
      (\<lambda>(mantissa, exponent). map_option (\<lambda>e. mantissa @ ''e'' @ signed_exponent e) (parse_i32 exponent))"
    using split_mantissa(1) [of ds0 neg "show_int (k0 - 1)"] d0
    by (simp only: repr_exponential_def tx exponential_def bind.simps prod.case Let_def digits
        fixed_exponential_parse [OF assms(1)] chosen [unfolded exponential_def] append_assoc)
  then show ?thesis
    using split_mantissa(1) [of ds neg "show_int (k' - 1)"] d i32 by (simp add: exponential_def)
qed

text \<open>Below \<open>10 ^ 16\<close> an integer found is the value itself.\<close>

lemma representable_nat:
  assumes "Y \<le> 2 ^ 53 \<or> even Y" "Y \<le> 10 ^ 16"
  shows "representable f64 (of_nat Y)"
proof -
  have "real Y \<le> 10 ^ 16" using assms(2) by (metis of_nat_le_iff of_nat_numeral of_nat_power)
  also have "(10::real) ^ 16 < 2 ^ max_exp f64" by (simp add: f64_def)
  finally have lim: "\<bar>real Y\<bar> < 2 ^ max_exp f64" by simp
  obtain k e where "Y = k * 2 ^ e" "k < 2 ^ 53"
  proof (cases "even Y")
    case True
    then obtain h where "Y = 2 * h" by (rule evenE)
    with assms(2) that [of h 1] show thesis by simp
  next
    case False
    moreover have "Y \<noteq> 2 ^ 53" using False by auto
    ultimately show thesis using assms(1) that [of Y 0] by simp
  qed
  then have "real Y = of_int (int k) * 2 ^ (e + min_exp f64) / 2 ^ min_exp f64" "\<bar>int k\<bar> < 2 ^ prec f64"
    by (simp_all add: power_add)
  with lim show ?thesis unfolding representable_def by blast
qed

lemma large_double_integral:
  assumes "double x" "2 ^ 53 \<le> x"
  shows "x = of_int \<lfloor>x\<rfloor>"
proof -
  obtain k e where k: "x = of_int k * 2 ^ e / 2 ^ 1074" "\<bar>k\<bar> < 2 ^ 53"
    using assms(1) by (auto simp: double_def representable_def f64_def)
  have "of_int k < (2::real) ^ 53"
    using k(2) by (metis abs_less_iff of_int_less_iff of_int_numeral of_int_power)
  then have "of_int k * 2 ^ e < (2::real) ^ 53 * 2 ^ e" by (intro mult_strict_right_mono) auto
  then have "x < 2 ^ 53 * 2 ^ e / 2 ^ 1074" unfolding k(1) by (intro divide_strict_right_mono) auto
  with assms(2) have "(2::real) ^ 53 < 2 ^ 53 * 2 ^ e / 2 ^ 1074" by linarith
  then have "(2::real) ^ 1074 < 2 ^ e" by (simp add: pos_less_divide_eq)
  then have "1074 < e" by (rule power_less_imp_less_exp [rotated]) simp
  then obtain j where "e = j + 1074" by (metis add.commute less_imp_add_positive)
  then have "x = of_int (k * 2 ^ j)" using k(1) by (simp add: power_add)
  then show ?thesis by simp
qed

lemma reads_back_nat:
  assumes "reads_back x (of_nat Y)" "Y \<le> 2 ^ 53 \<or> even Y" "Y \<le> 10 ^ 16"
  shows "x = of_nat Y"
  using assms(1) round_fl_exact [OF representable_nat [OF assms(2,3)]] by (simp add: reads_back_def)

lemma reads_back_large:
  assumes "double x" "reads_back x y" "2 ^ 53 \<le> y"
  shows "2 ^ 53 \<le> x"
proof -
  have "nearest f64 (2 ^ 53) \<le> nearest f64 y" using assms(3) by (intro nearest_mono) auto
  moreover have "nearest f64 (of_nat (2 ^ 53)) = of_nat (2 ^ 53)"
    by (intro round_fl_nearest round_fl_exact representable_nat) auto
  moreover have "nearest f64 y = x" using assms(2) by (simp add: reads_back_def round_fl_nearest)
  ultimately show ?thesis by simp
qed

lemma integral_digits:
  assumes "found x n k c" "x < 10 ^ 16" "written n k c = (ds, k')" "int n \<le> k'"
  shows "x * scale n k = of_int c \<and> c < 10 ^ n \<and> k' = k"
proof -
  note f = found_digits [OF assms(1)]
  have dec: "10 powi (k - 1) \<le> x" "x < 10 powi k" using f(2) by (simp_all add: in_decade_def)
  have "(10::real) powi (k - 1) < 10 powi int 16" using dec(1) assms(2) by (simp only: powi_nat)
  then have "k - 1 < int 16" by (rule powi_lessD)
  then have k16: "k \<le> 16" by simp
  have cpos: "0 \<le> c" using f(5) by (metis order_trans zero_le_numeral zero_le_power)
  have rb: "reads_back x (of_int c / scale n k)" by (rule digits_at_cases(1) [OF f(4)])
  show ?thesis
  proof (cases "c = 10 ^ n")
    case True
    with f(7) assms(3,4) have "n = 1" "0 \<le> k" by (auto simp: written_def)
    then obtain j where j: "k = int j" by (metis nonneg_int_cases)
    have "of_int c / scale n k = 10 powi k" by (simp add: True scale_powi(1) [of k n, symmetric])
    then have "reads_back x (of_nat (10 ^ j))" using rb by (simp add: j powi_nat)
    moreover have "10 ^ j \<le> (10::nat) ^ 16" using k16 j by (intro power_increasing) auto
    moreover have "(10::nat) ^ j \<le> 2 ^ 53 \<or> even ((10::nat) ^ j)" by (cases j) auto
    ultimately have "x = of_nat (10 ^ j)" by (intro reads_back_nat)
    with dec(2) show ?thesis by (simp add: j powi_nat)
  next
    case False
    with f(6) have c: "c < 10 ^ n" by simp
    with assms(3,4) False have kk: "k' = k" "int n \<le> k" by (auto simp: written_def)
    then obtain j where j: "k = int n + int j" by (metis zle_iff_zadd)
    define Y where "Y = nat c * 10 ^ j"
    have "of_int c / scale n k = of_int c * 10 powi int j" using powi_scale [of c k n] by (simp add: j)
    then have y: "of_int c / scale n k = of_nat Y" using cpos by (simp add: Y_def powi_nat)
    have "nat c * 10 ^ j \<le> 10 ^ n * 10 ^ j" using c cpos by (intro mult_right_mono) (simp_all add: nat_le_iff)
    also have "\<dots> = 10 ^ (n + j)" by (simp only: power_add)
    also have "\<dots> \<le> (10::nat) ^ 16" using k16 j by (intro power_increasing) auto
    finally have Y16: "Y \<le> 10 ^ 16" by (simp add: Y_def)
    have "x = of_nat Y"
    proof (cases "Y \<le> 2 ^ 53 \<or> even Y")
      case True
      with rb y Y16 show ?thesis by (intro reads_back_nat) simp_all
    next
      case odd: False
      then have "j = 0" by (cases j) (auto simp: Y_def)
      then have s1: "scale n k = 1" by (simp add: scale_def j)
      have "2 ^ 53 \<le> real Y" using odd by (metis le_cases of_nat_le_iff of_nat_numeral of_nat_power)
      then have "x = of_int \<lfloor>x\<rfloor>"
        using reads_back_large [OF f(1)] rb y large_double_integral [OF f(1)] by simp
      then have "reads_back x (of_int \<lfloor>x\<rfloor>)" "x - of_int \<lfloor>x\<rfloor> = 0" using double_reads_back [OF f(1)] by simp_all
      then have "c = \<lfloor>x\<rfloor>"
        using digits_at_cases(2,4) [OF f(4)] by (auto simp: s1)
      with \<open>x = of_int \<lfloor>x\<rfloor>\<close> y show ?thesis by (simp add: s1)
    qed
    with y c kk show ?thesis by (simp add: nonzero_divide_eq_eq)
  qed
qed

lemma show_nat_shift: "0 < c \<Longrightarrow> show_nat (c * 10 ^ j) = show_nat c @ zeros j"
proof (induction j)
  case (Suc j)
  have "show_nat (c * 10 ^ Suc j) = show_nat (c * 10 ^ j) @ [digit 0]"
    using Suc.prems by (subst show_nat.simps) simp
  moreover have "digit 0 = CHR ''0''" by code_simp
  ultimately show ?case using Suc by (simp add: zeros_def replicate_append_same [symmetric])
qed (simp add: zeros_def)

lemma scale_nat: "k \<le> int n \<Longrightarrow> scale n k = 10 ^ nat (int n - k)"
  by (simp add: scale_def power_int_def)

lemma positional_split:
  assumes "all_digits ds" "ds \<noteq> []"
  shows "\<exists>whole fraction. split_once CHR ''.'' (sign_text neg @ positional ds k) = Some (whole, fraction) \<and>
    length fraction = (if k < int (length ds) then nat (int (length ds) - k) else 1)"
proof -
  have dot: "CHR ''.'' \<notin> set ds" "CHR ''.'' \<notin> set (sign_text neg)" "\<And>n. CHR ''.'' \<notin> set (zeros n)"
    "\<And>n. CHR ''.'' \<notin> set (take n ds)"
    using not_in_digits [OF assms(1)] by (auto simp: not_in_sign zeros_def dest: in_set_takeD)
  consider (small) "k \<le> 0" "k < int (length ds)" | (middle) "0 < k" "nat k < length ds" | (large) "0 < k" "length ds \<le> nat k"
    using length_greater_0_conv [of ds, THEN iffD2, OF assms(2)] by linarith
  then show ?thesis
  proof cases
    case small
    have "split_once CHR ''.'' ((sign_text neg @ ''0'') @ CHR ''.'' # (zeros (nat (- k)) @ ds)) =
        Some (sign_text neg @ ''0'', zeros (nat (- k)) @ ds)"
      using dot by (intro split_once_append) simp
    moreover have "nat (int (length ds) - k) = nat (- k) + length ds" using small by simp
    ultimately show ?thesis using small by (simp add: positional_def)
  next
    case middle
    have "split_once CHR ''.'' ((sign_text neg @ take (nat k) ds) @ CHR ''.'' # drop (nat k) ds) =
        Some (sign_text neg @ take (nat k) ds, drop (nat k) ds)"
      using dot by (intro split_once_append) simp
    moreover have "nat (int (length ds) - k) = length ds - nat k" "k < int (length ds)" using middle by simp_all
    ultimately show ?thesis using middle by (simp add: positional_def)
  next
    case large
    have "split_once CHR ''.'' ((sign_text neg @ ds @ zeros (nat k - length ds)) @ CHR ''.'' # ''0'') =
        Some (sign_text neg @ ds @ zeros (nat k - length ds), ''0'')"
      using dot by (intro split_once_append) simp
    then show ?thesis using large by (simp add: positional_def)
  qed
qed

lemma repr_positional_step:
  assumes "debug_f64 neg x = Some (sign_text neg @ positional ds k)" "all_digits ds" "ds \<noteq> []"
  defines "d \<equiv> (if k < int (length ds) then nat (int (length ds) - k) else 1)"
  shows "repr_positional neg x =
    Some (sign_text neg @
      (if reads_back x (of_nat (nat (round_even (x * 10 ^ d))) / 10 ^ d) then fixed_point d x else positional ds k))"
proof -
  obtain whole fraction where split: "split_once CHR ''.'' (sign_text neg @ positional ds k) = Some (whole, fraction)"
    "length fraction = d"
    using positional_split [OF assms(2,3), of neg k] by (auto simp: d_def)
  have "0 < d" by (auto simp: d_def)
  let ?N = "nat (round_even (x * 10 ^ d))"
  have fp: "fixed_point d x = positional (show_nat ?N) (int (length (show_nat ?N)) - int d)"
    using fixed_point_positional [OF \<open>0 < d\<close>] by (simp add: Let_def)
  have "of_nat ?N * 10 powi (int (length (show_nat ?N)) - int d - int (length (show_nat ?N))) = of_nat ?N / (10::real) ^ d"
    by (simp add: power_int_minus powi_nat divide_inverse)
  then have "parse_fl f64 (sign_text neg @ fixed_point d x) = Some (to_fl (Num neg x)) \<longleftrightarrow>
      reads_back x (of_nat ?N / 10 ^ d)"
    unfolding fp using parse_positional [of "show_nat ?N" "int (length (show_nat ?N)) - int d"]
    by (simp add: parse_back)
  then show ?thesis using assms(1) split by (simp add: repr_positional_def Let_def)
qed

lemma carry_settled:
  assumes "found x n k c" "c = 10 ^ n"
  shows "n = 1" "settled x n k c = c"
proof -
  note f = found_digits [OF assms(1)]
  show n: "n = 1" using f(7) assms(2) by simp
  let ?y = "x * scale n k"
  have "\<lfloor>?y\<rfloor> < 10 ^ n" by (rule floor_range(2) [OF f(2,3)])
  with assms(2) have "c \<noteq> \<lfloor>?y\<rfloor>" by (metis less_irrefl)
  then have c: "c = 10" "c = \<lfloor>?y\<rfloor> + 1" using digits_at_cases(2) [OF f(4)] assms(2) n by auto
  show "settled x n k c = c"
  proof (rule ccontr)
    assume "settled x n k c \<noteq> c"
    then have r: "round_even ?y \<noteq> c" "reads_back x (of_int (round_even ?y) / scale n k)"
      by (auto simp: settled_def Let_def split: if_splits)
    then have lo: "round_even ?y = 9" "\<lfloor>?y\<rfloor> = 9" using round_even_cases [of ?y] c by auto
    then have "of_int c - ?y \<le> ?y - of_int (c - 1)"
      using digits_at_cases(4) [OF f(4) c(2)] r(2) c(1) by simp
    then have "1 / 2 \<le> ?y - of_int \<lfloor>?y\<rfloor>" using c(1) lo(2) by simp
    then have "round_even ?y = 10" unfolding round_even_def Let_def lo(2) by auto
    with lo(1) show False by simp
  qed
qed

text \<open>What is printed with \<open>d\<close> digits after the point, \<open>text\<close> being the language's choice.\<close>

definition printed :: "nat \<Rightarrow> real \<Rightarrow> string \<Rightarrow> string" where
  "printed d x text =
     (if reads_back x (of_nat (nat (round_even (x * 10 ^ d))) / 10 ^ d) then fixed_point d x else text)"

lemma round_even_nonneg: "0 \<le> y \<Longrightarrow> 0 \<le> round_even y"
  using round_even_mono [of 0 y] round_even_int [of 0] by simp

lemma printed_integral:
  assumes "found x n k c" "x < 10 ^ 16" "written n k c = (ds0, k0)" "\<not> k0 < int n"
  shows "settled x n k c = c" "printed 1 x (positional ds0 k0) = positional ds0 k0"
proof -
  note f = found_digits [OF assms(1)]
  have int: "x * scale n k = of_int c" "c < 10 ^ n" "k0 = k" using integral_digits [OF assms(1-3)] assms(4) by simp_all
  show "settled x n k c = c" by (simp add: settled_def int(1))
  obtain j where j: "k = int n + int j" using assms(4) int(3) by (metis not_less zle_iff_zadd)
  have ds0: "ds0 = show_nat (nat c)" using assms(3) int(2) by (simp add: written_def)
  have len: "length ds0 = n" using written_digits [OF f(3,5,6,7) assms(3)] by simp
  have cpos: "0 < c" using f(5) by (metis less_le_trans zero_less_numeral zero_less_power)
  have "x = of_int c / scale n k" using int(1) by (simp add: nonzero_eq_divide_eq)
  also have "\<dots> = of_int c * 10 powi int j" using powi_scale [of c k n] j by simp
  finally have x: "x = of_int c * 10 ^ j" by (simp only: powi_nat)
  have "x * 10 ^ 1 = of_int (c * 10 ^ Suc j)" by (simp add: x)
  then have "nat (round_even (x * 10 ^ 1)) = nat c * 10 ^ Suc j"
    using cpos by (simp only: round_even_int) (simp add: nat_mult_distrib)
  then have N: "show_nat (nat (round_even (x * 10 ^ 1))) = ds0 @ zeros (Suc j)"
    using show_nat_shift [of "nat c" "Suc j"] cpos by (simp add: ds0 mult.assoc)
  have "fixed_point 1 x = positional ds0 k"
    unfolding fixed_point_positional [of 1 x, unfolded Let_def, OF zero_less_one] N using len j f(3)
    by (simp add: positional_def zeros_def nat_add_distrib replicate_append_same [symmetric])
  then show "printed 1 x (positional ds0 k0) = positional ds0 k0" by (simp add: printed_def int(3))
qed

text \<open>Digits of a fraction: rounding to as many gives the nearest ones, if they are not a power of ten.\<close>

lemma no_carry:
  assumes "found x n k c" "c < 10 ^ n" "reads_back x (of_int (round_even (x * scale n k)) / scale n k)"
  shows "round_even (x * scale n k) \<noteq> 10 ^ n"
proof
  note f = found_digits [OF assms(1)]
  assume top: "round_even (x * scale n k) = 10 ^ n"
  then have up: "c = \<lfloor>x * scale n k\<rfloor>" "10 ^ n = \<lfloor>x * scale n k\<rfloor> + 1"
    using digits_at_cases(2) [OF f(4)] assms(2) round_even_cases [of "x * scale n k"] floor_range(2) [OF f(2,3)] by auto
  then have "x * scale n k - of_int c < of_int (c + 1) - x * scale n k"
    using digits_at_cases(3) [OF f(4) up(1)] assms(3) top by simp
  then have "\<bar>x * scale n k - of_int c\<bar> < 1 / 2" using up(1) by (simp add: abs_less_iff)
  then have "round_even (x * scale n k) = c" by (rule round_even_near)
  with top assms(2) show False by simp
qed

lemma printed_fraction:
  assumes "found x n k c" "written n k c = (ds0, k0)" "k0 < int n" "c \<noteq> 10 ^ n"
    and "written n k (settled x n k c) = (ds, k')"
  shows "printed (nat (int n - k0)) x (positional ds0 k0) = positional ds k'"
proof -
  note f = found_digits [OF assms(1)]
  define d where "d = nat (int n - k0)"
  have k0: "k0 = k" "c < 10 ^ n" using assms(2,4) f(6) by (auto simp: written_def)
  have d: "int d = int n - k" "0 < d" using assms(3) k0 by (simp_all add: d_def)
  have sc: "scale n k = 10 ^ d" using scale_nat [of k n] assms(3) k0(1) by (simp add: d_def)
  have npos: "0 \<le> round_even (x * 10 ^ d)" using f(1) by (intro round_even_nonneg) (simp add: double_def)
  show ?thesis
  proof (cases "reads_back x (of_int (round_even (x * scale n k)) / scale n k)")
    case True
    then have "settled x n k c = round_even (x * 10 ^ d)" by (simp add: settled_def sc)
    then have "ds = show_nat (nat (round_even (x * 10 ^ d)))" "k' = k"
      using assms(5) no_carry [OF assms(1) k0(2) True] by (auto simp: written_def sc)
    moreover have "length ds = n" using written_digits [OF f(3,8,9,10) assms(5)] by simp
    ultimately have "fixed_point d x = positional ds k'"
      unfolding fixed_point_positional [OF d(2), of x, unfolded Let_def] using d by simp
    with True npos show ?thesis by (simp add: printed_def sc d_def [symmetric])
  next
    case False
    then have "settled x n k c = c" by (simp add: settled_def sc)
    moreover have "printed d x (positional ds0 k0) = positional ds0 k0" using False npos by (simp add: printed_def sc)
    ultimately show ?thesis using assms(2,5) by (simp add: d_def)
  qed
qed

lemma printed_carry:
  assumes "found x n k c" "written n k c = (ds0, k0)" "k0 < int n" "c = 10 ^ n"
  shows "printed (nat (int n - k0)) x (positional ds0 k0) = positional ds0 k0"
proof -
  note f = found_digits [OF assms(1)]
  have x0: "x \<noteq> 0" using f(1) by (simp add: double_def)
  define d where "d = nat (int n - k0)"
  have k0: "ds0 = ''1''" "k0 = k + 1" using assms(2,4) by (auto simp: written_def)
  have d: "int d = - k" "0 < d" using assms(3) k0(2) carry_settled(1) [OF assms(1,4)] by (simp_all add: d_def)
  have "10 ^ d * 10 powi k = (1::real)" using d by (simp add: powi_nat [symmetric] power_int_minus)
  then have "x * 10 ^ d < 1"
    using f(2) mult_strict_right_mono [of x "10 powi k" "10 ^ d"] by (simp add: in_decade_def mult.commute)
  then have "\<lfloor>x * 10 ^ d\<rfloor> \<le> 0" by (simp add: floor_le_iff)
  then consider "nat (round_even (x * 10 ^ d)) = 0" | "nat (round_even (x * 10 ^ d)) = 1"
    using round_even_cases [of "x * 10 ^ d"] by linarith
  then show ?thesis
  proof cases
    case 1
    moreover have "\<not> reads_back x 0" using x0 by (auto simp: reads_back_def round_fl_exact)
    ultimately show ?thesis by (simp add: printed_def d_def [symmetric])
  next
    case 2
    have "show_nat 1 = ''1''" by code_simp
    then have "fixed_point d x = positional ds0 k0"
      unfolding fixed_point_positional [OF d(2), of x, unfolded Let_def] 2 using d by (simp add: k0 add.commute)
    then show ?thesis by (simp add: printed_def d_def [symmetric])
  qed
qed

lemma repr_positional_text:
  assumes "found x n k c" "x < 10 ^ 16" "written n k (settled x n k c) = (ds, k')"
  shows "repr_positional neg x = Some (sign_text neg @ positional ds k')"
proof -
  note f = found_digits [OF assms(1)]
  have x0: "x \<noteq> 0" using f(1) by (simp add: double_def)
  obtain ds0 k0 where w: "written n k c = (ds0, k0)" by fastforce
  have d0: "all_digits ds0" "ds0 \<noteq> []" "length ds0 = n" using written_digits [OF f(3,5,6,7) w] by simp_all
  have debug: "debug_f64 neg x = Some (sign_text neg @ positional ds0 k0)"
    using assms(1) w x0 by (simp add: debug_f64_def found_def)
  have step: "repr_positional neg x =
      Some (sign_text neg @ printed (if k0 < int n then nat (int n - k0) else 1) x (positional ds0 k0))"
    using repr_positional_step [OF debug d0(1,2)] d0(3) by (simp only: printed_def)
  show ?thesis
  proof (cases "k0 < int n")
    case False
    with step assms(3) w printed_integral [OF assms(1,2) w False] show ?thesis by simp
  next
    case small: True
    show ?thesis
    proof (cases "c = 10 ^ n")
      case False
      with step small printed_fraction [OF assms(1) w small False assms(3)] show ?thesis by simp
    next
      case True
      with step small assms(3) w carry_settled(2) [OF assms(1) True] printed_carry [OF assms(1) w small True]
      show ?thesis by simp
    qed
  qed
qed


section \<open>Python's digits are unique\<close>

lemma digits_value_less: "all_digits ds \<Longrightarrow> digits_value ds < 10 ^ length ds"
proof (induction ds rule: rev_induct)
  case (snoc c ds)
  then have "digits_value [c] < 10" by (auto simp: digits_value_def is_ascii_digit_def)
  with snoc show ?case by (simp add: digits_value_append)
qed (simp add: digits_value_def)

lemma digits_value_inj:
  "all_digits a \<Longrightarrow> all_digits b \<Longrightarrow> length a = length b \<Longrightarrow> digits_value a = digits_value b \<Longrightarrow> a = b"
proof (induction a arbitrary: b rule: rev_induct)
  case (snoc c a)
  then obtain d e where b: "b = e @ [d]" by (metis length_0_conv length_append_singleton nat.distinct(1) rev_exhaust)
  have v: "digits_value a * 10 + digits_value [c] = digits_value e * 10 + digits_value [d]"
    using snoc.prems by (simp add: b digits_value_append)
  have less: "digits_value [c] < 10" "digits_value [d] < 10"
    using snoc.prems digits_value_less [of "[c]"] digits_value_less [of "[d]"] by (simp_all add: b)
  have "digits_value a = digits_value e" "digits_value [c] = digits_value [d]"
    using v less by presburger+
  moreover have "c = d" if "digits_value [c] = digits_value [d]"
    using that snoc.prems by (auto simp: b digits_value_def is_ascii_digit_def dest: eq_diff_iff [THEN iffD1, rotated 2])
  ultimately show ?case using snoc by (simp add: b)
qed simp

lemma decimal_value_decade:
  assumes "all_digits ds" "ds \<noteq> []" "10 ^ (length ds - 1) \<le> digits_value ds"
  shows "10 powi (k - 1) \<le> decimal_value ds k" "decimal_value ds k < 10 powi k"
proof -
  have "10 ^ (length ds - 1) * 10 powi (k - int (length ds)) = (10::real) powi (int (length ds - 1) + (k - int (length ds)))"
    by (simp add: power_int_add powi_nat)
  also have "int (length ds - 1) + (k - int (length ds)) = k - 1" using assms(2) by (cases ds) auto
  finally have lo: "10 powi (k - 1) = (10::real) ^ (length ds - 1) * 10 powi (k - int (length ds))" by simp
  have "(10::real) powi (int (length ds) + (k - int (length ds))) = 10 powi int (length ds) * 10 powi (k - int (length ds))"
    by (rule power_int_add) simp
  then have hi: "10 powi k = (10::real) ^ length ds * 10 powi (k - int (length ds))" by (simp add: powi_nat)
  have "(10::real) ^ (length ds - 1) \<le> of_nat (digits_value ds)"
    using assms(3) by (metis of_nat_le_iff of_nat_numeral of_nat_power)
  then show "10 powi (k - 1) \<le> decimal_value ds k"
    unfolding lo decimal_value_def by (intro mult_right_mono) auto
  have "of_nat (digits_value ds) < (10::real) ^ length ds"
    using digits_value_less [OF assms(1)] by (metis of_nat_less_iff of_nat_numeral of_nat_power)
  then show "decimal_value ds k < 10 powi k"
    unfolding hi decimal_value_def by (intro mult_strict_right_mono) auto
qed

lemma python_digits_unique:
  assumes "python_digits x ds k" "python_digits x es j"
  shows "es = ds \<and> j = k"
proof -
  note p = assms [unfolded python_digits_def]
  let ?v = "decimal_value ds k" and ?w = "decimal_value es j"
  have dec: "all_digits as \<Longrightarrow> 0 \<le> decimal_value as i \<and> decimal (length as) (decimal_value as i)" for as i
    using digits_value_less [of as] by (auto simp: decimal_value_def decimal_def)
  note ds = dec [of ds k] and es = dec [of es j]
  have len: "length es = length ds" using p ds es by (meson le_antisym)
  have eq: "?w = ?v"
  proof (rule ccontr)
    assume ne: "?w \<noteq> ?v"
    have one: "\<bar>?v - x\<bar> \<le> \<bar>?w - x\<bar>" "\<bar>?v - x\<bar> = \<bar>?w - x\<bar> \<Longrightarrow> \<exists>a::int. ?v = of_int (2 * a) * \<bar>?v - ?w\<bar>"
      using p(1) p(2) es len ne by auto
    have two: "\<bar>?w - x\<bar> \<le> \<bar>?v - x\<bar>" "\<bar>?w - x\<bar> = \<bar>?v - x\<bar> \<Longrightarrow> \<exists>b::int. ?w = of_int (2 * b) * \<bar>?w - ?v\<bar>"
      using p(1) p(2) ds len ne by auto
    from one(1) two(1) have tie: "\<bar>?v - x\<bar> = \<bar>?w - x\<bar>" by (rule order_antisym)
    from one(2) [OF tie] two(2) [OF tie [symmetric]]
    obtain a b :: int where ab: "?v = of_int (2 * a) * \<bar>?v - ?w\<bar>" "?w = of_int (2 * b) * \<bar>?w - ?v\<bar>" by blast
    let ?D = "\<bar>?v - ?w\<bar>"
    have D: "0 < ?D" using ne by simp
    have "?v - ?w = of_int (2 * a) * ?D - of_int (2 * b) * ?D" using ab by (metis abs_minus_commute)
    then have "?v - ?w = of_int (2 * (a - b)) * ?D" by (simp add: algebra_simps)
    moreover have "?v - ?w = ?D \<or> ?v - ?w = - ?D" by linarith
    ultimately have "of_int (2 * (a - b)) * ?D = of_int 1 * ?D \<or> of_int (2 * (a - b)) * ?D = of_int (- 1) * ?D" by auto
    then have "2 * (a - b) = 1 \<or> 2 * (a - b) = - 1" using D by (simp only: mult_cancel_right of_int_eq_iff) auto
    then show False by presburger
  qed
  have dk: "10 powi (k - 1) \<le> ?v" "?v < 10 powi k" using p decimal_value_decade [of ds k] by simp_all
  have dj: "10 powi (j - 1) \<le> ?w" "?w < 10 powi j" using p decimal_value_decade [of es j] by simp_all
  have "k - 1 < j" "j - 1 < k" using dk dj eq by (auto intro: powi_lessD)
  then have jk: "j = k" by simp
  with eq len have "digits_value es = digits_value ds" by (simp add: decimal_value_def)
  with p len digits_value_inj [of es ds] jk show ?thesis by simp
qed


section \<open>Where the code changes format\<close>

lemma ONE_E_MINUS_4: "reads_back ONE_E_MINUS_4 (1 / 10000)" "1 / 10000 \<le> ONE_E_MINUS_4"
proof -
  let ?v = "7378697629483821 / 2 ^ 66 :: real"
  have "?v = of_int 7378697629483821 * 2 ^ 1008 / 2 ^ min_exp f64" by (simp add: f64_def)
  moreover have "\<bar>7378697629483821 :: int\<bar> < 2 ^ prec f64" by simp
  moreover have "\<bar>?v\<bar> < 2 ^ max_exp f64" by (simp add: f64_def)
  ultimately have "representable f64 ?v" unfolding representable_def by blast
  then have "round_fl f64 (1 / 10000) = Fin ?v" by (rule round_fl_near) simp_all
  then show "reads_back ONE_E_MINUS_4 (1 / 10000)" "1 / 10000 \<le> ONE_E_MINUS_4"
    by (simp_all add: ONE_E_MINUS_4_def reads_back_def)
qed

lemma representable_1e16: "round_fl f64 (10 ^ 16) = Fin (10 ^ 16)"
  using round_fl_exact [OF representable_nat [of "10 ^ 16"]] by simp

text \<open>The exponent the code tests against its two limits is the one its digits have.\<close>

lemma format_choice:
  assumes "found x n k c" "written n k (settled x n k c) = (ds, k')"
  shows "ONE_E_MINUS_4 \<le> x \<and> x < 10 ^ 16 \<longleftrightarrow> - 4 < k' \<and> k' \<le> 16"
proof -
  note f = found_digits [OF assms(1)]
  have dec: "x < 10 powi k" using f(2) by (simp add: in_decade_def)
  have k': "k \<le> k'" using assms(2) by (auto simp: written_def split: if_splits)
  let ?y = "decimal_value ds k'"
  have py: "python_digits x ds k'" by (rule f(11) [OF assms(2)])
  then have rb: "reads_back x ?y" and lo: "10 powi (k' - 1) \<le> ?y"
    using decimal_value_decade(1) [of ds k'] by (simp_all add: python_digits_def)
  have mono: "b \<le> x" if "0 \<le> a" "10 powi e \<le> ?y" "a \<le> 10 powi e" "reads_back b a" for a b e
    using nearest_mono [of a ?y f64] that rb round_fl_nearest by (fastforce simp: reads_back_def)
  have powi: "(10::real) powi a \<le> 10 powi b" if "a \<le> b" for a b :: int
    using that by (intro power_int_increasing) auto
  show ?thesis
  proof
    assume in_range: "ONE_E_MINUS_4 \<le> x \<and> x < 10 ^ 16"
    have "(10::real) powi -4 = 1 / 10000" by (simp add: power_int_def power_divide)
    then have "(10::real) powi -4 < 10 powi k" using in_range ONE_E_MINUS_4(2) dec by linarith
    then have "- 4 < k'" using k' powi_lessD by fastforce
    moreover have "\<not> 16 < k'"
    proof
      assume "16 < k'"
      then have "(10::real) powi 16 \<le> ?y" using lo powi [of 16 "k' - 1"] by linarith
      then have "10 ^ 16 \<le> x" using mono [of "10 ^ 16" 16 "10 ^ 16"] representable_1e16
        by (simp add: reads_back_def power_int_def)
      with in_range show False by simp
    qed
    ultimately show "- 4 < k' \<and> k' \<le> 16" by simp
  next
    assume e: "- 4 < k' \<and> k' \<le> 16"
    have "x < 10 powi 16" using dec powi [of k 16] k' e by linarith
    moreover have "(10::real) powi -4 \<le> ?y" using lo powi [of "-4" "k' - 1"] e by linarith
    then have "ONE_E_MINUS_4 \<le> x"
      using mono [of "1 / 10000" "-4"] ONE_E_MINUS_4(1) by (simp add: power_int_def power_divide)
    ultimately show "ONE_E_MINUS_4 \<le> x \<and> x < 10 ^ 16" by (simp add: power_int_def)
  qed
qed


section \<open>The reprs are Python's\<close>

text \<open>CPython's \<^verbatim>\<open>repr\<close>: a point while the exponent is in \<open>(-4, 16]\<close>, an exponent of at least two digits outside.\<close>

definition python_text :: "string \<Rightarrow> int \<Rightarrow> string" where
  "python_text ds k =
     (if - 4 < k \<and> k \<le> 16 then positional ds k else mantissa_text ds @ ''e'' @ signed_exponent (k - 1))"

lemma py_repr_f64_found:
  assumes "found x n k c" "written n k (settled x n k c) = (ds, k')"
  shows "py_repr_f64 (Num neg x) = Some (sign_text neg @ python_text ds k')"
proof -
  have "x \<noteq> 0" using found_digits(1) [OF assms(1)] by (simp add: double_def)
  with format_choice [OF assms] repr_positional_text [OF assms(1) _ assms(2), of neg] repr_exponential_text [OF assms, of neg]
  show ?thesis by (cases "- 4 < k' \<and> k' \<le> 16") (auto simp: py_repr_f64_def python_text_def)
qed

lemma py_repr_f64_exists:
  assumes "double x"
  shows "\<exists>ds k. python_digits x ds k \<and> py_repr_f64 (Num neg x) = Some (sign_text neg @ python_text ds k)"
proof -
  obtain n c where f: "found x n (dec_exp x) c" using found_exists [OF assms] by blast
  obtain ds k where w: "written n (dec_exp x) (settled x n (dec_exp x) c) = (ds, k)" by fastforce
  from py_repr_f64_found [OF f w] found_digits(11) [OF f w] show ?thesis by blast
qed

lemma py_repr_f64_zero: "py_repr_f64 (Num neg 0) = Some (sign_text neg @ ''0.0'')"
proof -
  have "repr_positional neg 0 = Some (sign_text neg @ (if reads_back 0 0 then fixed_point 1 0 else ''0.0''))"
    using repr_positional_step [of neg 0 "''0''" 1] 
    by (simp add: debug_f64_def positional_def zeros_def is_ascii_digit_def round_even_def)
  moreover have "fixed_point 1 0 = ''0.0''" by code_simp
  ultimately show ?thesis by (simp add: py_repr_f64_def)
qed

text \<open>
  C30. The repr of a finite double other than zero is the one Python's own \<^verbatim>\<open>float\<close> has: its digits are
  the shortest that read back as the value, of those the nearest to it, an even one in a tie -- there
  is exactly one such decimal -- laid out with a point or with an exponent where CPython changes from the one to
  the other.  Zero is \<open>0.0\<close> or \<open>-0.0\<close>.
\<close>

theorem float_repr_is_pythons:
  assumes "is_f64 (Num neg x)"
  shows "if x = 0 then py_repr_f64 (Num neg x) = Some (sign_text neg @ ''0.0'')
    else (\<exists>ds k. python_digits x ds k \<and>
      (\<forall>es j. python_digits x es j \<longleftrightarrow> es = ds \<and> j = k) \<and>
      py_repr_f64 (Num neg x) = Some (sign_text neg @ python_text ds k))"
proof (cases "x = 0")
  case True
  with py_repr_f64_zero show ?thesis by simp
next
  case False
  with assms have "double x" by (auto simp: is_f64_def double_def)
  from py_repr_f64_exists [OF this] obtain ds k where
    "python_digits x ds k" "py_repr_f64 (Num neg x) = Some (sign_text neg @ python_text ds k)" by blast
  with False python_digits_unique show ?thesis by simp blast
qed

lemma representable_5: "representable f64 5"
  using representable_nat [of 5] by simp

theorem float_repr_is_pythons_witness:
  "\<exists>ds k. python_digits 5 ds k \<and> (\<forall>es j. python_digits 5 es j \<longleftrightarrow> es = ds \<and> j = k) \<and>
    py_repr_f64 (Num True 5) = Some (''-'' @ python_text ds k)"
  using float_repr_is_pythons [of True 5] representable_5 by (simp add: is_f64_def sign_text_def)

lemma python_text_parse:
  assumes "python_digits x ds k"
  shows "parse_fl f64 (sign_text neg @ python_text ds k) = Some (to_fl (Num neg x))"
proof -
  note p = assms [unfolded python_digits_def decimal_value_def]
  show ?thesis
  proof (cases "- 4 < k \<and> k \<le> 16")
    case True
    note parse = parse_positional [of ds k]
    from True parse_back [OF parse(2,1), of neg x] p show ?thesis by (simp add: python_text_def)
  next
    case False
    note parse = parse_exponential [OF _ _ parse_show_int(2), of ds k]
    from False have "python_text ds k = mantissa_text ds @ ''e'' @ signed_exponent (k - 1)"
      by (auto simp: python_text_def)
    with parse_back [OF parse(2,1), of neg x] p show ?thesis by simp
  qed
qed

lemma python_text_head:
  assumes "all_digits ds" "ds \<noteq> []"
  shows "starts_digit (python_text ds k)"
  using parse_positional(2) [OF assms] parse_exponential(2) [OF assms parse_show_int(2)]
  by (simp add: python_text_def)

lemma head_sign: "starts_digit t \<Longrightarrow> (hd (sign_text neg @ t) = CHR ''-'') = neg"
  by (cases t) (auto simp: starts_digit_def sign_text_def dest!: digit_cases)

lemma py_repr_f64_reads_back:
  assumes "is_f64 v"
  shows "\<exists>s. py_repr_f64 v = Some s \<and> parse_fl f64 s = Some (to_fl v) \<and>
    (\<forall>neg x. v = Num neg x \<longrightarrow> (hd s = CHR ''-'') = neg)"
proof (cases v)
  case QNan
  moreover have "parse_fl f64 ''nan'' = Some NaN" by code_simp
  ultimately show ?thesis by (simp add: py_repr_f64_def to_fl_def)
next
  case (Inf neg)
  moreover have "parse_fl f64 ''inf'' = Some (inf_sign False)" "parse_fl f64 ''-inf'' = Some (inf_sign True)"
    by code_simp+
  ultimately show ?thesis by (cases neg) (simp_all add: py_repr_f64_def to_fl_def)
next
  case (Num neg x)
  show ?thesis
  proof (cases "x = 0")
    case True
    have "starts_digit ''0.0''" by (simp add: starts_digit_def is_ascii_digit_def)
    moreover have "parse_decimal ''0.0'' = Some 0" by code_simp
    moreover have "reads_back 0 0" by (simp add: reads_back_def round_fl_exact representable_nat [of 0, simplified])
    ultimately show ?thesis
      using Num True parse_back [of "''0.0''" 0 neg 0] head_sign [of "''0.0''" neg] py_repr_f64_zero by simp
  next
    case False
    with assms Num have "double x" by (auto simp: is_f64_def double_def)
    from py_repr_f64_exists [OF this] obtain ds k where
      dk: "python_digits x ds k" "py_repr_f64 (Num neg x) = Some (sign_text neg @ python_text ds k)" by blast
    then have "starts_digit (python_text ds k)" by (intro python_text_head) (simp_all add: python_digits_def)
    with dk Num python_text_parse [OF dk(1)] head_sign show ?thesis by simp
  qed
qed

text \<open>What a repr says of a value: the text of a number, read as one, is the number, with its sign.\<close>

definition repr_says :: "f64_val option \<Rightarrow> string \<Rightarrow> bool" where
  "repr_says v s \<longleftrightarrow>
     (case v of None \<Rightarrow> s = ''None''
      | Some x \<Rightarrow> parse_fl f64 s = Some (to_fl x) \<and> (\<forall>neg r. x = Num neg r \<longrightarrow> (hd s = CHR ''-'') = neg))"

lemma py_repr_option_says:
  assumes "pred_option is_f64 v"
  shows "\<exists>s. py_repr_option py_repr_f64 v = Some s \<and> repr_says v s"
  using assms py_repr_f64_reads_back by (cases v) (auto simp: py_repr_option_def repr_says_def)

text \<open>
  C31. Every \<^verbatim>\<open>Timeout\<close> has a repr -- none of the \<^verbatim>\<open>expect\<close>s in it fails, whatever the four
  doubles -- and each number in it reads back as the value it was written for, infinities and NaN too; the
  sign is kept, on a zero as well.
\<close>

theorem timeout_repr_round_trip:
  assumes "pred_option is_f64 connect" "pred_option is_f64 read" "pred_option is_f64 write" "pred_option is_f64 pool"
  shows "\<exists>c r w p.
    py_timeout_repr connect read write pool =
      Some (''Timeout(connect='' @ c @ '', read='' @ r @ '', write='' @ w @ '', pool='' @ p @ '')'') \<and>
    repr_says connect c \<and> repr_says read r \<and> repr_says write w \<and> repr_says pool p"
proof -
  from py_repr_option_says [OF assms(1)] py_repr_option_says [OF assms(2)]
    py_repr_option_says [OF assms(3)] py_repr_option_says [OF assms(4)]
  obtain c r w p where
    "py_repr_option py_repr_f64 connect = Some c" "repr_says connect c"
    "py_repr_option py_repr_f64 read = Some r" "repr_says read r"
    "py_repr_option py_repr_f64 write = Some w" "repr_says write w"
    "py_repr_option py_repr_f64 pool = Some p" "repr_says pool p" by blast
  then show ?thesis by (auto simp: py_timeout_repr_def)
qed

theorem timeout_repr_round_trip_witness:
  "\<exists>c r w p.
    py_timeout_repr (Some (Num True 5)) None (Some QNan) (Some (Inf True)) =
      Some (''Timeout(connect='' @ c @ '', read='' @ r @ '', write='' @ w @ '', pool='' @ p @ '')'') \<and>
    repr_says (Some (Num True 5)) c \<and> repr_says None r \<and> repr_says (Some QNan) w \<and> repr_says (Some (Inf True)) p"
  using timeout_repr_round_trip [of "Some (Num True 5)" None "Some QNan" "Some (Inf True)"] representable_5
  by (simp add: is_f64_def)

end
