(* ===== verification/Rqx_Views.thy ===== *)
theory Rqx_Views
  imports Rqx_Stream
begin

text \<open>
  The attributes of the three response classes (\<^verbatim>\<open>rqx/src/response.rs\<close>, \<^verbatim>\<open>rqx/src/stream.rs\<close>)
  and \<^verbatim>\<open>raise_for_status\<close> on each of them.  \<open>response_meta\<close> collects what the getters of the
  retries, the version, the cookies and the encoding return, \<open>status_classes\<close> the six predicates.  The file
  shows that the classes cannot be told apart by them, whatever has been done to their bodies.
\<close>

record response_meta =
  rm_num_retries :: u32
  rm_retry_history :: history
  rm_http_version :: string
  rm_cookies :: cookies
  rm_encoding_override :: "string option"
  rm_encoding :: string

record status_classes =
  sc_informational :: bool
  sc_success :: bool
  sc_redirect :: bool
  sc_client_error :: bool
  sc_server_error :: bool
  sc_error :: bool


section \<open>The buffered response\<close>

definition pr_status_code :: "('h, 'u) py_response \<Rightarrow> u16" where
  "pr_status_code r = status_code (b_parts (pr_inner r))"

definition pr_elapsed :: "('h, 'u) py_response \<Rightarrow> duration" where
  "pr_elapsed r = elapsed (b_parts (pr_inner r))"

definition pr_meta ::
  "('h, 'v) header_map \<Rightarrow> 'e encodings \<Rightarrow> ('h, 'u) py_response \<Rightarrow> response_meta" where
  "pr_meta hm en r =
     (let ps = b_parts (pr_inner r) in
      \<lparr>rm_num_retries = num_retries ps, rm_retry_history = retry_history ps,
        rm_http_version = http_version ps, rm_cookies = cookies ps,
        rm_encoding_override = encoding_override ps, rm_encoding = encoding hm en ps\<rparr>)"

definition pr_classes :: "('h, 'v) header_map \<Rightarrow> ('h, 'u) py_response \<Rightarrow> status_classes" where
  "pr_classes hm r =
     (let ps = b_parts (pr_inner r) in
      \<lparr>sc_informational = is_informational ps, sc_success = is_success ps, sc_redirect = is_redirect hm ps,
        sc_client_error = is_client_error ps, sc_server_error = is_server_error ps, sc_error = is_error ps\<rparr>)"


section \<open>The sync stream response\<close>

definition sr_status_code :: "('h, 'u) stream_response \<Rightarrow> u16" where
  "sr_status_code r = status_code (sr_parts r)"

definition sr_elapsed :: "('h, 'u) stream_response \<Rightarrow> duration" where
  "sr_elapsed r = elapsed (sr_parts r)"

definition sr_raise_for_status ::
  "('h, 'v) header_map \<Rightarrow> (u16 \<Rightarrow> string option) \<Rightarrow> ('u \<Rightarrow> string) \<Rightarrow> ('h, 'u) stream_response \<Rightarrow>
     (py_err \<times> ('h, 'u) stream_response) + ('h, 'u) stream_response" where
  "sr_raise_for_status hm reason show_url r =
     (case status_error hm reason show_url (sr_parts r) of
        None \<Rightarrow> Inr r
      | Some e \<Rightarrow> Inl (into_py_err (Core e), r))"

definition sr_meta ::
  "('h, 'v) header_map \<Rightarrow> 'e encodings \<Rightarrow> ('h, 'u) stream_response \<Rightarrow> response_meta" where
  "sr_meta hm en r =
     (let ps = sr_parts r in
      \<lparr>rm_num_retries = num_retries ps, rm_retry_history = retry_history ps,
        rm_http_version = http_version ps, rm_cookies = cookies ps,
        rm_encoding_override = encoding_override ps, rm_encoding = encoding hm en ps\<rparr>)"

definition sr_classes :: "('h, 'v) header_map \<Rightarrow> ('h, 'u) stream_response \<Rightarrow> status_classes" where
  "sr_classes hm r =
     (let ps = sr_parts r in
      \<lparr>sc_informational = is_informational ps, sc_success = is_success ps, sc_redirect = is_redirect hm ps,
        sc_client_error = is_client_error ps, sc_server_error = is_server_error ps, sc_error = is_error ps\<rparr>)"


section \<open>The async stream response\<close>

definition as_status_code :: "('h, 'u) async_response \<Rightarrow> u16" where
  "as_status_code r = status_code (as_parts r)"

definition as_elapsed :: "('h, 'u) async_response \<Rightarrow> duration" where
  "as_elapsed r = elapsed (as_parts r)"

definition as_raise_for_status ::
  "('h, 'v) header_map \<Rightarrow> (u16 \<Rightarrow> string option) \<Rightarrow> ('u \<Rightarrow> string) \<Rightarrow> ('h, 'u) async_response \<Rightarrow>
     (py_err \<times> ('h, 'u) async_response) + ('h, 'u) async_response" where
  "as_raise_for_status hm reason show_url r =
     (case status_error hm reason show_url (as_parts r) of
        None \<Rightarrow> Inr r
      | Some e \<Rightarrow> Inl (into_py_err (Core e), r))"

definition as_meta ::
  "('h, 'v) header_map \<Rightarrow> 'e encodings \<Rightarrow> ('h, 'u) async_response \<Rightarrow> response_meta" where
  "as_meta hm en r =
     (let ps = as_parts r in
      \<lparr>rm_num_retries = num_retries ps, rm_retry_history = retry_history ps,
        rm_http_version = http_version ps, rm_cookies = cookies ps,
        rm_encoding_override = encoding_override ps, rm_encoding = encoding hm en ps\<rparr>)"

definition as_classes :: "('h, 'v) header_map \<Rightarrow> ('h, 'u) async_response \<Rightarrow> status_classes" where
  "as_classes hm r =
     (let ps = as_parts r in
      \<lparr>sc_informational = is_informational ps, sc_success = is_success ps, sc_redirect = is_redirect hm ps,
        sc_client_error = is_client_error ps, sc_server_error = is_server_error ps, sc_error = is_error ps\<rparr>)"


section \<open>The classes agree\<close>

text \<open>
  Everything a program can do to a response but edit its headers object: calls for the body, the
  getters that fill caches, and the one setter.
\<close>

datatype pr_event = PrContent | PrHeaders | PrUrl | PrEncoding string

fun pr_do :: "pr_event \<Rightarrow> ('h, 'u) py_response \<Rightarrow> ('h, 'u) py_response" where
  "pr_do PrContent r = fst (pr_get_content r)"
| "pr_do PrHeaders r = fst (pr_get_headers r)"
| "pr_do PrUrl r = fst (pr_get_url r)"
| "pr_do (PrEncoding v) r = pr_set_encoding v r"

datatype sr_event = SrCall call | SrHeaders | SrUrl | SrEncoding string

fun sr_do ::
  "('h, 'v) header_map \<Rightarrow> 'e encodings \<Rightarrow> ('e \<Rightarrow> 'd decoder) \<Rightarrow> sr_event \<Rightarrow>
     ('h, 'u) stream_response \<times> streams \<Rightarrow> ('h, 'u) stream_response \<times> streams" where
  "sr_do hm en dec (SrCall c) (r, ls) = (case sr_call hm en dec c r ls of (r', ls', _) \<Rightarrow> (r', ls'))"
| "sr_do hm en dec SrHeaders (r, ls) = (fst (sr_get_headers r), ls)"
| "sr_do hm en dec SrUrl (r, ls) = (fst (sr_get_url r), ls)"
| "sr_do hm en dec (SrEncoding v) (r, ls) = (sr_set_encoding v r, ls)"

text \<open>What stays of the parts a response began with, and what its caches can hold.\<close>

definition recoded :: "('h, 'u) response_parts \<Rightarrow> ('h, 'u) response_parts \<Rightarrow> bool" where
  "recoded p ps \<longleftrightarrow> (\<exists>v. ps = p\<lparr>encoding_override := v\<rparr>)"

lemma recoded_refl [simp]: "recoded p p"
  unfolding recoded_def by (intro exI [of _ "encoding_override p"]) simp

lemma recoded_set [simp]: "recoded p ps \<Longrightarrow> recoded p (set_encoding v ps)"
  by (auto simp: recoded_def set_encoding_def)

lemma recoded_fields: "recoded p ps \<Longrightarrow> headers ps = headers p \<and> url ps = url p"
  by (auto simp: recoded_def)

lemma recoded_eq: "recoded p a \<Longrightarrow> recoded p b \<Longrightarrow> encoding_override a = encoding_override b \<Longrightarrow> a = b"
  by (auto simp: recoded_def)

definition parts_kept :: "('h, 'u) response_parts \<Rightarrow> ('h, 'u) response_parts \<Rightarrow> 'h option \<Rightarrow> 'u option \<Rightarrow> bool" where
  "parts_kept p ps h u \<longleftrightarrow>
     recoded p ps \<and> (h = None \<or> h = Some (headers p)) \<and> (u = None \<or> u = Some (url p))"

lemma parts_kept_fields:
  assumes "parts_kept p ps h u"
  shows "headers ps = headers p" "url ps = url p"
  using assms recoded_fields by (auto simp: parts_kept_def)

lemma pr_kept:
  "parts_kept p (b_parts (pr_inner r)) (pr_headers r) (pr_url r) \<Longrightarrow>
     parts_kept p (b_parts (pr_inner (fold pr_do es r))) (pr_headers (fold pr_do es r)) (pr_url (fold pr_do es r))"
proof (induction es arbitrary: r)
  case (Cons e es)
  have "parts_kept p (b_parts (pr_inner (pr_do e r))) (pr_headers (pr_do e r)) (pr_url (pr_do e r))"
    using Cons.prems parts_kept_fields [OF Cons.prems]
    by (cases e) (auto simp: pr_get_content_def pr_get_headers_def pr_get_url_def pr_set_encoding_def
        get_or_init_def parts_kept_def split: option.splits)
  with Cons.IH show ?case by simp
qed simp

lemma sr_call_kept:
  "sr_call hm en dec c r ls = (r', ls', q) \<Longrightarrow>
     sr_parts r' = sr_parts r \<and> sr_headers r' = sr_headers r \<and> sr_url r' = sr_url r"
  by (cases c) (auto simp: sr_iter_bytes_def sr_iter_text_def sr_iter_lines_def open_iter_def sr_start_stream_def
      sr_read_def sr_get_content_def sr_close_def get_or_init_def
      split: prod.splits option.splits sum.splits body.splits)

lemma sr_kept:
  "parts_kept p (sr_parts (fst z)) (sr_headers (fst z)) (sr_url (fst z)) \<Longrightarrow> z' = fold (sr_do hm en dec) es z \<Longrightarrow>
     parts_kept p (sr_parts (fst z')) (sr_headers (fst z')) (sr_url (fst z'))"
proof (induction es arbitrary: z)
  case (Cons e es)
  let ?z = "sr_do hm en dec e z"
  have "parts_kept p (sr_parts (fst ?z)) (sr_headers (fst ?z)) (sr_url (fst ?z))"
    using Cons.prems(1) parts_kept_fields [OF Cons.prems(1)]
    by (cases e; cases z) (auto simp: sr_get_headers_def sr_get_url_def sr_set_encoding_def
        get_or_init_def parts_kept_def split: option.splits prod.splits dest!: sr_call_kept)
  with Cons.IH Cons.prems(2) show ?case by simp
qed simp

text \<open>Of the steps of an async response only three touch its attributes.\<close>

lemma as_step_attributes:
  "as_step r r' \<Longrightarrow>
     as_parts r' = as_parts r \<and> as_headers r' = as_headers r \<and> as_url r' = as_url r \<or>
     (\<exists>v. r' = as_set_encoding v r) \<or> r' = fst (as_get_headers r) \<or> r' = fst (as_get_url r)"
proof (induction rule: as_step.induct)
  case (step_stream r r' q)
  then show ?case by (auto simp: as_start_stream_def split: option.splits body.splits)
next
  case (step_take r r' q)
  then show ?case by (auto simp: aread_take_def split: option.splits body.splits)
next
  case (step_store k r r' q)
  then show ?case by (auto simp: aread_store_def Let_def split: sum.splits)
next
  case (step_close r)
  show ?case by (auto simp: aclose_def take_body_def split: option.splits)
next
  case (step_content r r' q)
  then show ?case by (auto simp: as_get_content_def split: option.splits body.splits prod.splits)
qed auto

lemma as_kept_step:
  assumes "as_step r r'" "parts_kept p (as_parts r) (as_headers r) (as_url r)"
  shows "parts_kept p (as_parts r') (as_headers r') (as_url r')"
  using as_step_attributes [OF assms(1)] assms(2) parts_kept_fields [OF assms(2)]
  by (elim disjE exE) (auto simp: as_set_encoding_def as_get_headers_def as_get_url_def get_or_init_def
      parts_kept_def split: option.splits)

lemma as_kept: "as_reach p r \<Longrightarrow> parts_kept (parts p) (as_parts r) (as_headers r) (as_url r)"
proof (induction rule: as_reach.induct)
  case as_reach_init
  show ?case by (simp add: as_defs parts_kept_def)
next
  case (as_reach_step r r')
  then show ?case by (blast intro: as_kept_step)
qed


text \<open>Everything a response says of itself; for \<^verbatim>\<open>raise_for_status\<close>, the exception it raises.\<close>

record ('h, 'u) view =
  v_status_code :: u16
  v_elapsed :: duration
  v_meta :: response_meta
  v_classes :: status_classes
  v_raises :: "py_err + unit"
  v_headers :: 'h
  v_url :: 'u

definition raised :: "(py_err \<times> 'r) + 'r \<Rightarrow> py_err + unit" where
  "raised = map_sum fst (\<lambda>_. ())"

definition pr_view where
  "pr_view hm en reason show_url r =
     \<lparr>v_status_code = pr_status_code r, v_elapsed = pr_elapsed r, v_meta = pr_meta hm en r,
       v_classes = pr_classes hm r,
       v_raises = raised (raise_for_status hm reason show_url (\<lambda>r. b_parts (pr_inner r)) r),
       v_headers = snd (pr_get_headers r), v_url = snd (pr_get_url r)\<rparr>"

definition sr_view where
  "sr_view hm en reason show_url r =
     \<lparr>v_status_code = sr_status_code r, v_elapsed = sr_elapsed r, v_meta = sr_meta hm en r,
       v_classes = sr_classes hm r, v_raises = raised (sr_raise_for_status hm reason show_url r),
       v_headers = snd (sr_get_headers r), v_url = snd (sr_get_url r)\<rparr>"

definition as_view where
  "as_view hm en reason show_url r =
     \<lparr>v_status_code = as_status_code r, v_elapsed = as_elapsed r, v_meta = as_meta hm en r,
       v_classes = as_classes hm r, v_raises = raised (as_raise_for_status hm reason show_url r),
       v_headers = snd (as_get_headers r), v_url = snd (as_get_url r)\<rparr>"

text \<open>
  The three response classes cannot be told apart by their attributes: whatever has been called
  on a buffered, a stream and an async stream response of one reply -- reads, iterations, closes, getters that
  cache, in any order, for the async one under any interleaving of its coroutines -- they report the same status,
  time, retries, version, cookies, headers and URL, the same classification, and raise the same exception from
  \<^verbatim>\<open>raise_for_status\<close> or none; and the same encoding, once they were last set to the same one.
\<close>

theorem response_classes_agree:
  assumes "pending_read p = Inr b" "q = fold pr_do es (py_response_from b)"
    "(s, ls') = fold (sr_do hm en dec) fs (sr_from_pending p, ls)" "as_reach p a"
    "encoding_override (sr_parts s) = encoding_override (b_parts (pr_inner q))"
    "encoding_override (as_parts a) = encoding_override (b_parts (pr_inner q))"
  shows "sr_view hm' en' reason show_url s = pr_view hm' en' reason show_url q \<and>
    as_view hm' en' reason show_url a = pr_view hm' en' reason show_url q"
proof -
  have b: "b_parts b = parts p" using assms(1) by (auto simp: pending_read_def split: sum.splits)
  have kq: "parts_kept (parts p) (b_parts (pr_inner q)) (pr_headers q) (pr_url q)"
    unfolding assms(2) by (rule pr_kept) (simp add: py_response_from_def b parts_kept_def)
  have ks: "parts_kept (parts p) (sr_parts s) (sr_headers s) (sr_url s)"
    using sr_kept [OF _ assms(3), of "parts p"] by (simp add: sr_from_pending_def into_parts_def parts_kept_def)
  note ka = as_kept [OF assms(4)]
  have "sr_parts s = b_parts (pr_inner q)" "as_parts a = b_parts (pr_inner q)"
    using kq ks ka recoded_eq assms(5,6) unfolding parts_kept_def by blast+
  moreover have "snd (sr_get_headers s) = headers (parts p)" "snd (as_get_headers a) = headers (parts p)"
      "snd (pr_get_headers q) = headers (parts p)" "snd (sr_get_url s) = url (parts p)"
      "snd (as_get_url a) = url (parts p)" "snd (pr_get_url q) = url (parts p)"
    using kq ks ka parts_kept_fields [OF kq] parts_kept_fields [OF ks] parts_kept_fields [OF ka]
    by (auto simp: sr_get_headers_def as_get_headers_def pr_get_headers_def sr_get_url_def as_get_url_def
        pr_get_url_def get_or_init_def parts_kept_def split: option.splits)
  ultimately show ?thesis
    by (simp add: sr_view_def as_view_def pr_view_def sr_status_code_def as_status_code_def pr_status_code_def
        sr_elapsed_def as_elapsed_def pr_elapsed_def sr_meta_def as_meta_def pr_meta_def sr_classes_def
        as_classes_def pr_classes_def sr_raise_for_status_def as_raise_for_status_def raise_for_status_def
        raised_def split: option.split)
qed

theorem response_classes_agree_witness:
  "\<exists>(p :: (unit, unit) pending) b. pending_read p = Inr b \<and>
     (\<forall>hm en dec reason show_url.
       sr_view hm en reason show_url (fst (sr_do hm en dec (SrCall Close) (sr_from_pending p, []))) =
         pr_view hm en reason show_url (py_response_from b) \<and>
       as_view hm en reason show_url (aclose (as_from_pending p)) =
         pr_view hm en reason show_url (py_response_from b))"
proof -
  define p :: "(unit, unit) pending" where
    "p = \<lparr>parts = \<lparr>status_code = 404, headers = (), url = (), elapsed = 5, num_retries = 0,
       retry_history = [], http_version = [], cookies = Map.empty, encoding_override = None\<rparr>,
      response = [Data [1]]\<rparr>"
  define b where "b = \<lparr>b_parts = parts p, b_body = [1]\<rparr>"
  have p: "pending_read p = Inr b" by (simp add: pending_read_def p_def b_def)
  let ?a = "aclose (as_from_pending p)" and ?s = "\<lambda>hm en dec. sr_do hm en dec (SrCall Close) (sr_from_pending p, [])"
  have "as_reach p ?a" by (rule as_reach_step [OF as_reach_init step_close])
  moreover have "(fst (?s hm en dec), snd (?s hm en dec)) = fold (sr_do hm en dec) [SrCall Close] (sr_from_pending p, [])"
    for hm en dec by simp
  moreover have "py_response_from b = fold pr_do [] (py_response_from b)" by simp
  moreover have "encoding_override (sr_parts (fst (?s hm en dec))) =
      encoding_override (b_parts (pr_inner (py_response_from b)))" for hm en dec
    by (simp add: b_def p_def py_response_from_def sr_from_pending_def sr_close_def into_parts_def)
  moreover have "encoding_override (as_parts ?a) = encoding_override (b_parts (pr_inner (py_response_from b)))"
    by (simp add: b_def p_def py_response_from_def as_defs)
  ultimately have "sr_view hm en reason show_url (fst (?s hm en dec)) = pr_view hm en reason show_url (py_response_from b) \<and>
      as_view hm en reason show_url ?a = pr_view hm en reason show_url (py_response_from b)" for hm en dec reason show_url
    using response_classes_agree [OF p] by blast
  with p show ?thesis by blast
qed

end
