(* ===== verification/Rqx_Module.thy ===== *)
theory Rqx_Module
  imports Rqx_Error "HOL-Library.AList"
begin

text \<open>
  \<^verbatim>\<open>rqx/src/lib.rs\<close> and \<^verbatim>\<open>StdlibBackedExceptions\<close> of \<^verbatim>\<open>rqx/src/exceptions.rs\<close>: what
  loading the extension module puts into it, with the exception classes as the objects that \<^verbatim>\<open>type()\<close>
  builds from their bases.  The file shows that every exception the code raises is a class of the module, under
  its name, with the ancestors \<open>py_bases\<close> gives it.
\<close>

section \<open>Python classes\<close>

text \<open>
  A class is its name and its bases; \<open>mro\<close> is the linearisation \<^verbatim>\<open>type()\<close> computes, or \<open>None\<close> where
  it raises \<^verbatim>\<open>TypeError\<close> because there is none.
\<close>

datatype cls = Cls string "cls list"

lemma find_in: "find P xs = Some x \<Longrightarrow> x \<in> set xs \<and> P x"
  by (auto simp: find_Some_iff)

lemma sum_length_less:
  fixes f g :: "'a \<Rightarrow> nat"
  assumes "l \<in> set xs" "f l < g l" "\<And>x. f x \<le> g x"
  shows "sum_list (map f xs) < sum_list (map g xs)"
proof -
  obtain ys zs where "xs = ys @ l # zs" using assms(1) by (auto dest: split_list)
  moreover have "sum_list (map f as) \<le> sum_list (map g as)" for as using assms(3) by (intro sum_list_mono)
  ultimately show ?thesis using assms(2) by (simp add: add_mono_thms_linordered_field)
qed

function c3_merge :: "'a list list \<Rightarrow> 'a list option" where
  "c3_merge ls =
     (let ne = filter (\<lambda>l. l \<noteq> []) ls in
      if ne = [] then Some []
      else
        (case find (\<lambda>h. \<forall>l \<in> set ne. h \<notin> set (tl l)) (map hd ne) of
           None \<Rightarrow> None
         | Some h \<Rightarrow> map_option (Cons h) (c3_merge (map (\<lambda>l. if hd l = h then tl l else l) ne))))"
  by pat_completeness auto

termination
proof (relation "measure (\<lambda>ls. sum_list (map length ls))")
  fix ls ne :: "'a list list" and h
  assume ne: "ne = filter (\<lambda>l. l \<noteq> []) ls" "find (\<lambda>h. \<forall>l \<in> set ne. h \<notin> set (tl l)) (map hd ne) = Some h"
  then obtain l where "l \<in> set ne" "hd l = h" using find_in by fastforce
  moreover from this ne have "l \<noteq> []" by simp
  ultimately have "sum_list (map (length \<circ> (\<lambda>l. if hd l = h then tl l else l)) ne) < sum_list (map length ne)"
    by (intro sum_length_less [of l]) auto
  moreover have "sum_list (map length ne) = sum_list (map length ls)" unfolding ne(1) by (induction ls) auto
  ultimately show "(map (\<lambda>l. if hd l = h then tl l else l) ne, ls) \<in> measure (\<lambda>ls. sum_list (map length ls))"
    by (simp add: comp_def)
qed simp

declare c3_merge.simps [simp del]

lemma c3_merge_set: "c3_merge ls = Some r \<Longrightarrow> set r = \<Union> (set ` set ls)"
proof (induction ls arbitrary: r rule: c3_merge.induct)
  case (1 ls)
  define ne where "ne = filter (\<lambda>l. l \<noteq> []) ls"
  have ne_set: "\<Union> (set ` set ls) = \<Union> (set ` set ne)" by (auto simp: ne_def)
  show ?case
  proof (cases "ne = []")
    case True
    then show ?thesis using "1.prems" ne_set by (subst (asm) c3_merge.simps) (simp add: ne_def Let_def)
  next
    case False
    then obtain h r' where h: "find (\<lambda>h. \<forall>l \<in> set ne. h \<notin> set (tl l)) (map hd ne) = Some h"
      and r': "c3_merge (map (\<lambda>l. if hd l = h then tl l else l) ne) = Some r'" "r = h # r'"
      using "1.prems" by (subst (asm) c3_merge.simps) (auto simp: ne_def Let_def split: option.splits)
    have "set r' = \<Union> (set ` set (map (\<lambda>l. if hd l = h then tl l else l) ne))"
      using "1.IH" [OF ne_def _ h r'(1)] False by simp
    moreover have "set l = insert (hd l) (set (tl l))" if "l \<in> set ne" for l
    proof -
      from that have "l \<noteq> []" by (simp add: ne_def)
      then show ?thesis by (metis list.collapse list.simps(15))
    qed
    moreover obtain l0 where "l0 \<in> set ne" "hd l0 = h" using find_in [OF h] by auto
    ultimately show ?thesis using r'(2) ne_set by fastforce
  qed
qed

fun mro :: "cls \<Rightarrow> cls list option" where
  "mro (Cls n bs) =
     (let ms = map mro bs in
      if None \<in> set ms then None
      else map_option (Cons (Cls n bs)) (c3_merge (map the ms @ [bs])))"

lemma mro_set: "mro (Cls n bs) = Some r \<Longrightarrow> set r = insert (Cls n bs) (\<Union>b \<in> set bs. set (the (mro b)) \<union> {b})"
  by (auto simp: Let_def dest!: c3_merge_set split: if_splits)

lemma mro_bases: "mro (Cls n bs) = Some r \<Longrightarrow> b \<in> set bs \<Longrightarrow> mro b \<noteq> None"
proof -
  assume "mro (Cls n bs) = Some r" and b: "b \<in> set bs"
  then have "None \<notin> set (map mro bs)" by (metis mro.simps option.distinct(1))
  with b show "mro b \<noteq> None" by force
qed


section \<open>The exception classes\<close>

text \<open>\<^verbatim>\<open>create_exception!\<close>, in the order of the file: the class and its one base.\<close>

definition static_exceptions :: "(string \<times> string) list" where
  "static_exceptions =
    [(''RqxError'', ''Exception''), (''HTTPError'', ''RqxError''),
     (''RequestError'', ''HTTPError''), (''HTTPStatusError'', ''HTTPError''),
     (''MaxRetriesExceeded'', ''HTTPError''), (''TransportError'', ''RequestError''),
     (''DecodingError'', ''RequestError''), (''TooManyRedirects'', ''RequestError''),
     (''TimeoutException'', ''TransportError''), (''NetworkError'', ''TransportError''),
     (''ProtocolError'', ''TransportError''), (''ProxyError'', ''TransportError''),
     (''UnsupportedProtocol'', ''TransportError''), (''RemoteProtocolError'', ''ProtocolError''),
     (''ConnectTimeout'', ''TimeoutException''), (''ReadTimeout'', ''TimeoutException''),
     (''WriteTimeout'', ''TimeoutException''), (''PoolTimeout'', ''TimeoutException''),
     (''ConnectError'', ''NetworkError''), (''ReadError'', ''NetworkError''),
     (''WriteError'', ''NetworkError'')]"

fun create_exceptions :: "(string \<times> string) list \<Rightarrow> (string \<times> cls) list \<Rightarrow> (string \<times> cls) list" where
  "create_exceptions [] types = types"
| "create_exceptions ((name, base) # es) types =
     create_exceptions es
       (case map_of types base of None \<Rightarrow> types | Some b \<Rightarrow> (name, Cls name [b]) # types)"

definition builtin_types :: "(string \<times> cls) list" where
  "builtin_types =
    [(''Exception'', Cls ''Exception'' []), (''ValueError'', Cls ''ValueError'' [Cls ''Exception'' []]),
     (''RuntimeError'', Cls ''RuntimeError'' [Cls ''Exception'' []])]"

text \<open>\<^verbatim>\<open>py.get_type::<T>()\<close>.\<close>

definition get_type :: "string \<Rightarrow> cls option" where
  "get_type = map_of (create_exceptions static_exceptions builtin_types)"

datatype py_object = OClass cls | OType string | OFunction string | OText string

type_synonym attrs = "(string \<times> py_object) list"

definition define_class :: "attrs \<Rightarrow> string \<Rightarrow> cls list \<Rightarrow> py_err + attrs \<times> cls" where
  "define_class m name bases =
     (let c = Cls name bases in
      case mro c of
        None \<Rightarrow> Inl (new_err PyTypeError ''Cannot create a consistent method resolution order (MRO)'')
      | Some _ \<Rightarrow> Inr (AList.update name (OClass c) m, c))"

fun define_each :: "attrs \<Rightarrow> string list \<Rightarrow> cls list \<Rightarrow> py_err + attrs" where
  "define_each m [] bases = Inr m"
| "define_each m (name # names) bases =
     (case define_class m name bases of Inl e \<Rightarrow> Inl e | Inr (m', _) \<Rightarrow> define_each m' names bases)"

text \<open>\<open>json\<close> is what importing \<^verbatim>\<open>json.JSONDecodeError\<close> gives.\<close>

definition register_exceptions :: "py_err + cls \<Rightarrow> attrs \<Rightarrow> py_err + attrs" where
  "register_exceptions json m =
     (let rqx_error = the (get_type ''RqxError'');
          value_error = the (get_type ''ValueError'');
          runtime_error = the (get_type ''RuntimeError'')
      in case json of
           Inl e \<Rightarrow> Inl e
         | Inr stdlib_json_error \<Rightarrow>
             (case define_class m ''InvalidURL'' [rqx_error, value_error] of
                Inl e \<Rightarrow> Inl e
              | Inr (m1, _) \<Rightarrow>
                  (case define_class m1 ''JSONDecodeError'' [rqx_error, stdlib_json_error] of
                     Inl e \<Rightarrow> Inl e
                   | Inr (m2, _) \<Rightarrow>
                       (case define_class m2 ''StreamError'' [rqx_error, runtime_error] of
                          Inl e \<Rightarrow> Inl e
                        | Inr (m3, stream_error) \<Rightarrow>
                            define_each m3 [''StreamConsumed'', ''StreamClosed'', ''ResponseNotRead'']
                              [stream_error]))))"


section \<open>Loading the module\<close>

record py_module =
  m_attrs :: attrs
  m_at_exit :: "string list"

definition CLASSES :: "string list" where
  "CLASSES =
    [''PyClient'', ''PyAsyncClient'', ''PyRetry'', ''RedirectPolicy'', ''HTTPTransport'',
     ''AsyncHTTPTransport'', ''PyHeaders'', ''URL'', ''QueryParams'', ''Timeout'', ''PyResponse'',
     ''PyStreamResponse'', ''PyAsyncStreamResponse'', ''PyStreamContext'', ''PyAsyncStreamContext'']"

definition EXCEPTIONS :: "string list" where
  "EXCEPTIONS =
    [''RqxError'', ''HTTPError'', ''RequestError'', ''MaxRetriesExceeded'', ''TransportError'',
     ''HTTPStatusError'', ''TimeoutException'', ''NetworkError'', ''TooManyRedirects'', ''ProxyError'',
     ''ProtocolError'', ''RemoteProtocolError'', ''UnsupportedProtocol'', ''DecodingError'',
     ''ConnectTimeout'', ''ReadTimeout'', ''WriteTimeout'', ''PoolTimeout'', ''ConnectError'',
     ''ReadError'', ''WriteError'']"

text \<open>
  \<^verbatim>\<open>_rqx\<close> on Linux.  \<open>atexit\<close> is what importing and calling \<^verbatim>\<open>atexit.register\<close> gives;
  \<^verbatim>\<open>m.add\<close> sets an attribute.
\<close>

definition rqx_module :: "string \<Rightarrow> py_err + unit \<Rightarrow> py_err + cls \<Rightarrow> py_err + py_module" where
  "rqx_module version atexit json =
     (let m = AList.update ''_shutdown_runtime'' (OFunction ''_shutdown_runtime'')
                (AList.update ''__version__'' (OText version) [])
      in case atexit of
           Inl e \<Rightarrow> Inl e
         | Inr _ \<Rightarrow>
             (let m = fold (\<lambda>n. AList.update n (OType n)) CLASSES m;
                  m = fold (\<lambda>n. AList.update n (OClass (the (get_type n)))) EXCEPTIONS m
              in case register_exceptions json m of
                   Inl e \<Rightarrow> Inl e
                 | Inr m' \<Rightarrow> Inr \<lparr>m_attrs = m', m_at_exit = [''_shutdown_runtime'']\<rparr>))"


section \<open>What is raised is exported\<close>

fun class_name :: "py_class \<Rightarrow> string" where
  "class_name PyException = ''Exception''"
| "class_name PyValueError = ''ValueError''"
| "class_name PyTypeError = ''TypeError''"
| "class_name PyKeyError = ''KeyError''"
| "class_name PyRuntimeError = ''RuntimeError''"
| "class_name StdJSONDecodeError = ''JSONDecodeError''"
| "class_name PyArithmeticError = ''ArithmeticError''"
| "class_name PyOverflowError = ''OverflowError''"
| "class_name PyRecursionError = ''RecursionError''"
| "class_name CRqxError = ''RqxError''"
| "class_name CHTTPError = ''HTTPError''"
| "class_name CRequestError = ''RequestError''"
| "class_name CHTTPStatusError = ''HTTPStatusError''"
| "class_name CMaxRetriesExceeded = ''MaxRetriesExceeded''"
| "class_name CTransportError = ''TransportError''"
| "class_name CDecodingError = ''DecodingError''"
| "class_name CTooManyRedirects = ''TooManyRedirects''"
| "class_name CTimeoutException = ''TimeoutException''"
| "class_name CNetworkError = ''NetworkError''"
| "class_name CProtocolError = ''ProtocolError''"
| "class_name CProxyError = ''ProxyError''"
| "class_name CUnsupportedProtocol = ''UnsupportedProtocol''"
| "class_name CRemoteProtocolError = ''RemoteProtocolError''"
| "class_name CConnectTimeout = ''ConnectTimeout''"
| "class_name CReadTimeout = ''ReadTimeout''"
| "class_name CWriteTimeout = ''WriteTimeout''"
| "class_name CPoolTimeout = ''PoolTimeout''"
| "class_name CConnectError = ''ConnectError''"
| "class_name CReadError = ''ReadError''"
| "class_name CWriteError = ''WriteError''"
| "class_name CInvalidURL = ''InvalidURL''"
| "class_name CJSONDecodeError = ''JSONDecodeError''"
| "class_name CStreamError = ''StreamError''"
| "class_name CStreamConsumed = ''StreamConsumed''"
| "class_name CStreamClosed = ''StreamClosed''"
| "class_name CResponseNotRead = ''ResponseNotRead''"

text \<open>The class objects \<open>py_bases\<close> describes.\<close>

fun rank :: "py_class \<Rightarrow> nat" where
  "rank CRqxError = 1"
| "rank CHTTPError = 2"
| "rank CRequestError = 3"
| "rank CHTTPStatusError = 3"
| "rank CMaxRetriesExceeded = 3"
| "rank CTransportError = 4"
| "rank CDecodingError = 4"
| "rank CTooManyRedirects = 4"
| "rank CTimeoutException = 5"
| "rank CNetworkError = 5"
| "rank CProtocolError = 5"
| "rank CProxyError = 5"
| "rank CUnsupportedProtocol = 5"
| "rank CRemoteProtocolError = 6"
| "rank CConnectTimeout = 6"
| "rank CReadTimeout = 6"
| "rank CWriteTimeout = 6"
| "rank CPoolTimeout = 6"
| "rank CConnectError = 6"
| "rank CReadError = 6"
| "rank CWriteError = 6"
| "rank CInvalidURL = 2"
| "rank CJSONDecodeError = 3"
| "rank CStreamError = 2"
| "rank CStreamConsumed = 3"
| "rank CStreamClosed = 3"
| "rank CResponseNotRead = 3"
| "rank StdJSONDecodeError = 2"
| "rank PyValueError = 1"
| "rank PyTypeError = 1"
| "rank PyKeyError = 1"
| "rank PyRuntimeError = 1"
| "rank PyArithmeticError = 1"
| "rank PyOverflowError = 2"
| "rank PyRecursionError = 2"
| "rank PyException = 0"

function cls_of :: "py_class \<Rightarrow> cls" where
  "cls_of c = Cls (class_name c) (map cls_of (py_bases c))"
  by pat_completeness auto

termination
proof (relation "measure rank")
  fix c b assume "b \<in> set (py_bases c)"
  then show "(b, c) \<in> measure rank" by (cases c) auto
qed simp


declare cls_of.simps [simp del]

text \<open>The classes of \<^verbatim>\<open>exceptions.rs\<close>, and those of the language it builds on.\<close>

definition rqx_classes :: "py_class list" where
  "rqx_classes =
    [CRqxError, CHTTPError, CRequestError, CHTTPStatusError, CMaxRetriesExceeded, CTransportError,
     CDecodingError, CTooManyRedirects, CTimeoutException, CNetworkError, CProtocolError, CProxyError,
     CUnsupportedProtocol, CRemoteProtocolError, CConnectTimeout, CReadTimeout, CWriteTimeout,
     CPoolTimeout, CConnectError, CReadError, CWriteError, CInvalidURL, CJSONDecodeError, CStreamError,
     CStreamConsumed, CStreamClosed, CResponseNotRead]"

definition std_classes :: "py_class list" where
  "std_classes =
    [PyException, PyValueError, PyTypeError, PyKeyError, PyRuntimeError, StdJSONDecodeError,
     PyArithmeticError, PyOverflowError, PyRecursionError]"

lemma all_classes: "c \<in> set (std_classes @ rqx_classes)"
  by (cases c) (simp_all add: std_classes_def rqx_classes_def)

lemma cls_of_inj: "cls_of c = cls_of d \<longleftrightarrow> c = d"
proof -
  have "distinct (map cls_of (std_classes @ rqx_classes))" by code_simp
  then show ?thesis using all_classes [of c] all_classes [of d] by (meson distinct_map inj_on_eq_iff)
qed

text \<open>A class's linearisation holds its ancestors.\<close>

lemma mro_ancestors: "mro (cls_of c) = Some l \<Longrightarrow> set l = cls_of ` {d. issubclass c d}"
proof (induction c arbitrary: l rule: cls_of.induct)
  case (1 c)
  have l: "mro (Cls (class_name c) (map cls_of (py_bases c))) = Some l" using "1.prems" by (simp only: cls_of.simps [of c])
  have "set (the (mro (cls_of b))) = cls_of ` {d. issubclass b d}" if b: "b \<in> set (py_bases c)" for b
  proof -
    have "mro (cls_of b) \<noteq> None" by (rule mro_bases [OF l]) (simp only: list.set_map b imageI)
    then obtain k where "mro (cls_of b) = Some k" by blast
    with "1.IH" [OF b this] show ?thesis by simp
  qed
  then have "set l = insert (cls_of c) (\<Union>b \<in> set (py_bases c). cls_of ` {d. issubclass b d} \<union> {cls_of b})"
    using mro_set [OF l] by (simp add: cls_of.simps [of c])
  moreover have "issubclass c d \<longleftrightarrow> d = c \<or> (\<exists>b \<in> set (py_bases c). issubclass b d)" for d
    by (auto elim: issubclass.cases)
  ultimately show ?case by auto
qed

lemma mro_defined: "c \<in> set rqx_classes \<Longrightarrow> mro (cls_of c) \<noteq> None"
proof -
  have "list_all (\<lambda>c. mro (cls_of c) \<noteq> None) rqx_classes" by code_simp
  then show "c \<in> set rqx_classes \<Longrightarrow> mro (cls_of c) \<noteq> None" by (simp add: list_all_iff)
qed

text \<open>
  C40. Once loaded, the module has every class that a failure of the core is raised as, under the name in
  \<^verbatim>\<open>exceptions.rs\<close> -- those built from two bases, which \<^verbatim>\<open>import_exception!\<close> looks up by name when
  one is first raised, too -- or the failure is raised as a \<open>ValueError\<close>, a \<open>TypeError\<close> or a \<open>KeyError\<close>.
  Python can linearise each of them, and \<^verbatim>\<open>except\<close> catches it by exactly the ancestors \<open>py_bases\<close>
  gives it.  No two attributes have one name, and the shutdown hook is registered.
\<close>

theorem exceptions_exported:
  "\<exists>m. rqx_module version (Inr ()) (Inr (cls_of StdJSONDecodeError)) = Inr m \<and>
    m_at_exit m = [''_shutdown_runtime''] \<and> distinct (map fst (m_attrs m)) \<and>
    (\<forall>e. let c = exc_class (into_py_err (Core e)) in
       c = PyValueError \<or> c = PyTypeError \<or> c = PyKeyError \<or>
       map_of (m_attrs m) (class_name c) = Some (OClass (cls_of c)) \<and>
       (\<exists>l. mro (cls_of c) = Some l \<and> (\<forall>d. cls_of d \<in> set l \<longleftrightarrow> issubclass c d)))"
proof -
  let ?ok = "\<lambda>as. distinct (map fst as) \<and>
    list_all (\<lambda>c. map_of as (class_name c) = Some (OClass (cls_of c))) rqx_classes"
  have "(case rqx_module version (Inr ()) (Inr (cls_of StdJSONDecodeError)) of
      Inl e \<Rightarrow> False | Inr m \<Rightarrow> m_at_exit m = [''_shutdown_runtime''] \<and> ?ok (m_attrs m))"
    by code_simp
  then obtain m where m: "rqx_module version (Inr ()) (Inr (cls_of StdJSONDecodeError)) = Inr m"
    "m_at_exit m = [''_shutdown_runtime'']" "?ok (m_attrs m)"
    by (auto split: sum.splits)
  have raised: "exc_class (into_py_err (Core e)) \<in> {PyValueError, PyTypeError, PyKeyError} \<union> set rqx_classes" for e
    by (cases e) (simp_all add: rqx_classes_def)
  have "\<exists>l. mro (cls_of c) = Some l \<and> (\<forall>d. cls_of d \<in> set l \<longleftrightarrow> issubclass c d)" if c: "c \<in> set rqx_classes" for c
  proof -
    from mro_defined [OF c] obtain l where l: "mro (cls_of c) = Some l" by blast
    with mro_ancestors [OF l] show ?thesis by (auto simp: cls_of_inj)
  qed
  with m raised show ?thesis by (intro exI [of _ m]) (fastforce simp: Let_def list_all_iff)
qed

end
