(* ===== verification/Rqx_Deadline.thy ===== *)
theory Rqx_Deadline
  imports Rqx_Retry
begin

text \<open>
  What \<^verbatim>\<open>total_timeout\<close> promises of the retry loop (\<^verbatim>\<open>rqx-core/src/transport.rs\<close>): when
  its attempts begin, on a clock.

  \<open>clock\<close> reads the time of a world, in nanoseconds.  It does not go back.  A sleep lasts at least as long as was
  asked for, as \<^verbatim>\<open>tokio::time::sleep\<close> documents, and at most \<open>S\<close> longer; draining a
  response takes at most \<open>D\<close>; reading the clock or drawing a random number, with the code that runs around
  it, takes at most \<open>E\<close>, and the time read lies between its beginning and its end.  A request takes any time.
\<close>

definition nanos :: "real \<Rightarrow> nat" where
  "nanos d = nat \<lceil>d * 1000000000\<rceil>"

definition runs_on :: "('w, 'h, 'u) net_env \<Rightarrow> ('w \<Rightarrow> nat) \<Rightarrow> nat \<Rightarrow> nat \<Rightarrow> nat \<Rightarrow> bool" where
  "runs_on env clock D S E \<longleftrightarrow>
     (\<forall>w. clock w \<le> snd (ne_now env w) \<and> snd (ne_now env w) \<le> clock (fst (ne_now env w)) \<and>
       clock (fst (ne_now env w)) \<le> clock w + E) \<and>
     (\<forall>w. clock w \<le> clock (fst (ne_random env w)) \<and> clock (fst (ne_random env w)) \<le> clock w + E) \<and>
     (\<forall>d w. clock w + nanos d \<le> clock (ne_sleep env d w) \<and> clock (ne_sleep env d w) \<le> clock w + nanos d + S) \<and>
     (\<forall>b w. clock w \<le> clock (ne_drain env b w) \<and> clock (ne_drain env b w) \<le> clock w + D) \<and>
     (\<forall>q w. clock w \<le> clock (fst (ne_execute env q w)))"

text \<open>The world with the times at which requests began.\<close>

definition timed :: "('w \<Rightarrow> nat) \<Rightarrow> ('w, 'h, 'u) net_env \<Rightarrow> ('w \<times> nat list, 'h, 'u) net_env" where
  "timed clock env =
     \<lparr>ne_execute = (\<lambda>q (w, ts). case ne_execute env q w of (w', x) \<Rightarrow> ((w', ts @ [clock w]), x)),
      ne_now = (\<lambda>(w, ts). case ne_now env w of (w', t) \<Rightarrow> ((w', ts), t)),
      ne_random = (\<lambda>(w, ts). case ne_random env w of (w', u) \<Rightarrow> ((w', ts), u)),
      ne_sleep = (\<lambda>d (w, ts). (ne_sleep env d w, ts)),
      ne_drain = (\<lambda>b (w, ts). (ne_drain env b w, ts))\<rparr>"

lemma timed_now:
  assumes "runs_on env clock D S E"
  shows "\<exists>w1 t. ne_now (timed clock env) (w, ts) = ((w1, ts), t) \<and>
    clock w \<le> t \<and> t \<le> clock w1 \<and> clock w1 \<le> clock w + E"
  using assms by (cases "ne_now env w") (auto simp: timed_def runs_on_def split: prod.split dest: spec [of _ w])

lemma timed_pause:
  assumes "runs_on env clock D S E" "pause (timed clock env) hm r k cur (w, ts) = Some z" "rt_backoff_max r = Fin m"
  shows "\<exists>w1. z = (w1, ts) \<and> clock w \<le> clock w1 \<and> clock w1 \<le> clock w + E + nanos m + S"
proof -
  obtain w1 u where rand: "ne_random env w = (w1, u)" by fastforce
  then have w1: "clock w \<le> clock w1" "clock w1 \<le> clock w + E" using assms(1) by (metis fst_conv runs_on_def)+
  have wait: "nanos d \<le> nanos m" if "duration_from_secs (backoff_time r c a) = Some d" for c a d
  proof -
    have "fl_le (backoff_time r c a) (Fin m)" unfolding backoff_time_def assms(3) by (rule fl_min_le) simp
    with that have "d \<le> m" by (cases "backoff_time r c a") (auto split: if_splits)
    then show ?thesis unfolding nanos_def by (intro nat_mono ceiling_mono mult_right_mono) auto
  qed
  have sleep: "clock v + nanos d \<le> clock (ne_sleep env d v)" "clock (ne_sleep env d v) \<le> clock v + nanos d + S"
    for d v using assms(1) by (simp_all add: runs_on_def)
  from assms(2) rand obtain c a d v where d: "duration_from_secs (backoff_time r c a) = Some d"
    and v: "v = w \<or> v = w1" and z: "z = (ne_sleep env d v, ts)"
    by (auto simp: pause_def timed_def Let_def split: if_splits)
  from v w1 have "clock w \<le> clock v" "clock v \<le> clock w + E" by auto
  with z wait [OF d] sleep [where v = v and d = d] show ?thesis by simp
qed

lemma timed_attempt:
  assumes "runs_on env clock D S E" "attempt_once (timed clock env) r q used hist cur (w, ts) = (z, res)"
  shows "\<exists>w1 new. z = (w1, ts @ new) \<and> clock w \<le> clock w1 \<and>
    (\<forall>t \<in> set new. clock w \<le> t \<and> t \<le> clock w + D + E)"
proof -
  define v where "v = (case cur of Some old \<Rightarrow> ne_drain env (hr_body old) w | None \<Rightarrow> w)"
  have v: "clock w \<le> clock v" "clock v \<le> clock w + D" using assms(1) by (auto simp: v_def runs_on_def split: option.split)
  have drained: "(case cur of Some old \<Rightarrow> ne_drain (timed clock env) (hr_body old) (w, ts) | None \<Rightarrow> (w, ts)) = (v, ts)"
    by (simp add: v_def timed_def split: option.split)
  obtain v1 t where now: "ne_now (timed clock env) (v, ts) = ((v1, ts), t)" "clock v \<le> t" "t \<le> clock v1" "clock v1 \<le> clock v + E"
    using timed_now [OF assms(1)] by blast
  show ?thesis
  proof (cases "try_clone q")
    case None
    with assms(2) drained now v show ?thesis by (auto simp: attempt_once_def Let_def)
  next
    case (Some q')
    obtain v2 x where ex: "ne_execute env q' v1 = (v2, x)" by fastforce
    then have ex': "ne_execute (timed clock env) q' (v1, ts) = ((v2, ts @ [clock v1]), x)" by (simp add: timed_def)
    have v2: "clock v1 \<le> clock v2" using assms(1) ex by (metis fst_conv runs_on_def)
    obtain v3 t' where now': "ne_now (timed clock env) (v2, ts @ [clock v1]) = ((v3, ts @ [clock v1]), t')" "clock v2 \<le> clock v3"
      using timed_now [OF assms(1)] le_trans by blast
    have "z = (v2, ts @ [clock v1]) \<or> z = (v3, ts @ [clock v1])"
      using assms(2) Some ex' now'(1) now(1) unfolding attempt_once_def drained Let_def
      by (cases x) (auto split: if_splits)
    with v v2 now now'(2) show ?thesis by force
  qed
qed

text \<open>A time at which an attempt may begin: soon after one at which the budget was not used up.\<close>

definition in_budget :: "retry \<Rightarrow> nat \<Rightarrow> nat \<Rightarrow> nat \<Rightarrow> bool" where
  "in_budget r start slack t \<longleftrightarrow>
     (\<exists>c. start \<le> c \<and> \<not> fl_less (total_timeout r) (as_secs_f64 (c - start)) \<and> c \<le> t \<and> t \<le> c + slack)"

lemma in_budgetI:
  "start \<le> c \<Longrightarrow> \<not> fl_less (total_timeout r) (as_secs_f64 (c - start)) \<Longrightarrow> c \<le> t \<Longrightarrow> t \<le> c + slack \<Longrightarrow>
    in_budget r start slack t"
  unfolding in_budget_def by blast

lemma timed_loop:
  assumes "runs_on env clock D S E" "rt_backoff_max r = Fin m"
  shows "retry_loop (timed clock env) hm sf r q start used hist cur (w, ts) = Some (z, res) \<Longrightarrow> start \<le> clock w \<Longrightarrow>
    \<exists>w1 new. z = (w1, ts @ new) \<and> (\<forall>t \<in> set new. in_budget r start (nanos m + S + D + 3 * E) t)"
proof (induction "nat (rt_total r - n_total used)" arbitrary: used hist cur w ts rule: less_induct)
  case less
  let ?env = "timed clock env"
  obtain w1 c where now: "ne_now ?env (w, ts) = ((w1, ts), c)" "clock w \<le> c" "c \<le> clock w1" "clock w1 \<le> clock w + E"
    using timed_now [OF assms(1)] by blast
  note unfold = less.prems(1) [unfolded retry_loop.simps [of ?env hm sf r q start used hist cur "(w, ts)"] now(1) prod.case]
  show ?case
  proof (cases "fl_less (total_timeout r) (as_secs_f64 (c - start))")
    case True
    with unfold show ?thesis by auto
  next
    case False
    with unfold obtain z2 where z2: "(if 0 < n_total used
        then pause ?env hm r (nat (n_total used)) cur (w1, ts) else Some (w1, ts)) = Some z2"
      by (auto split: if_splits option.splits)
    then obtain w2 where w2: "z2 = (w2, ts)" "clock w1 \<le> clock w2" "clock w2 \<le> clock w1 + E + nanos m + S"
      using timed_pause [OF assms(1) _ assms(2), of hm "nat (n_total used)" cur w1 ts z2] by (auto split: if_splits)
    obtain z3 step where step: "attempt_once ?env r q used hist cur (w2, ts) = (z3, step)" by fastforce
    from timed_attempt [OF assms(1) this [unfolded w2(1)]] obtain w3 new where
      new: "z3 = (w3, ts @ new)" "clock w2 \<le> clock w3" "\<forall>t \<in> set new. clock w2 \<le> t \<and> t \<le> clock w2 + D + E" by blast
    have ok: "in_budget r start (nanos m + S + D + 3 * E) t" if "t \<in> set new" for t
      using bspec [OF new(3) that] now w2 less.prems(2) by (intro in_budgetI [OF _ False]) simp_all
    show ?thesis
    proof (cases step)
      case (Finished x)
      with unfold False z2 w2(1) step new(1) ok show ?thesis by auto
    next
      case (Unfinished kind cur' hist')
      show ?thesis
      proof (cases "allows_another r kind used")
        case True
        with unfold False z2 w2(1) step new(1) Unfinished have
          "retry_loop ?env hm sf r q start (record_retry kind used) hist' cur' (w3, ts @ new) = Some (z, res)"
          by simp
        moreover have "start \<le> clock w3" using less.prems(2) now w2(2) new(2) by simp
        moreover have "nat (rt_total r - n_total (record_retry kind used)) < nat (rt_total r - n_total used)"
          using allows_another_total [OF True] by simp
        ultimately obtain w4 more where "z = (w4, (ts @ new) @ more)"
          "\<forall>t \<in> set more. in_budget r start (nanos m + S + D + 3 * E) t"
          using less.hyps by blast
        with ok show ?thesis by auto
      next
        case stop: False
        with unfold False z2 w2(1) step new(1) Unfinished ok show ?thesis by auto
      qed
    qed
  qed
qed

text \<open>C35. No attempt begins much after \<^verbatim>\<open>total_timeout\<close>: every request of a retried one begins
  at most \<^verbatim>\<open>backoff_max\<close>, the lateness of one sleep, the time it takes to drain one response and that of
  the code of one round, after a moment at which no more than \<^verbatim>\<open>total_timeout\<close> had passed since the clock
  was first read.  The slack is real: the budget is looked at before the wait and not after it, so the wait is not
  cut short, and in the witness a budget of a quarter of a second lets an attempt begin after half a second.\<close>

theorem attempts_begin_in_budget:
  assumes "send_with_retries (timed clock env) hm show_float r q (w, []) = Some ((w', ts), res)"
    and "runs_on env clock D S E" and "rt_backoff_max r = Fin m"
  shows "\<exists>start. clock w \<le> start \<and> start \<le> clock w + E \<and>
    (\<forall>t \<in> set ts. in_budget r start (nanos m + S + D + 3 * E) t)"
proof -
  obtain w1 start where now: "ne_now (timed clock env) (w, []) = ((w1, []), start)"
    "clock w \<le> start" "start \<le> clock w1" "clock w1 \<le> clock w + E"
    using timed_now [OF assms(2)] by blast
  with assms(1) timed_loop [OF assms(2,3), of hm show_float q start no_retries "[]" None w1 "[]"]
  show ?thesis by (intro exI [of _ start]) (auto simp: send_with_retries_def)
qed

text \<open>A world that is its clock, in which every request is answered at once, with status 503.\<close>

definition refusing :: "(nat, (string \<times> string) list, unit) net_env" where
  "refusing =
     \<lparr>ne_execute = (\<lambda>q w. (w, Inr \<lparr>hr_status = 503, hr_headers = [], hr_url = (),
        hr_version = ''HTTP/1.1'', hr_cookies = [], hr_body = []\<rparr>)),
      ne_now = (\<lambda>w. (w, w)), ne_random = (\<lambda>w. (w, Fin 0)), ne_sleep = (\<lambda>d w. w + nanos d), ne_drain = (\<lambda>b w. w)\<rparr>"

definition quarter_budget :: retry where
  "quarter_budget = retry_503\<lparr>rt_total_timeout := Some (Fin (1 / 4))\<rparr>"

lemma as_secs_half: "as_secs_f64 500000000 = Fin (1 / 2)"
proof -
  have "round_fl f64 (1 / 2) = Fin (1 / 2)"
    by (rule round_fl_exact, unfold representable_def, intro conjI exI [of _ 1] exI [of _ 1073])
       (simp_all add: f64_def)
  then show ?thesis by (simp add: as_secs_f64_def round_fl_exact)
qed

lemma nanos_half: "nanos (1 / 2) = 500000000"
proof -
  have "(1 / 2 :: real) * 1000000000 = of_int 500000000" by simp
  then show ?thesis unfolding nanos_def by (simp only: ceiling_of_int)
qed

lemma refusing_pause:
  "pause (timed id refusing) assoc_headers quarter_budget 1 (Some \<lparr>hr_status = 503, hr_headers = [],
     hr_url = (), hr_version = ''HTTP/1.1'', hr_cookies = [], hr_body = []\<rparr>) (0, ts) = Some (500000000, ts)"
  by (simp add: pause_def quarter_budget_def retry_503_def half_factor_def retry_new_def unwrap_or_def base_backoff_def
      DEFAULT_BACKOFF_MAX_def DEFAULT_BACKOFF_JITTER_def round_half retry_after_def get_first_def
      assoc_headers_def assoc_for_def backoff_time_def fl_max_def fl_min_def timed_def refusing_def nanos_half)

lemma refusing_env:
  "ne_now (timed id refusing) (w, ts) = ((w, ts), w)"
  "ne_drain (timed id refusing) b (w, ts) = (w, ts)"
  "ne_execute (timed id refusing) q (w, ts) = ((w, ts @ [w]), Inr \<lparr>hr_status = 503, hr_headers = [],
     hr_url = (), hr_version = ''HTTP/1.1'', hr_cookies = [], hr_body = []\<rparr>)"
  by (simp_all add: timed_def refusing_def)

lemma refusing_run:
  "\<exists>p. send_with_retries (timed id refusing) assoc_headers (\<lambda>_. []) quarter_budget get_request (0, []) =
     Some ((500000000, [0, 500000000]), Inr p)"
proof -
  have r: "rt_total quarter_budget = 1" "rt_status quarter_budget = 1" "rt_status_forcelist quarter_budget = {503}"
    "\<not> rt_raise_on_status quarter_budget" "total_timeout quarter_budget = Fin (1 / 4)"
    "rq_method get_request \<in> rt_allowed_methods quarter_budget" "try_clone get_request = Some get_request"
    by (simp_all add: quarter_budget_def retry_503_def half_factor_def retry_new_def unwrap_or_def total_timeout_def
        get_request_def DEFAULT_ALLOWED_METHODS_def try_clone_def)
  show ?thesis
    unfolding send_with_retries_def
    by (simp add: refusing_env retry_loop.simps [of "timed id refusing"] attempt_once_def
        r no_retries_def as_secs_0 allows_another_def give_up_def Let_def
        refusing_pause [unfolded One_nat_def] with_retries_def pending_new_def parts_of_def)
qed

lemma refusing_runs_on: "runs_on refusing id 0 0 0"
  by (simp add: runs_on_def refusing_def)

theorem attempts_begin_in_budget_witness:
  "\<exists>p. send_with_retries (timed id refusing) assoc_headers (\<lambda>_. []) quarter_budget get_request (0, []) =
     Some ((500000000, [0, 500000000]), Inr p) \<and>
     fl_less (total_timeout quarter_budget) (as_secs_f64 500000000) \<and>
     in_budget quarter_budget 0 (nanos 120) 500000000"
proof -
  obtain p where run: "send_with_retries (timed id refusing) assoc_headers (\<lambda>_. []) quarter_budget get_request (0, []) =
      Some ((500000000, [0, 500000000]), Inr p)"
    using refusing_run by blast
  have "rt_backoff_max quarter_budget = Fin 120" "total_timeout quarter_budget = Fin (1 / 4)"
    by (simp_all add: quarter_budget_def retry_503_def half_factor_def retry_new_def unwrap_or_def
        DEFAULT_BACKOFF_MAX_def total_timeout_def)
  with run attempts_begin_in_budget [OF run refusing_runs_on] show ?thesis by (simp add: as_secs_half)
qed

end
