(* ===== verification/Rqx_Jar.thy ===== *)
theory Rqx_Jar
  imports Rqx_Client
begin

text \<open>
  Requests of one client running concurrently (\<^verbatim>\<open>rqx-core/src/client.rs\<close>).  The clones of a
  \<^verbatim>\<open>Client\<close> share one cookie jar behind a mutex, which each request takes for every merge and never
  holds over an await: between two merges of one request any others may come.

  A step is the stretch of one request up to its next wait for the network or for the mutex.  What the
  network answers, with whatever retries, is arbitrary; what the code makes of it is
  \<open>hop_outcome\<close> and \<open>accumulate_cookies\<close>.
\<close>

datatype ('h, 'u) send_at =
    AtHop "('h, 'u) http_request" nat u32 history
  | AtOnce "('h, 'u) http_request"
  | AtAnswer "('h, 'u) http_request" nat u32 history "('h, 'u) pending"
  | AtLast "('h, 'u) pending"
  | AtEnd "rqx_error + ('h, 'u) pending"
  | Gone

text \<open>
  A request in flight: at the head of the redirect loop, or about to be sent without following;
  holding an answer it has not looked at; holding the response that \<^verbatim>\<open>send\<close> will return, its cookies
  still to be merged; returned; dropped with its future.  \<open>se_got\<close> and \<open>se_merged\<close> are history: the
  cookies of its answers and how many of these it has merged.
\<close>

record ('h, 'u) sender =
  se_at :: "('h, 'u) send_at"
  se_got :: "cookies list"
  se_merged :: nat

record ('h, 'u) jar_sys =
  js_jar :: cookies
  js_senders :: "nat \<Rightarrow> ('h, 'u) sender"

definition send_start :: "('h, 'u) http_request \<Rightarrow> bool \<Rightarrow> ('h, 'u) sender" where
  "send_start q follow =
     \<lparr>se_at = (if follow then AtHop q 0 0 [] else AtOnce q), se_got = [], se_merged = 0\<rparr>"

definition move :: "nat \<Rightarrow> ('h, 'u) send_at \<Rightarrow> ('h, 'u) jar_sys \<Rightarrow> ('h, 'u) jar_sys" where
  "move i a s = s\<lparr>js_senders := (js_senders s)(i := (js_senders s i)\<lparr>se_at := a\<rparr>)\<rparr>"

definition answered :: "nat \<Rightarrow> ('h, 'u) pending \<Rightarrow> ('h, 'u) jar_sys \<Rightarrow> ('h, 'u) jar_sys" where
  "answered i hop s =
     s\<lparr>js_senders := (js_senders s)(i := (js_senders s i)\<lparr>se_got := se_got (js_senders s i) @ [cookies (parts hop)]\<rparr>)\<rparr>"

definition merged :: "nat \<Rightarrow> cookies \<Rightarrow> ('h, 'u) jar_sys \<Rightarrow> ('h, 'u) jar_sys" where
  "merged i jar s =
     s\<lparr>js_jar := jar,
       js_senders := (js_senders s)(i := (js_senders s i)\<lparr>se_merged := length (se_got (js_senders s i))\<rparr>)\<rparr>"

definition is_3xx :: "('h, 'u) pending \<Rightarrow> bool" where
  "is_3xx hop \<longleftrightarrow> 300 \<le> status_code (parts hop) \<and> status_code (parts hop) < 400"

fun after_hop :: "nat \<Rightarrow> ('h, 'u) hop_result \<Rightarrow> ('h, 'u) send_at" where
  "after_hop used (HopDone (Inl e)) = AtEnd (Inl e)"
| "after_hop used (HopDone (Inr p)) = AtLast p"
| "after_hop used (HopAgain q num hist) = AtHop q (used + 1) num hist"

inductive jar_step ::
  "('w, 'h, 'u) net_env \<Rightarrow> ('h, 'v) header_map \<Rightarrow> 'u url_lib \<Rightarrow> redirect_policy \<Rightarrow>
     ('h, 'u) jar_sys \<Rightarrow> ('h, 'u) jar_sys \<Rightarrow> bool"
  for env hm ul policy where
  j_fail: "se_at (js_senders s i) = AtHop q used num hist \<or> se_at (js_senders s i) = AtOnce q \<Longrightarrow>
     jar_step env hm ul policy s (move i (AtEnd (Inl e)) s)"
| j_answer: "se_at (js_senders s i) = AtHop q used num hist \<Longrightarrow> try_clone q \<noteq> None \<Longrightarrow>
     jar_step env hm ul policy s (move i (AtAnswer q used num hist hop) (answered i hop s))"
| j_once: "se_at (js_senders s i) = AtOnce q \<Longrightarrow>
     jar_step env hm ul policy s (move i (AtLast hop) (answered i hop s))"
| j_look: "se_at (js_senders s i) = AtAnswer q used num hist hop \<Longrightarrow> \<not> is_3xx hop \<Longrightarrow>
     hop_outcome env hm ul policy q used num hist hop (js_jar s) w = (w', jar', res) \<Longrightarrow>
     jar_step env hm ul policy s (move i (after_hop used res) s)"
| j_redirect: "se_at (js_senders s i) = AtAnswer q used num hist hop \<Longrightarrow> is_3xx hop \<Longrightarrow>
     hop_outcome env hm ul policy q used num hist hop (js_jar s) w = (w', jar', res) \<Longrightarrow>
     jar_step env hm ul policy s (move i (after_hop used res) (merged i jar' s))"
| j_last: "se_at (js_senders s i) = AtLast p \<Longrightarrow>
     jar_step env hm ul policy s
       (move i (AtEnd (Inr (p\<lparr>parts := (parts p)\<lparr>elapsed := t\<rparr>\<rparr>)))
         (merged i (accumulate_cookies (js_jar s) (cookies (parts p))) s))"
| j_drop: "jar_step env hm ul policy s (move i Gone s)"

lemma move_simps [simp]:
  "js_jar (move i a s) = js_jar s"
  "js_senders (move i a s) j = (if j = i then (js_senders s i)\<lparr>se_at := a\<rparr> else js_senders s j)"
  by (simp_all add: move_def)

lemma answered_simps [simp]:
  "js_jar (answered i hop s) = js_jar s"
  "js_senders (answered i hop s) j =
     (if j = i then (js_senders s i)\<lparr>se_got := se_got (js_senders s i) @ [cookies (parts hop)]\<rparr> else js_senders s j)"
  by (simp_all add: answered_def)

lemma merged_simps [simp]:
  "js_jar (merged i jar s) = jar"
  "js_senders (merged i jar s) j =
     (if j = i then (js_senders s i)\<lparr>se_merged := length (se_got (js_senders s i))\<rparr> else js_senders s j)"
  by (simp_all add: merged_def)


section \<open>Where the cookies of the jar come from\<close>

definition sender_ok :: "('h, 'u) sender \<Rightarrow> bool" where
  "sender_ok x \<longleftrightarrow> se_merged x \<le> length (se_got x) \<and>
     (case se_at x of
        AtAnswer q used num hist hop \<Rightarrow> se_got x \<noteq> [] \<and> last (se_got x) = cookies (parts hop) \<and> length (se_got x) \<le> Suc (se_merged x)
      | AtLast p \<Rightarrow> se_got x \<noteq> [] \<and> last (se_got x) = cookies (parts p) \<and> length (se_got x) \<le> Suc (se_merged x)
      | Gone \<Rightarrow> True
      | _ \<Rightarrow> se_merged x = length (se_got x))"

text \<open>No merged answer sets \<open>k\<close>; an answer that set it to \<open>v\<close> with none after it among the merged.\<close>

definition never_set :: "string \<Rightarrow> ('h, 'u) sender \<Rightarrow> bool" where
  "never_set k x \<longleftrightarrow> (\<forall>m < se_merged x. (se_got x ! m) k = None)"

definition last_set :: "string \<Rightarrow> string \<Rightarrow> ('h, 'u) sender \<Rightarrow> bool" where
  "last_set k v x \<longleftrightarrow> (\<exists>n < length (se_got x). (se_got x ! n) k = Some v \<and>
     (\<forall>m < se_merged x. n < m \<longrightarrow> (se_got x ! m) k = None))"

definition explained :: "cookies \<Rightarrow> ('h, 'u) jar_sys \<Rightarrow> string \<Rightarrow> bool" where
  "explained jar0 s k \<longleftrightarrow>
     js_jar s k = jar0 k \<and> (\<forall>i. never_set k (js_senders s i)) \<or>
     (\<exists>v i. js_jar s k = Some v \<and> last_set k v (js_senders s i))"

lemma explained_frame:
  assumes "explained jar0 s k" "js_jar t k = js_jar s k"
    and "\<And>i. never_set k (js_senders s i) \<Longrightarrow> never_set k (js_senders t i)"
    and "\<And>i v. last_set k v (js_senders s i) \<Longrightarrow> last_set k v (js_senders t i)"
  shows "explained jar0 t k"
  using assms unfolding explained_def by metis

lemma moved [simp]:
  "never_set k (x\<lparr>se_at := a\<rparr>) = never_set k x" "last_set k v (x\<lparr>se_at := a\<rparr>) = last_set k v x"
  by (simp_all add: never_set_def last_set_def)

lemma got_more:
  assumes "se_merged x \<le> length (se_got x)"
  shows "never_set k x \<Longrightarrow> never_set k (x\<lparr>se_got := se_got x @ [c]\<rparr>)"
    "last_set k v x \<Longrightarrow> last_set k v (x\<lparr>se_got := se_got x @ [c]\<rparr>)"
  using assms by (auto simp: never_set_def last_set_def nth_append)

text \<open>Merging the cookies \<open>c\<close> of the last answer.\<close>

lemma merged_sender:
  assumes "se_got x \<noteq> []" "last (se_got x) = c" "length (se_got x) \<le> Suc (se_merged x)"
  shows "c k = None \<Longrightarrow> never_set k x \<Longrightarrow> never_set k (x\<lparr>se_merged := length (se_got x)\<rparr>)"
    "c k = None \<Longrightarrow> last_set k v x \<Longrightarrow> last_set k v (x\<lparr>se_merged := length (se_got x)\<rparr>)"
    "c k = Some v \<Longrightarrow> last_set k v (x\<lparr>se_merged := length (se_got x)\<rparr>)"
proof -
  have c: "se_got x ! (length (se_got x) - 1) = c" using assms(1,2) by (simp add: last_conv_nth)
  have old: "m < se_merged x \<or> m = length (se_got x) - 1" if "m < length (se_got x)" for m
    using that assms(3) by linarith
  have new: "(se_got x ! m) k = None" if "c k = None" "m < length (se_got x)" "m < se_merged x \<longrightarrow> (se_got x ! m) k = None" for m
    using old [OF that(2)] that(1,3) c by metis
  show "c k = None \<Longrightarrow> never_set k x \<Longrightarrow> never_set k (x\<lparr>se_merged := length (se_got x)\<rparr>)"
    using new by (simp add: never_set_def)
  show "last_set k v (x\<lparr>se_merged := length (se_got x)\<rparr>)" if none: "c k = None" and set: "last_set k v x"
  proof -
    from set obtain n where n: "n < length (se_got x)" "(se_got x ! n) k = Some v"
      "\<forall>m < se_merged x. n < m \<longrightarrow> (se_got x ! m) k = None" unfolding last_set_def by blast
    have "(se_got x ! m) k = None" if "m < length (se_got x)" "n < m" for m
      by (rule new [OF none that(1)]) (use n(3) that(2) in blast)
    with n(1,2) show ?thesis unfolding last_set_def by (intro exI [of _ n]) simp
  qed
  show "c k = Some v \<Longrightarrow> last_set k v (x\<lparr>se_merged := length (se_got x)\<rparr>)"
    using assms(1) c unfolding last_set_def by (intro exI [of _ "length (se_got x) - 1"]) auto
qed

lemma explained_merged:
  assumes "explained jar0 s k" and "se_got (js_senders s i) \<noteq> []" "last (se_got (js_senders s i)) = c"
    and "length (se_got (js_senders s i)) \<le> Suc (se_merged (js_senders s i))"
  shows "explained jar0 (move i a (merged i (js_jar s ++ c) s)) k"
proof (cases "c k")
  case None
  note frame = merged_sender(1,2) [where k = k and c = c, OF assms(2-4) None]
  show ?thesis
    by (rule explained_frame [OF assms(1)]) (auto simp: map_add_def None intro: frame)
next
  case (Some v)
  then show ?thesis using merged_sender(3) [OF assms(2-4)]
    unfolding explained_def by (intro disjI2 exI [of _ v] exI [of _ i]) simp
qed

lemma hop_outcome_cookies:
  assumes "hop_outcome env hm ul policy q used num hist hop jar w = (w', jar', res)"
  shows "jar' = (if is_3xx hop then jar ++ cookies (parts hop) else jar)"
    "\<not> is_3xx hop \<Longrightarrow> \<exists>p. res = HopDone (Inr p)"
    "res = HopDone (Inr p) \<Longrightarrow> cookies (parts p) = cookies (parts hop)"
  using assms
  by (auto simp: hop_outcome_def is_3xx_def Let_def with_retries_def split: if_splits option.splits sum.splits)

definition jar_inv :: "cookies \<Rightarrow> ('h, 'u) jar_sys \<Rightarrow> bool" where
  "jar_inv jar0 s \<longleftrightarrow> (\<forall>i. sender_ok (js_senders s i)) \<and> (\<forall>k. explained jar0 s k)"

lemma after_hop_ok:
  assumes "sender_ok x" "se_at x = AtAnswer q used num hist hop"
    and "hop_outcome env hm ul policy q used num hist hop jar w = (w', jar', res)"
  shows "\<not> is_3xx hop \<Longrightarrow> sender_ok (x\<lparr>se_at := after_hop used res\<rparr>)"
    "is_3xx hop \<Longrightarrow> sender_ok (x\<lparr>se_merged := length (se_got x), se_at := after_hop used res\<rparr>)"
proof -
  note hop = hop_outcome_cookies [OF assms(3)]
  show "\<not> is_3xx hop \<Longrightarrow> sender_ok (x\<lparr>se_at := after_hop used res\<rparr>)"
    using hop(2,3) assms(1,2) by (auto simp: sender_ok_def)
  show "is_3xx hop \<Longrightarrow> sender_ok (x\<lparr>se_merged := length (se_got x), se_at := after_hop used res\<rparr>)"
    using hop(3) assms(1,2) by (cases "(used, res)" rule: after_hop.cases) (auto simp: sender_ok_def)
qed

lemma jar_step_inv:
  assumes "jar_step env hm ul policy s t" "jar_inv jar0 s"
  shows "jar_inv jar0 t"
proof -
  have ok: "sender_ok (js_senders s i)" "explained jar0 s k" for i k using assms(2) by (simp_all add: jar_inv_def)
  have senders: "sender_ok (js_senders t i)" for i
    using assms(1)
  proof cases
    case (j_look j q used num hist hop w w' jar' res)
    with after_hop_ok(1) [OF ok(1) j_look(2,4)] ok(1) show ?thesis by simp
  next
    case (j_redirect j q used num hist hop w w' jar' res)
    with after_hop_ok(2) [OF ok(1) j_redirect(2,4)] ok(1) show ?thesis by simp
  qed (use ok(1) [of i] in \<open>auto simp: sender_ok_def split: send_at.split\<close>)
  have "explained jar0 t k" for k
    using assms(1)
  proof cases
    case (j_answer i q used num hist hop)
    show ?thesis unfolding j_answer(1)
      by (rule explained_frame [OF ok(2)]) (use ok(1) [of i] got_more in \<open>auto simp: sender_ok_def\<close>)
  next
    case (j_once i q hop)
    show ?thesis unfolding j_once(1)
      by (rule explained_frame [OF ok(2)]) (use ok(1) [of i] got_more in \<open>auto simp: sender_ok_def\<close>)
  next
    case (j_redirect i q used num hist hop w w' jar' res)
    then show ?thesis
      using hop_outcome_cookies(1) [OF j_redirect(4)] ok(1) [of i] explained_merged [OF ok(2)]
      by (simp add: sender_ok_def)
  next
    case (j_last i p e)
    then show ?thesis using ok(1) [of i] explained_merged [OF ok(2)] by (simp add: sender_ok_def)
  qed (auto intro: explained_frame [OF ok(2)])
  with senders show ?thesis by (simp add: jar_inv_def)
qed

inductive jar_reach ::
  "('w, 'h, 'u) net_env \<Rightarrow> ('h, 'v) header_map \<Rightarrow> 'u url_lib \<Rightarrow> redirect_policy \<Rightarrow>
     (nat \<Rightarrow> ('h, 'u) http_request \<times> bool) \<Rightarrow> cookies \<Rightarrow> ('h, 'u) jar_sys \<Rightarrow> bool"
  for env hm ul policy calls jar0 where
  jar_reach_init: "jar_reach env hm ul policy calls jar0
     \<lparr>js_jar = jar0, js_senders = (\<lambda>i. case calls i of (q, follow) \<Rightarrow> send_start q follow)\<rparr>"
| jar_reach_step: "jar_reach env hm ul policy calls jar0 s \<Longrightarrow> jar_step env hm ul policy s t \<Longrightarrow>
     jar_reach env hm ul policy calls jar0 t"

lemma jar_reach_inv: "jar_reach env hm ul policy calls jar0 s \<Longrightarrow> jar_inv jar0 s"
proof (induction rule: jar_reach.induct)
  case jar_reach_init
  show ?case
    by (auto simp: jar_inv_def sender_ok_def send_start_def explained_def never_set_def split: prod.splits)
qed (rule jar_step_inv)

definition ended :: "('h, 'u) sender \<Rightarrow> bool" where
  "ended x \<longleftrightarrow> (\<exists>res. se_at x = AtEnd res)"

lemma ended_merged: "sender_ok x \<Longrightarrow> ended x \<Longrightarrow> se_merged x = length (se_got x)"
  by (auto simp: ended_def sender_ok_def)

lemma never_set_got:
  assumes "never_set k x" "sender_ok x" "ended x" "c \<in> set (se_got x)"
  shows "k \<notin> dom c"
  using assms ended_merged [OF assms(2,3)] by (auto simp: never_set_def in_set_conv_nth)

lemma last_set_got:
  assumes "last_set k v x" "sender_ok x"
  shows "\<exists>earlier c later. se_got x = earlier @ c # later \<and> c k = Some v \<and>
    (ended x \<longrightarrow> (\<forall>d \<in> set later. k \<notin> dom d))"
proof -
  from assms(1) obtain n where n: "n < length (se_got x)" "(se_got x ! n) k = Some v"
    "\<forall>m < se_merged x. n < m \<longrightarrow> (se_got x ! m) k = None" unfolding last_set_def by blast
  have "k \<notin> dom d" if "ended x" "d \<in> set (drop (Suc n) (se_got x))" for d
  proof -
    from that(2) obtain m where "m < length (se_got x) - Suc n" "d = se_got x ! (Suc n + m)"
      by (auto simp: in_set_conv_nth)
    with n(3) ended_merged [OF assms(2) that(1)] show ?thesis by auto
  qed
  with n(1,2) id_take_nth_drop [OF n(1)] show ?thesis by blast
qed

text \<open>C20. The jar under concurrency.  Whatever requests a client has in flight, however their answers and
  merges interleave and whichever of them are dropped on the way, no cookie is lost: the jar only grows, and
  has every name set by any answer, redirects included, of a request that has returned.  And none is made up: a value in the jar is the initial one, with no returned request having received another, or one that
  some request received and, if it has returned, was not replaced later in its own chain.\<close>

theorem jar_loses_nothing:
  assumes "jar_reach env hm ul policy calls jar0 s"
  shows "dom jar0 \<subseteq> dom (js_jar s) \<and>
    (\<forall>i. ended (js_senders s i) \<longrightarrow> (\<forall>c \<in> set (se_got (js_senders s i)). dom c \<subseteq> dom (js_jar s))) \<and>
    (\<forall>k v. js_jar s k = Some v \<longrightarrow>
       (jar0 k = Some v \<and> (\<forall>i. ended (js_senders s i) \<longrightarrow> (\<forall>c \<in> set (se_got (js_senders s i)). k \<notin> dom c))) \<or>
       (\<exists>i earlier c later. se_got (js_senders s i) = earlier @ c # later \<and> c k = Some v \<and>
          (ended (js_senders s i) \<longrightarrow> (\<forall>d \<in> set later. k \<notin> dom d))))"
proof -
  have ok: "sender_ok (js_senders s i)" and ex: "explained jar0 s k" for i k
    using jar_reach_inv [OF assms] by (simp_all add: jar_inv_def)
  have kept: "k \<in> dom (js_jar s)" if "k \<in> dom jar0" for k
    using that ex [of k] by (auto simp: explained_def)
  have got: "k \<in> dom (js_jar s)" if "ended (js_senders s i)" "c \<in> set (se_got (js_senders s i))" "k \<in> dom c" for i c k
    using that never_set_got [OF _ ok that(1,2), of k] ex [of k] by (auto simp: explained_def)
  have came: "(jar0 k = Some v \<and> (\<forall>i. ended (js_senders s i) \<longrightarrow> (\<forall>c \<in> set (se_got (js_senders s i)). k \<notin> dom c))) \<or>
       (\<exists>i earlier c later. se_got (js_senders s i) = earlier @ c # later \<and> c k = Some v \<and>
          (ended (js_senders s i) \<longrightarrow> (\<forall>d \<in> set later. k \<notin> dom d)))" if v: "js_jar s k = Some v" for k v
    using ex [of k] unfolding explained_def
  proof
    assume "js_jar s k = jar0 k \<and> (\<forall>i. never_set k (js_senders s i))"
    with v never_set_got [OF _ ok] show ?thesis by (intro disjI1) metis
  next
    assume "\<exists>v i. js_jar s k = Some v \<and> last_set k v (js_senders s i)"
    with v last_set_got [OF _ ok] show ?thesis by (intro disjI2) metis
  qed
  show ?thesis using kept got came by (intro conjI) (blast, blast, blast)
qed


text \<open>
  Two requests set the same cookie; the one answered first merges last, so its value stays.
\<close>

abbreviation setting_id :: "string \<Rightarrow> ((string \<times> string) list, string \<times> string \<times> u16) pending" where
  "setting_id v \<equiv> pending_new (answer 200 [] [(''id'', v)])"

definition crossing :: "nat \<Rightarrow> ((string \<times> string) list, string \<times> string \<times> u16) jar_sys" where
  "crossing n =
     foldl (\<lambda>s f. f s)
       \<lparr>js_jar = Map.empty, js_senders = (\<lambda>i. send_start plain_request False)\<rparr>
       (take n
         [\<lambda>s. move 0 (AtLast (setting_id ''a'')) (answered 0 (setting_id ''a'') s),
          \<lambda>s. move 1 (AtLast (setting_id ''b'')) (answered 1 (setting_id ''b'') s),
          \<lambda>s. move 1 (AtEnd (Inr (setting_id ''b''))) (merged 1 (accumulate_cookies (js_jar s) (cookies (parts (setting_id ''b'')))) s),
          \<lambda>s. move 0 (AtEnd (Inr (setting_id ''a''))) (merged 0 (accumulate_cookies (js_jar s) (cookies (parts (setting_id ''a'')))) s)])"

lemma elapsed_0: "setting_id v = (setting_id v)\<lparr>parts := (parts (setting_id v))\<lparr>elapsed := 0\<rparr>\<rparr>"
  by (simp add: pending_new_def parts_of_def)

lemma crossing_reached: "jar_reach env hm ul policy (\<lambda>_. (plain_request, False)) Map.empty (crossing 4)"
proof -
  note step = jar_reach_step [of env hm ul policy "\<lambda>_. (plain_request, False)" Map.empty]
  have "jar_reach env hm ul policy (\<lambda>_. (plain_request, False)) Map.empty (crossing 0)"
    using jar_reach_init [of env hm ul policy "\<lambda>_. (plain_request, False)" Map.empty] by (simp add: crossing_def)
  moreover have "jar_step env hm ul policy (crossing 0) (crossing 1)" "jar_step env hm ul policy (crossing 1) (crossing 2)"
    by (simp_all add: crossing_def send_start_def numeral_2_eq_2, rule j_once, simp, rule j_once, simp)
  moreover have "jar_step env hm ul policy (crossing 2) (crossing 3)"
    using j_last [of "crossing 2" 1 "setting_id ''b''" env hm ul policy 0, folded elapsed_0]
    by (simp add: crossing_def numeral_2_eq_2 numeral_3_eq_3)
  moreover have "jar_step env hm ul policy (crossing 3) (crossing 4)"
    using j_last [of "crossing 3" 0 "setting_id ''a''" env hm ul policy 0, folded elapsed_0]
    by (simp add: crossing_def numeral_3_eq_3 eval_nat_numeral)
  ultimately show ?thesis by (blast intro: step)
qed

theorem jar_loses_nothing_witness:
  "ended (js_senders (crossing 4) 0) \<and> ended (js_senders (crossing 4) 1) \<and> js_jar (crossing 4) ''id'' = Some ''a'' \<and>
   (\<exists>i earlier c later. se_got (js_senders (crossing 4) i) = earlier @ c # later \<and> c ''id'' = Some ''a'')"
proof -
  have jar: "js_jar (crossing 4) ''id'' = Some ''a''"
    by (simp add: crossing_def pending_new_def parts_of_def answer_def)
  moreover have "ended (js_senders (crossing 4) 0)" "ended (js_senders (crossing 4) 1)"
    by (simp_all add: crossing_def ended_def)
  ultimately show ?thesis
    using jar_loses_nothing [OF crossing_reached [of scripted assoc_headers plain_urls
        "\<lparr>rp_follow = False, rp_max_redirects = 0, rp_raise_on_exceeded = False\<rparr>"]] by fastforce
qed









section \<open>One request alone\<close>

abbreviation others_kept :: "nat \<Rightarrow> ('h, 'u) jar_sys \<Rightarrow> ('h, 'u) jar_sys \<Rightarrow> bool" where
  "others_kept i s t \<equiv> \<forall>j. j \<noteq> i \<longrightarrow> js_senders t j = js_senders s j"

lemma hop_run:
  assumes "redirect_hop env hm ul sf cl q used num hist jar w = Some (w', jar', res)"
    and "se_at (js_senders s i) = AtHop q used num hist" "js_jar s = jar"
  shows "\<exists>t. (jar_step env hm ul (cc_redirects (cl_config cl)))\<^sup>*\<^sup>* s t \<and> js_jar t = jar' \<and>
    se_at (js_senders t i) = after_hop used res \<and> others_kept i s t"
proof -
  let ?step = "jar_step env hm ul (cc_redirects (cl_config cl))"
  have failed: ?thesis if "res = HopDone (Inl e)" "jar' = jar" for e
    using that assms(3) j_fail [of s i q used num hist env hm ul _ e] assms(2)
    by (intro exI [of _ "move i (AtEnd (Inl e)) s"]) auto
  show ?thesis
  proof (cases "try_clone q")
    case None
    with assms(1) failed show ?thesis by (auto simp: redirect_hop_def)
  next
    case (Some q')
    with assms(1) obtain w1 x where sent: "transport_send env hm sf (cl_retry cl) q' w = Some (w1, x)"
      by (auto simp: redirect_hop_def split: option.splits)
    show ?thesis
    proof (cases x)
      case (Inl e)
      with assms(1) Some sent failed show ?thesis by (auto simp: redirect_hop_def)
    next
      case (Inr hop)
      define s1 where "s1 = move i (AtAnswer q used num hist hop) (answered i hop s)"
      have first: "?step s s1" unfolding s1_def using assms(2) Some by (intro j_answer) simp_all
      have at: "se_at (js_senders s1 i) = AtAnswer q used num hist hop" "js_jar s1 = jar"
        by (simp_all add: s1_def assms(3))
      have out: "hop_outcome env hm ul (cc_redirects (cl_config cl)) q used num hist hop (js_jar s1) w1 = (w', jar', res)"
        using assms(1) Some sent Inr at(2) by (simp add: redirect_hop_def)
      have second: "?step s1 (move i (after_hop used res) (if is_3xx hop then merged i jar' s1 else s1))"
        using j_look [OF at(1) _ out] j_redirect [OF at(1) _ out] by simp
      show ?thesis
        using first second hop_outcome_cookies(1) [OF out]
        by (intro exI [of _ "move i (after_hop used res) (if is_3xx hop then merged i jar' s1 else s1)"])
           (auto simp: s1_def assms(3) split: if_splits)
    qed
  qed
qed

definition last_at :: "rqx_error + ('h, 'u) pending \<Rightarrow> ('h, 'u) send_at" where
  "last_at res = (case res of Inl e \<Rightarrow> AtEnd (Inl e) | Inr p \<Rightarrow> AtLast p)"

lemma follow_run:
  "follow_redirects env hm ul sf cl q used num hist jar w = Some (w', jar', res) \<Longrightarrow>
   se_at (js_senders s i) = AtHop q used num hist \<Longrightarrow> js_jar s = jar \<Longrightarrow>
   \<exists>t. (jar_step env hm ul (cc_redirects (cl_config cl)))\<^sup>*\<^sup>* s t \<and> js_jar t = jar' \<and>
     se_at (js_senders t i) = last_at res \<and> others_kept i s t"
proof (induction "unat (rp_max_redirects (cc_redirects (cl_config cl))) - used"
    arbitrary: q used num hist jar w s rule: less_induct)
  case less
  obtain w1 jar1 step where hop: "redirect_hop env hm ul sf cl q used num hist jar w = Some (w1, jar1, step)"
    using less.prems(1) by (cases "redirect_hop env hm ul sf cl q used num hist jar w")
      (auto simp: follow_redirects.simps [of env hm ul sf cl q used num hist jar w])
  obtain s1 where s1: "(jar_step env hm ul (cc_redirects (cl_config cl)))\<^sup>*\<^sup>* s s1" "js_jar s1 = jar1"
    "se_at (js_senders s1 i) = after_hop used step" "others_kept i s s1"
    using hop_run [OF hop less.prems(2,3)] by blast
  show ?case
  proof (cases step)
    case (HopDone r)
    with less.prems(1) hop have "r = res" "jar1 = jar'"
      by (simp_all add: follow_redirects.simps [of env hm ul sf cl q used num hist jar w])
    with HopDone s1 show ?thesis by (cases res) (auto simp: last_at_def)
  next
    case (HopAgain q' num' hist')
    from redirect_hop_used [OF hop [unfolded HopAgain]] have
      lt: "unat (rp_max_redirects (cc_redirects (cl_config cl))) - (used + 1) <
       unat (rp_max_redirects (cc_redirects (cl_config cl))) - used" by simp
    have again: "follow_redirects env hm ul sf cl q' (used + 1) num' hist' jar1 w1 = Some (w', jar', res)"
      using less.prems(1) hop HopAgain by (simp add: follow_redirects.simps [of env hm ul sf cl q used num hist jar w])
    from less.hyps [OF lt again _ s1(2)] s1(3) HopAgain obtain t where
      t: "(jar_step env hm ul (cc_redirects (cl_config cl)))\<^sup>*\<^sup>* s1 t" "js_jar t = jar'"
      "se_at (js_senders t i) = last_at res" "others_kept i s1 t" by auto
    with s1(4) rtranclp_trans [OF s1(1) t(1)] show ?thesis by auto
  qed
qed

lemma once_run:
  assumes "se_at (js_senders s i) = AtOnce q"
  shows "\<exists>t. jar_step env hm ul policy s t \<and> js_jar t = js_jar s \<and>
    se_at (js_senders t i) = last_at res \<and> others_kept i s t"
proof (cases res)
  case (Inl e)
  with j_fail [OF disjI2 [OF assms]] show ?thesis
    by (intro exI [of _ "move i (AtEnd (Inl e)) s"]) (simp add: last_at_def)
next
  case (Inr hop)
  with j_once [OF assms] show ?thesis
    by (intro exI [of _ "move i (AtLast hop) (answered i hop s)"]) (simp add: last_at_def)
qed

text \<open>The interleaved requests are the code's: one that is left to itself does what \<^verbatim>\<open>Client::send\<close>
  does.  Whatever the state of the others, there is a run of one request's steps that leaves the jar as
  \<open>client_send\<close> leaves it, ends with its result and does not touch the other requests.\<close>

theorem client_send_refines_steps:
  assumes "client_send env hm ul show_float cl q follow jar w = Some (w', jar', res)"
    and "js_senders s i = send_start q follow" and "js_jar s = jar"
  shows "\<exists>t. (jar_step env hm ul (cc_redirects (cl_config cl)))\<^sup>*\<^sup>* s t \<and> js_jar t = jar' \<and>
    se_at (js_senders t i) = AtEnd res \<and> (\<forall>j. j \<noteq> i \<longrightarrow> js_senders t j = js_senders s j)"
proof -
  let ?step = "jar_step env hm ul (cc_redirects (cl_config cl))"
  obtain w1 t0 where now: "ne_now env w = (w1, t0)" by fastforce
  obtain w2 jar2 x where
    sent: "(if follow then follow_redirects env hm ul show_float cl q 0 0 [] jar w1
      else map_option (\<lambda>(w2, res). (w2, jar, res))
        (transport_send env hm show_float (cl_retry cl) q w1)) = Some (w2, jar2, x)"
    using assms(1) now by (auto simp: client_send_def split: option.splits)
  have "\<exists>t. ?step\<^sup>*\<^sup>* s t \<and> js_jar t = jar2 \<and> se_at (js_senders t i) = last_at x \<and> others_kept i s t"
  proof (cases follow)
    case True
    with sent follow_run [of env hm ul show_float cl q 0 0 "[]" jar w1 w2 jar2 x s i] assms(2,3) show ?thesis
      by (simp add: send_start_def)
  next
    case False
    with sent once_run [of s i q env hm ul "cc_redirects (cl_config cl)" x] assms(2,3) show ?thesis
      by (auto simp: send_start_def)
  qed
  then obtain t where t: "?step\<^sup>*\<^sup>* s t" "js_jar t = jar2" "se_at (js_senders t i) = last_at x" "others_kept i s t"
    by blast
  show ?thesis
  proof (cases x)
    case (Inl e)
    with assms(1) now sent t show ?thesis by (auto simp: client_send_def last_at_def)
  next
    case (Inr p)
    obtain w3 t1 where "ne_now env w2 = (w3, t1)" by fastforce
    with assms(1) now sent Inr have res: "jar' = accumulate_cookies jar2 (cookies (parts p))"
      "res = Inr (p\<lparr>parts := (parts p)\<lparr>elapsed := t1 - t0\<rparr>\<rparr>)" by (simp_all add: client_send_def)
    have "se_at (js_senders t i) = AtLast p" using t(3) Inr by (simp add: last_at_def)
    from rtranclp.rtrancl_into_rtrancl [OF t(1) j_last [OF this, where t = "t1 - t0"]] t(2,4) res show ?thesis
      by (intro exI [of _ "move i (AtEnd res) (merged i jar' t)"]) simp
  qed
qed

lemma run_scripted:
  "case client_send scripted assoc_headers plain_urls (\<lambda>_. []) (plain_client 5) plain_request True Map.empty hops_302 of
     Some (w, jar, Inr p) \<Rightarrow> jar ''k'' = Some ''2'' \<and> jar ''s'' = Some ''x'' | _ \<Rightarrow> False"
  by code_simp

theorem client_send_refines_steps_witness:
  "\<exists>t p. (jar_step scripted assoc_headers plain_urls (cc_redirects (cl_config (plain_client 5))))\<^sup>*\<^sup>*
       \<lparr>js_jar = Map.empty, js_senders = (\<lambda>i. send_start plain_request True)\<rparr> t \<and>
     se_at (js_senders t 3) = AtEnd (Inr p) \<and> js_jar t ''k'' = Some ''2'' \<and> js_jar t ''s'' = Some ''x''"
proof -
  obtain w jar p where run: "client_send scripted assoc_headers plain_urls (\<lambda>_. []) (plain_client 5) plain_request
      True Map.empty hops_302 = Some (w, jar, Inr p)" "jar ''k'' = Some ''2''" "jar ''s'' = Some ''x''"
    using run_scripted by (auto split: option.split_asm prod.split_asm sum.split_asm)
  from client_send_refines_steps [OF run(1), of "\<lparr>js_jar = Map.empty, js_senders = (\<lambda>i. send_start plain_request True)\<rparr>" 3]
  show ?thesis using run(2,3) by auto
qed

end
