(* ===== verification/Rqx_Attrs.thy ===== *)
theory Rqx_Attrs
  imports Rqx_Python
begin

text \<open>
  What the attributes of the value classes show: \<^verbatim>\<open>rqx.URL\<close> (\<^verbatim>\<open>rqx/src/url/py_url.rs\<close>),
  \<^verbatim>\<open>rqx.Retry\<close>, \<^verbatim>\<open>rqx.RedirectPolicy\<close> and \<^verbatim>\<open>rqx.Timeout\<close>; and what putting them back does.
\<close>

datatype attr =
    IsText string | IsBytes bytes | IsInt int | IsFloat fl | IsBool bool | IsInts "int set" | IsTexts "string set" | IsNone

definition a_option :: "('a \<Rightarrow> attr) \<Rightarrow> 'a option \<Rightarrow> attr" where
  "a_option f x = (case x of None \<Rightarrow> IsNone | Some y \<Rightarrow> f y)"

text \<open>The getters of a class by name; any other name is an \<^verbatim>\<open>AttributeError\<close>, here \<open>None\<close>.\<close>

definition url_attrs :: "'u url_lib \<Rightarrow> 'r iri_lib \<Rightarrow> ('u, 'r) url_reference \<Rightarrow> string \<Rightarrow> attr option" where
  "url_attrs ul il x = map_of
     [(''scheme'', IsText (url_scheme ul x)),
      (''username'', IsText (url_username ul il x)),
      (''password'', IsText (url_password ul il x)),
      (''host'', IsText (url_host_name ul il x)),
      (''port'', a_option (\<lambda>p. IsInt (uint p)) (url_port ul il x)),
      (''path'', IsText (url_path ul il x)),
      (''query'', IsBytes (map of_char (url_query ul il x))),
      (''raw_path'', IsBytes (map of_char (raw_path ul il x))),
      (''fragment'', IsText (url_fragment ul il x))]"

definition retry_attrs :: "retry \<Rightarrow> string \<Rightarrow> attr option" where
  "retry_attrs r = map_of
     [(''total'', IsInt (rt_total r)),
      (''connect'', IsInt (rt_connect r)),
      (''read'', IsInt (rt_read r)),
      (''status'', IsInt (rt_status r)),
      (''backoff_factor'', IsFloat (rt_backoff_factor r)),
      (''backoff_max'', IsFloat (rt_backoff_max r)),
      (''backoff_jitter'', IsFloat (rt_backoff_jitter r)),
      (''status_forcelist'', IsInts (uint ` rt_status_forcelist r)),
      (''allowed_methods'', IsTexts (rt_allowed_methods r)),
      (''respect_retry_after_header'', IsBool (rt_respect_retry_after r)),
      (''raise_on_status'', IsBool (rt_raise_on_status r)),
      (''total_timeout'', a_option IsFloat (rt_total_timeout r))]"

definition policy_attrs :: "redirect_policy \<Rightarrow> string \<Rightarrow> attr option" where
  "policy_attrs p = map_of
     [(''follow'', IsBool (rp_follow p)),
      (''max_redirects'', IsInt (uint (rp_max_redirects p))),
      (''raise_on_exceeded'', IsBool (rp_raise_on_exceeded p))]"

definition timeout_attrs :: "timeout \<Rightarrow> string \<Rightarrow> attr option" where
  "timeout_attrs t = map_of
     [(''connect'', a_option IsFloat (to_connect t)),
      (''read'', a_option IsFloat (to_read t)),
      (''write'', a_option IsFloat (to_write t)),
      (''pool'', a_option IsFloat (to_pool t))]"


section \<open>Constructing and reading back\<close>

lemma a_option_eq [simp]: "inj f \<Longrightarrow> (\<And>y. f y \<noteq> IsNone) \<Longrightarrow> a_option f x = a_option f y \<longleftrightarrow> x = y"
  by (cases x; cases y) (auto simp: a_option_def inj_def dest: not_sym)

lemma uint_eq [simp]: "uint a = uint b \<longleftrightarrow> a = b"
  by (simp add: word_uint_eq_iff)

lemma uint_image_eq [simp]: "uint ` A = uint ` B \<longleftrightarrow> A = (B :: 'a::len word set)"
  by (rule inj_image_eq_iff) (simp add: inj_def)

lemma attrs_eq: "map_of xs = map_of ys \<Longrightarrow> map fst xs = map fst ys \<Longrightarrow> distinct (map fst xs) \<Longrightarrow> xs = ys"
proof (induction xs ys rule: list_induct2')
  case (4 x xs y ys)
  have "snd x = snd y" using 4(2,3) by (cases x; cases y) (metis fst_conv list.sel(1) list.simps(9) map_of_Cons_code(2) option.inject snd_conv)
  moreover have "fst ` set xs = fst ` set ys" using 4(3) by (metis list.set_map list.map(2) list.inject)
  then have "map_of xs = map_of ys"
  proof (intro ext)
    fix k
    assume "fst ` set xs = fst ` set ys"
    then show "map_of xs k = map_of ys k"
      using fun_cong [OF 4(2), of k] 4(3,4) by (cases "k = fst x") (auto split: if_splits, metis map_of_eq_None_iff)
  qed
  ultimately show ?case using 4 by (cases x; cases y) auto
qed auto

text \<open>
  The attributes determine the object: two retry configurations, redirect policies or timeouts that show the
  same are the same, so nothing a client acts on is hidden.
\<close>

theorem attributes_determine:
  "(retry_attrs r = retry_attrs r' \<longleftrightarrow> r = r') \<and> (policy_attrs p = policy_attrs p' \<longleftrightarrow> p = p') \<and>
   (timeout_attrs t = timeout_attrs t' \<longleftrightarrow> t = t')"
proof (intro conjI iffI)
  assume "retry_attrs r = retry_attrs r'"
  from attrs_eq [OF this [unfolded retry_attrs_def]] show "r = r'"
    by (intro retry.equality) (simp_all add: inj_def)
next
  assume "policy_attrs p = policy_attrs p'"
  from attrs_eq [OF this [unfolded policy_attrs_def]] show "p = p'"
    by (intro redirect_policy.equality) simp_all
next
  assume "timeout_attrs t = timeout_attrs t'"
  from attrs_eq [OF this [unfolded timeout_attrs_def]] show "t = t'"
    by (intro timeout.equality) (simp_all add: inj_def)
qed simp_all

text \<open>
  \<^verbatim>\<open>Timeout(all)\<close> shows \<open>all\<close> four times, and a timeout built from what another shows is the same.
\<close>

theorem timeout_attributes:
  "n \<in> {''connect'', ''read'', ''write'', ''pool''} \<Longrightarrow> timeout_attrs (py_timeout_new (Some x) None None None None) n = Some (IsFloat x)"
  by (auto simp: timeout_attrs_def py_timeout_new_def timeout_new_def or_else_def a_option_def)

lemma timeout_rebuilt: "py_timeout_new None (to_connect t) (to_read t) (to_write t) (to_pool t) = t"
  by (cases t) (simp add: py_timeout_new_def timeout_new_def or_else_def split: option.splits)


section \<open>Components are pasted, not encoded\<close>

text \<open>
  A copy with one component changed may differ in others: \<open>compose\<close> pastes the components together and parses
  the text, so a delimiter within one ends it.  A user name with a slash replaces the host: what follows the
  \<^verbatim>\<open>//\<close> up to the slash is parsed as the authority, and the old host becomes part of the path.
\<close>

theorem username_replaces_host:
  assumes "or_empty (u_host_str ul u) \<noteq> []" and "or_empty (u_password ul u) = []" and "evil \<noteq> []"
  shows "compose ul il (Some (Absolute u)) (no_components\<lparr>c_username := Some (evil @ ''/'')\<rparr>) =
    compose ul il (Some (Absolute u)) (no_components\<lparr>c_username := Some [], c_host := Some evil, c_port := Some None,
      c_path := Some (''/@'' @ or_empty (u_host_str ul u) @
        (case u_port ul u of Some p \<Rightarrow> '':'' @ show_nat (unat p) | None \<Rightarrow> []) @
        (if u_path ul u \<noteq> [] \<and> \<not> starts_with ''/'' (u_path ul u) then ''/'' else []) @ u_path ul u)\<rparr>)"
  using assms
  by (simp add: compose_def assemble_def pick_def no_components_def url_scheme_def url_username_def url_password_def
      encoded_host_def url_port_def encoded_path_def url_query_def url_fragment_def starts_with_def)

lemma username_replaces_host_text:
  "assemble ''http'' ''evil/'' [] ''h'' None ''/p'' [] [] = ''http://evil/@h/p''"
  by (simp add: assemble_def starts_with_def)

text \<open>
  A host that is an IPv6 address is shown without its brackets, which nothing puts back: a copy with the host that
  the URL itself shows is parsed from a text in which the address's colons stand where a port begins.
\<close>

lemma host_loses_brackets:
  assumes "u_host_str ul u = Some (''['' @ h @ '']'')"
  shows "url_host_name ul il (Absolute u) = h"
    and "compose ul il (Some (Absolute u)) (no_components\<lparr>c_host := Some (url_host_name ul il (Absolute u))\<rparr>) =
      url_parse ul il (assemble (u_scheme ul u) (u_username ul u) (or_empty (u_password ul u)) h
        (u_port ul u) (u_path ul u) (or_empty (u_query ul u)) (or_empty (u_fragment ul u)))"
proof -
  show host: "url_host_name ul il (Absolute u) = h"
    using assms by (simp add: url_host_name_def encoded_host_def strip_prefix_def starts_with_def ends_with_def
        or_empty_def Let_def)
  show "compose ul il (Some (Absolute u)) (no_components\<lparr>c_host := Some (url_host_name ul il (Absolute u))\<rparr>) =
      url_parse ul il (assemble (u_scheme ul u) (u_username ul u) (or_empty (u_password ul u)) h
        (u_port ul u) (u_path ul u) (or_empty (u_query ul u)) (or_empty (u_fragment ul u)))"
    unfolding host
    by (simp add: compose_def pick_def no_components_def url_scheme_def url_username_def url_password_def
        url_port_def encoded_path_def url_query_def url_fragment_def)
qed

lemma host_loses_brackets_text:
  "assemble ''http'' [] [] ''::1'' None ''/p'' [] [] = ''http://::1/p''"
  by (simp add: assemble_def starts_with_def)

end
