(* ===== verification/Spec2Isabelle.thy ===== *)
theory Spec2Isabelle
  imports Rqx_Error Rqx_Chunking Rqx_Lines Rqx_Live Rqx_Iter Rqx_Float Rqx_Utf8 Rqx_Headers Rqx_Json
    Rqx_Response Rqx_Stream Rqx_Query Rqx_Url Rqx_Retry Rqx_Transport Rqx_Redirect Rqx_Client
    Rqx_Context Rqx_Runtime Rqx_Aiter Rqx_PyUrl Rqx_Python Rqx_Decimal Rqx_Repr
    Rqx_Views Rqx_Module Rqx_Deadline Rqx_Jar Rqx_Attrs
begin

text \<open>
  A verification library for \<^verbatim>\<open>rqx\<close>, an HTTP client for Python written in Rust
  (https://github.com/rodcochran/rqx).  Paths below are under \<^verbatim>\<open>src/crates\<close>.

  \<^bold>\<open>The program.\<close>  \<^verbatim>\<open>rqx-core\<close> is the client proper, on top of \<^verbatim>\<open>reqwest\<close>; \<^verbatim>\<open>rqx\<close> binds
  it to Python.  A call becomes a request (URL, query, headers, body, credentials, timeout); the
  client merges it with its base URL and builds what is sent, follows redirects, and accumulates
  cookies; each hop goes through the transport, which retries it and bounds how many requests execute
  at once; the response is read into memory or streamed through chunkers, decoders and iterators that
  a close may overtake.  The Python side converts arguments and errors, runs the core's futures on a
  process-wide tokio runtime, and gives the responses and streams their protocols.

  \<^bold>\<open>Foundations.\<close>  \<open>Rqx_Prelude\<close>: strings and their byte offsets, machine integers, decimal
  numerals, pieces of a fixed size.  \<open>Rqx_Float\<close>: \<^verbatim>\<open>f32\<close> and \<^verbatim>\<open>f64\<close> with rounding to
  nearest even, overflow to infinity and the conversion to \<^verbatim>\<open>Duration\<close> that can panic.
  \<open>Rqx_Utf8\<close>: \<^verbatim>\<open>String::from_utf8_lossy\<close>.

  \<^bold>\<open>Errors\<close> (\<open>Rqx_Error\<close>: \<^verbatim>\<open>rqx-core/src/error.rs\<close>, \<^verbatim>\<open>rqx/src/exceptions.rs\<close>): the
  error type as a datatype, the classification of \<^verbatim>\<open>reqwest\<close> errors, the Python exception
  hierarchy as a relation.  \<open>Rqx_Module\<close> (\<^verbatim>\<open>rqx/src/lib.rs\<close>): loading the extension module,
  with the classes as \<^verbatim>\<open>type()\<close> builds and linearises them.  Every fallible operation below returns a sum with one of these types on
  the left; \<^verbatim>\<open>option\<close> around it is a panic.

  \<^bold>\<open>Streaming.\<close>  \<open>Rqx_Chunking\<close> (\<^verbatim>\<open>streaming/chunking.rs\<close>) and \<open>Rqx_Lines\<close>
  (\<^verbatim>\<open>streaming/decoding.rs\<close>) regroup and split what arrives; \<open>Rqx_Live\<close>
  (\<^verbatim>\<open>streaming/live_stream.rs\<close>) is the stream that readers and closers share, first with atomic
  methods and then as the step relation of any number of tasks, which the atomic method refines.
  \<open>Rqx_Iter\<close> and \<open>Rqx_Aiter\<close> (\<^verbatim>\<open>rqx/src/stream.rs\<close>) are the iterators over it: one loop
  over what an iterator pops, feeds and flushes, instantiated three times; the asynchronous classes are
  a second step relation, with futures that queue, wait, are cancelled and are overtaken by closes.
  \<open>Rqx_Stream\<close> (\<^verbatim>\<open>streaming/body.rs\<close>, \<^verbatim>\<open>rqx/src/stream.rs\<close>) holds the response objects and
  who owns the body: as a protocol of calls for the sync class, as interleaved coroutines for the
  async one.  \<open>Rqx_Response\<close> (\<^verbatim>\<open>response.rs\<close> of both crates): parts, status, encoding, JSON
  errors, the cached Python views.  \<open>Rqx_Views\<close>: the attributes of the three response classes.

  \<^bold>\<open>Data.\<close>  \<open>Rqx_Headers\<close> (\<^verbatim>\<open>headers.rs\<close>, \<^verbatim>\<open>request_headers.rs\<close>), \<open>Rqx_Json\<close>
  (\<^verbatim>\<open>rqx/src/py_json.rs\<close>: objects on a heap, with cycles), \<open>Rqx_Query\<close> (\<^verbatim>\<open>query_params.rs\<close>
  of both crates, against an insertion-ordered dictionary of value lists), \<open>Rqx_Url\<close>
  (\<^verbatim>\<open>rqx-core/src/url\<close>) and \<open>Rqx_PyUrl\<close> (\<^verbatim>\<open>rqx/src/url/py_url.rs\<close>), \<open>Rqx_Python\<close> (the
  remaining Python value classes), \<open>Rqx_Attrs\<close> (what their attributes show), \<open>Rqx_Repr\<close> (\<^verbatim>\<open>rqx/src/py_utils/repr.rs\<close>) on
  \<open>Rqx_Decimal\<close>, the shortest decimal that reads back as a double and what rounding does near it.

  \<^bold>\<open>Sending.\<close>  \<open>Rqx_Retry\<close> (\<^verbatim>\<open>retry.rs\<close> and the loop of \<^verbatim>\<open>rqx-core/src/transport.rs\<close>):
  which failures are retried, how long it waits, and the loop over a world that answers or fails;
  \<open>Rqx_Deadline\<close> puts the loop on a clock, for \<^verbatim>\<open>total_timeout\<close>: how late a sleep may end, how long
  draining a response and the code itself may take are parameters of its bound.
  \<open>Rqx_Transport\<close>: options, the builder's settings, the connection semaphore as a step relation.
  \<open>Rqx_Redirect\<close> (\<^verbatim>\<open>redirect.rs\<close>): the next request of a chain.  \<open>Rqx_Client\<close>
  (\<^verbatim>\<open>client.rs\<close>, \<^verbatim>\<open>request.rs\<close>, \<^verbatim>\<open>request_components/body.rs\<close>): building, redirect
  following and the cookie jar, composed from the previous three as \<^verbatim>\<open>Client::send\<close> composes them;
  \<open>Rqx_Jar\<close> is the same with any number of requests at once, sharing the jar.
  \<open>Rqx_Context\<close> (\<^verbatim>\<open>rqx/src/client.rs\<close>, \<^verbatim>\<open>streaming/context.rs\<close>,
  \<^verbatim>\<open>rqx/src/stream_context.rs\<close>): the clients as Python sees them, and the stream contexts.
  \<open>Rqx_Runtime\<close> (\<^verbatim>\<open>rqx/src/runtime.rs\<close>): the runtime slot as a step relation over atomic
  accesses of any number of threads, forks and shutdowns.

  \<^bold>\<open>How state is kept.\<close>  A component's fields are a record and its methods return the updated
  record.  What lies outside, the network, the clock and sleeping, is a world \<open>'w\<close> with the
  operations of \<open>net_env\<close>; invariants of it are carried through retries and redirects by
  \<open>world_inv\<close>, and instrumenting it (\<open>counted\<close>, \<open>timed\<close>, \<open>logged\<close>, \<open>recorded\<close>) is how the
  bounds and the credential and cookie theorems observe what was sent.  Concurrency is a step relation
  whose steps are the code's atomic accesses or its stretches between awaits, with an invariant proved
  by rule induction over its reachable states.

  \<^bold>\<open>What is proved.\<close>  Safety under interleaving: a closed stream delivers nothing, its reads share the
  body out in order, a close completes under every schedule without the network, an async body has one owner, concurrent iteration hands out each line once, a handle belongs to the calling process and
  no runtime outlives shutdown, a context sends its request once,
  concurrent requests lose no cookie.  Bounds: requests per redirect chain,
  attempts per request, the wait between them, when the last may begin, executing requests, steps of a runtime call
  and of the calls on a stream.
  Termination of the retry and redirect loops.  Equivalence and refinement: iteration against
  \<^verbatim>\<open>splitlines\<close>, against \<^verbatim>\<open>read\<close> and against the async classes, the incremental line decoder
  against the whole text, query parameters (and those of a URL) against a dictionary, the printed doubles against Python's.
  Round trips: JSON, query parameters, URL components, printed doubles.  The class of everything a request raises.  Which credentials and cookies a chain carries and collects.  Error behaviour,
  including the panics and divergences found.

  \<^bold>\<open>Interfaces.\<close>  \<open>chunker\<close> (interpreted for bytes and text), \<open>piece_iterator\<close> (for the
  three iterators; \<open>Rqx_Aiter\<close> extends its lemmas to concurrent futures) and \<open>multi_dict\<close> (for
  the query pairs) are locales whose laws the code's definitions discharge.

  \<^bold>\<open>Parameters.\<close>  Code of other crates is an argument: \<open>header_map\<close> (\<^verbatim>\<open>http\<close>), \<open>url_lib\<close>
  and \<open>iri_lib\<close> (\<^verbatim>\<open>url\<close>, \<^verbatim>\<open>iri-string\<close>), \<open>encodings\<close> and \<open>decoder\<close>
  (\<^verbatim>\<open>encoding_rs\<close>), \<open>request_lib\<close> and \<open>net_env\<close> (\<^verbatim>\<open>reqwest\<close>, \<^verbatim>\<open>tokio\<close>),
  \<open>tls_lib\<close>, the JSON parser, form encoding, the display of floats.  What the code relies on is a
  named hypothesis (\<open>header_map_ok\<close>, \<open>origin_law\<close>, \<open>jar_ok\<close>, \<open>url_serializes\<close>,
  \<open>query_law\<close>, \<open>join_absolute_law\<close>, \<open>runs_on\<close>); each property with one has a witness at a concrete function.

  \<^bold>\<open>Fuel and bounds.\<close>  \<open>iter_collect\<close> takes a bound on the pieces, and the theorems name a
  sufficient one; \<open>follow_redirects\<close> and \<open>retry_loop\<close> recurse on measures of the code's own
  counters; the other loops are structural or end because the stream shrinks.

  \<^bold>\<open>Not modelled.\<close>  The iterators' \<^verbatim>\<open>__iter__\<close>, type stubs; \<^verbatim>\<open>reqwest\<close>'s connection pool, so a connection's
  reuse is not a state here; instance layouts of Python classes; in \<open>Rqx_Live\<close>, a read or close whose task is cancelled midway
  (the iterators' futures are cancelled in \<open>Rqx_Aiter\<close>), and fairness of the lock, which no theorem needs; a process ID that the system reuses for a forked
  child of a dead ancestor, against which \<^verbatim>\<open>runtime.rs\<close> does not defend.
\<close>

end
